(* ===== verification/Prelude.thy ===== *)
theory Prelude
  imports Main "HOL-Library.Word"
begin

text \<open>
  Vocabulary and automation shared by every component of the development.

  \<^item> machine integers: a value of the source that may wrap is a \<open>u64\<close> or \<open>u32\<close> word;
    a count or a duration that the source only saturates is a \<open>nat\<close> with the
    saturation written out (\<open>sat_u64\<close>, \<open>sat_u32\<close>);
  \<^item> \<open>'a rust\<close> is the result of a call that may panic;
  \<^item> the collections \<open>model_simps\<close> (unfolding rules for the small accessors of the
    model) and \<open>wf_intros\<close> (preservation of well-formedness), filled by the components;
  \<^item> folds, the optional extrema of Rust iterators, and prefix lemmas on lists.
\<close>

named_theorems model_simps "small accessors and constants of the model"
named_theorems wf_intros "operations preserve well-formedness"

section \<open>Machine integers\<close>

type_synonym u64 = "64 word"
type_synonym u32 = "32 word"

text \<open>Bounds of the unsigned types, for counts kept as \<open>nat\<close>.\<close>

definition u64_max :: nat where
  "u64_max = 18446744073709551615"

definition u32_max :: nat where
  "u32_max = 4294967295"

text \<open>\<open>u64::try_from(n).unwrap_or(u64::MAX)\<close> and its 32-bit twin.\<close>

definition sat_u64 :: "nat \<Rightarrow> nat" where
  "sat_u64 n = min n u64_max"

definition sat_u32 :: "nat \<Rightarrow> nat" where
  "sat_u32 n = min n u32_max"

lemma sat_u64_le [simp]: "sat_u64 n \<le> n"
  by (simp add: sat_u64_def)

lemma sat_u64_mono: "a \<le> b \<Longrightarrow> sat_u64 a \<le> sat_u64 b"
  by (simp add: sat_u64_def min_le_iff_disj)

lemma sat_u64_id: "n \<le> u64_max \<Longrightarrow> sat_u64 n = n"
  by (simp add: sat_u64_def)

lemma sat_u32_le [simp]: "sat_u32 n \<le> n"
  by (simp add: sat_u32_def)

lemma sat_u32_id: "n \<le> u32_max \<Longrightarrow> sat_u32 n = n"
  by (simp add: sat_u32_def)

section \<open>Calls that may panic\<close>

datatype 'a rust = Panicked | Returned 'a

section \<open>Optional extrema\<close>

text \<open>
  \<open>max_opt\<close> and \<open>min_opt\<close> of the window modules, over any order given by a key: the
  extremum of two optional readings, absent only when both are.
\<close>

fun opt_join :: "('a \<Rightarrow> 'a \<Rightarrow> 'a) \<Rightarrow> 'a option \<Rightarrow> 'a option \<Rightarrow> 'a option" where
  "opt_join f (Some a) (Some b) = Some (f a b)"
| "opt_join f (Some a) None = Some a"
| "opt_join f None b = b"

lemma opt_join_None [simp]: "opt_join f a None = a"
  by (cases a) auto

lemma opt_join_eq_None [simp]: "opt_join f a b = None \<longleftrightarrow> a = None \<and> b = None"
  by (cases a; cases b) auto

text \<open>\<open>Option::or\<close>.\<close>

definition opt_or :: "'a option \<Rightarrow> 'a option \<Rightarrow> 'a option" where
  "opt_or a b = (case a of None \<Rightarrow> b | Some x \<Rightarrow> Some x)"

lemma opt_or_eq_None [simp]: "opt_or a b = None \<longleftrightarrow> a = None \<and> b = None"
  by (simp add: opt_or_def split: option.splits)

section \<open>Folds\<close>

text \<open>An invariant kept by every step of a loop holds after the loop.\<close>

lemma foldl_invariant:
  assumes "P s" and "\<And>s x. P s \<Longrightarrow> x \<in> set xs \<Longrightarrow> P (f s x)"
  shows "P (foldl f s xs)"
  using assms by (induction xs arbitrary: s) auto

lemma foldl_simulation:
  assumes "R s t" and "\<And>s t x. R s t \<Longrightarrow> x \<in> set xs \<Longrightarrow> R (f s x) (g t x)"
  shows "R (foldl f s xs) (foldl g t xs)"
  using assms by (induction xs arbitrary: s t) auto

text \<open>The abstract counterpart of a loop, read through an abstraction function.\<close>

lemma foldl_abstraction:
  assumes "\<And>s x. x \<in> set xs \<Longrightarrow> h (f s x) = g (h s) x"
  shows "h (foldl f s xs) = foldl g (h s) xs"
  using assms by (induction xs arbitrary: s) auto

section \<open>Lists\<close>

lemma drop_eq_tl: "n < length xs \<Longrightarrow> drop (Suc n) xs = tl (drop n xs)"
  by (simp add: drop_Suc tl_drop)

text \<open>\<open>sort_unstable\<close> then \<open>dedup\<close>: strictly ascending, with the same members.\<close>

lemma sorted_distinct_adj: "sorted xs \<Longrightarrow> distinct_adj xs \<Longrightarrow> sorted_wrt (<) (xs :: 'a::linorder list)"
proof (induction xs rule: induct_list012)
  case (3 x y zs)
  then have "x < y" and "sorted_wrt (<) (y # zs)" by auto
  then show ?case by auto
qed simp_all

lemma sorted_dedup: "sorted_wrt (<) (remdups_adj (sort (xs :: 'a::linorder list)))"
  by (simp add: sorted_distinct_adj sorted_remdups_adj)

text \<open>A \<open>BTreeSet\<close> collected from an iterator, as the list of its members in order.\<close>

definition btree_set :: "'a::linorder list \<Rightarrow> 'a list" where
  "btree_set xs = remdups_adj (sort xs)"

lemma set_btree_set [simp]: "set (btree_set xs) = set xs"
  by (simp add: btree_set_def)

lemma sorted_btree_set: "sorted_wrt (<) (btree_set xs)"
  by (simp add: btree_set_def sorted_dedup)

lemma btree_set_Nil [simp]: "btree_set xs = [] \<longleftrightarrow> xs = []"
  by (metis set_btree_set set_empty)

end
