(* ===== verification/Ordered_Map.thy ===== *)
theory Ordered_Map
  imports Prelude
begin

text \<open>
  Rust's \<open>BTreeMap\<close> and \<open>BTreeSet\<close> as the source uses them: an association list in
  strictly ascending key order. Keys are compared through a function into a linear order,
  because the keys of the books are decimals that are equal as numbers while differing as
  digits (\<open>45000.1\<close> and \<open>45000.10\<close>): inserting at a key already present keeps the old
  key and replaces the value, as the standard library documents.

  The locale \<open>keyed_map\<close> is the interface the books and the registry rely on; it is
  interpreted on these operations at the end.
\<close>

section \<open>Operations\<close>

fun om_get :: "('k \<Rightarrow> 'o) \<Rightarrow> 'o \<Rightarrow> ('k \<times> 'v) list \<Rightarrow> 'v option" where
  "om_get f x [] = None"
| "om_get f x ((k, v) # m) = (if f k = x then Some v else om_get f x m)"

fun om_insert :: "('k \<Rightarrow> 'o::linorder) \<Rightarrow> 'k \<Rightarrow> 'v \<Rightarrow> ('k \<times> 'v) list \<Rightarrow> ('k \<times> 'v) list" where
  "om_insert f k v [] = [(k, v)]"
| "om_insert f k v ((k', v') # m) =
     (if f k < f k' then (k, v) # (k', v') # m
      else if f k = f k' then (k', v) # m
      else (k', v') # om_insert f k v m)"

fun om_remove :: "('k \<Rightarrow> 'o) \<Rightarrow> 'o \<Rightarrow> ('k \<times> 'v) list \<Rightarrow> ('k \<times> 'v) list" where
  "om_remove f x [] = []"
| "om_remove f x ((k, v) # m) = (if f k = x then m else (k, v) # om_remove f x m)"

text \<open>
  \<open>collect()\<close> into a map: later pairs win over earlier ones with an equal key.
\<close>

definition om_collect :: "('k \<Rightarrow> 'o::linorder) \<Rightarrow> ('k \<times> 'v) list \<Rightarrow> ('k \<times> 'v) list" where
  "om_collect f xs = foldl (\<lambda>m (k, v). om_insert f k v (om_remove f (f k) m)) [] xs"

text \<open>Strictly ascending keys: the invariant of the representation.\<close>

definition om_sorted :: "('k \<Rightarrow> 'o::linorder) \<Rightarrow> ('k \<times> 'v) list \<Rightarrow> bool" where
  "om_sorted f m \<longleftrightarrow> sorted_wrt (<) (map (\<lambda>p. f (fst p)) m)"

abbreviation om_keys :: "('k \<Rightarrow> 'o) \<Rightarrow> ('k \<times> 'v) list \<Rightarrow> 'o set" where
  "om_keys f m \<equiv> (\<lambda>p. f (fst p)) ` set m"

section \<open>The representation invariant\<close>

lemma om_sorted_Nil [simp]: "om_sorted f []"
  by (simp add: om_sorted_def)

lemma om_sorted_Cons [simp]:
  "om_sorted f ((k, v) # m) \<longleftrightarrow> (\<forall>x \<in> om_keys f m. f k < x) \<and> om_sorted f m"
  by (simp add: om_sorted_def)

lemma om_keys_insert [simp]: "om_keys f (om_insert f k v m) = insert (f k) (om_keys f m)"
  by (induction f k v m rule: om_insert.induct) auto

lemma om_sorted_insert [simp, wf_intros]: "om_sorted f m \<Longrightarrow> om_sorted f (om_insert f k v m)"
proof (induction m)
  case Nil
  then show ?case by simp
next
  case (Cons p m)
  obtain k' v' where p: "p = (k', v')" by (cases p)
  show ?case
  proof (cases "f k' < f k")
    case True
    have "om_keys f (om_insert f k v m) = insert (f k) (om_keys f m)"
      by (rule om_keys_insert)
    with True Cons show ?thesis by (auto simp: p simp del: om_keys_insert)
  next
    case False
    with Cons.prems show ?thesis by (auto simp: p)
  qed
qed

lemma om_keys_remove_subset: "om_keys f (om_remove f x m) \<subseteq> om_keys f m"
  by (induction f x m rule: om_remove.induct) auto

lemma om_sorted_remove [simp, wf_intros]: "om_sorted f m \<Longrightarrow> om_sorted f (om_remove f x m)"
proof (induction m)
  case Nil
  then show ?case by simp
next
  case (Cons p m)
  obtain k v where p: "p = (k, v)" by (cases p)
  have "\<forall>y \<in> om_keys f (om_remove f x m). f k < y"
    using Cons.prems om_keys_remove_subset [of f x m] unfolding p om_sorted_Cons by blast
  with Cons show ?case by (auto simp: p)
qed

lemma set_om_remove: "set (om_remove f x m) \<subseteq> set m"
  by (induction f x m rule: om_remove.induct) auto

lemma om_remove_absent: "x \<notin> om_keys f m \<Longrightarrow> om_remove f x m = m"
  by (induction f x m rule: om_remove.induct) auto

lemma length_om_remove: "x \<in> om_keys f m \<Longrightarrow> Suc (length (om_remove f x m)) = length m"
  by (induction f x m rule: om_remove.induct) auto

lemma set_om_insert: "set (om_insert f k v m) \<subseteq> insert (k, v) (set m \<union> (\<lambda>p. (fst p, v)) ` set m)"
  by (induction f k v m rule: om_insert.induct) auto

section \<open>Lookup\<close>

lemma om_get_None: "om_get f x m = None \<longleftrightarrow> x \<notin> om_keys f m"
proof (induction m)
  case Nil
  then show ?case by simp
next
  case (Cons p m)
  then show ?case by (cases p) auto
qed

lemma om_get_mem: "om_get f x m = Some v \<Longrightarrow> \<exists>k. (k, v) \<in> set m \<and> f k = x"
  by (induction m) (auto split: if_splits)

lemma om_get_in:
  assumes "om_sorted f m" and "(k, v) \<in> set m"
  shows "om_get f (f k) m = Some v"
  using assms by (induction m) force+

lemma om_get_insert [simp]:
  "om_get f x (om_insert f k v m) = (if x = f k then Some v else om_get f x m)"
  by (induction m) auto

lemma om_get_remove [simp]:
  assumes "om_sorted f m"
  shows "om_get f x (om_remove f y m) = (if x = y then None else om_get f x m)"
  using assms
proof (induction m)
  case Nil
  then show ?case by simp
next
  case (Cons p m)
  obtain k v where p: "p = (k, v)" by (cases p)
  have "f k \<notin> om_keys f m"
    using Cons.prems by (auto simp: p)
  then have "om_get f (f k) m = None"
    by (simp only: om_get_None) simp
  with Cons show ?case by (auto simp: p)
qed

section \<open>Collecting\<close>

lemma om_sorted_collect [simp, wf_intros]: "om_sorted f (om_collect f xs)"
  unfolding om_collect_def
  by (rule foldl_invariant [where P = "om_sorted f"]) (auto simp: split_beta)

lemma om_keys_collect:
  fixes xs :: "('k \<times> 'v) list"
  shows "om_keys f (om_collect f xs) \<subseteq> (\<lambda>p. f (fst p)) ` set xs"
  unfolding om_collect_def
proof (rule foldl_invariant [where P = "\<lambda>m :: ('k \<times> 'v) list. om_keys f m \<subseteq> (\<lambda>p. f (fst p)) ` set xs"])
  fix m :: "('k \<times> 'v) list" and p :: "'k \<times> 'v"
  assume m: "om_keys f m \<subseteq> (\<lambda>p. f (fst p)) ` set xs" and p: "p \<in> set xs"
  have "f (fst p) \<in> (\<lambda>p. f (fst p)) ` set xs"
    using p by simp
  moreover have "om_keys f (om_remove f (f (fst p)) m) \<subseteq> (\<lambda>p. f (fst p)) ` set xs"
    using om_keys_remove_subset m by (rule subset_trans)
  ultimately show "om_keys f (case p of (k, v) \<Rightarrow> om_insert f k v (om_remove f (f k) m))
      \<subseteq> (\<lambda>p. f (fst p)) ` set xs"
    unfolding case_prod_beta om_keys_insert by (rule insert_subsetI)
qed simp

lemma om_keys_remove: "om_keys f m \<subseteq> insert x (om_keys f (om_remove f x m))"
  by (induction f x m rule: om_remove.induct) auto

lemma set_om_insert_absent:
  "f k \<notin> om_keys f m \<Longrightarrow> set (om_insert f k v m) = insert (k, v) (set m)"
  by (induction f k v m rule: om_insert.induct) auto

lemma om_remove_gone: "om_sorted f m \<Longrightarrow> x \<notin> om_keys f (om_remove f x m)"
  by (rule iffD1 [OF om_get_None]) simp

text \<open>A collected pair is one of the pairs collected.\<close>

lemma set_om_collect: "set (om_collect f xs) \<subseteq> set xs"
proof -
  have "om_sorted f (om_collect f xs) \<and> set (om_collect f xs) \<subseteq> set xs"
    unfolding om_collect_def
  proof (rule foldl_invariant [where P = "\<lambda>m. om_sorted f m \<and> set m \<subseteq> set xs"])
    fix m p
    assume m: "om_sorted f m \<and> set m \<subseteq> set xs" and p: "p \<in> set xs"
    have "set (om_insert f (fst p) (snd p) (om_remove f (f (fst p)) m))
        = insert p (set (om_remove f (f (fst p)) m))"
      using set_om_insert_absent [of f "fst p" "om_remove f (f (fst p)) m" "snd p"]
        om_remove_gone [of f m "f (fst p)"] m by simp
    then show "om_sorted f (case p of (k, v) \<Rightarrow> om_insert f k v (om_remove f (f k) m))
        \<and> set (case p of (k, v) \<Rightarrow> om_insert f k v (om_remove f (f k) m)) \<subseteq> set xs"
      using m p set_om_remove [of f "f (fst p)" m] by (auto simp: case_prod_beta)
  qed simp
  then show ?thesis ..
qed

text \<open>Every key collected is a key of the map.\<close>

lemma om_keys_collect_eq: "om_keys f (om_collect f xs) = (\<lambda>p. f (fst p)) ` set xs"
proof
  show "om_keys f (om_collect f xs) \<subseteq> (\<lambda>p. f (fst p)) ` set xs"
    by (rule om_keys_collect)
  let ?g = "\<lambda>m p. om_insert f (fst p) (snd p) (om_remove f (f (fst p)) m)"
  have "(\<lambda>p. f (fst p)) ` set xs \<subseteq> om_keys f (foldl ?g m xs)
      \<and> om_keys f m \<subseteq> om_keys f (foldl ?g m xs)" for m
  proof (induction xs arbitrary: m)
    case Nil
    then show ?case by simp
  next
    case (Cons p xs)
    have ins: "insert (f (fst p)) (om_keys f m) \<subseteq> om_keys f (?g m p)"
      unfolding om_keys_insert using om_keys_remove [of f m "f (fst p)"] by blast
    note IH = Cons.IH [of "?g m p"]
    have "insert (f (fst p)) (om_keys f m) \<subseteq> om_keys f (foldl ?g (?g m p) xs)"
      using ins IH [THEN conjunct2] by (rule subset_trans)
    with IH show ?case unfolding foldl.simps list.set image_insert insert_subset by iprover
  qed
  from this [of "[]"] show "(\<lambda>p. f (fst p)) ` set xs \<subseteq> om_keys f (om_collect f xs)"
    unfolding om_collect_def case_prod_beta by iprover
qed

lemma om_collect_empty [simp]: "om_collect f xs = [] \<longleftrightarrow> xs = []"
proof -
  have "om_collect f xs = [] \<longleftrightarrow> om_keys f (om_collect f xs) = {}" by simp
  also have "\<dots> \<longleftrightarrow> xs = []" unfolding om_keys_collect_eq by simp
  finally show ?thesis .
qed

lemma om_insert_snoc:
  "\<forall>x \<in> om_keys f m. x < f k \<Longrightarrow> om_insert f k v m = m @ [(k, v)]"
  by (induction m) (auto simp: not_less_iff_gr_or_eq)

lemma om_insert_front:
  "\<forall>x \<in> om_keys f m. f k < x \<Longrightarrow> om_insert f k v m = (k, v) # m"
  by (cases m) auto

text \<open>Collecting a list that is already in key order gives it back.\<close>

lemma om_collect_sorted: "om_sorted f xs \<Longrightarrow> om_collect f xs = xs"
proof (induction xs rule: rev_induct)
  case Nil
  then show ?case by (simp add: om_collect_def)
next
  case (snoc p xs)
  obtain k v where p: "p = (k, v)" by (cases p)
  from snoc.prems have xs: "om_sorted f xs" and lt: "\<forall>x \<in> om_keys f xs. x < f k"
    by (auto simp: om_sorted_def sorted_wrt_append p)
  then have "f k \<notin> om_keys f xs" by auto
  then have "om_remove f (f k) xs = xs" by (rule om_remove_absent)
  with xs snoc.IH lt show ?case
    by (simp add: om_collect_def p om_insert_snoc)
qed

text \<open>Collecting a list in descending key order reverses it.\<close>

lemma om_collect_rev_sorted: "om_sorted f (rev xs) \<Longrightarrow> om_collect f xs = rev xs"
proof (induction xs rule: rev_induct)
  case Nil
  then show ?case by (simp add: om_collect_def)
next
  case (snoc p xs)
  obtain k v where p: "p = (k, v)" by (cases p)
  from snoc.prems have xs: "om_sorted f (rev xs)" and lt: "\<forall>x \<in> om_keys f (rev xs). f k < x"
    by (auto simp: p)
  then have "f k \<notin> om_keys f (rev xs)" by auto
  then have "om_remove f (f k) (rev xs) = rev xs" by (rule om_remove_absent)
  with xs snoc.IH lt show ?case
    by (simp add: om_collect_def p om_insert_front)
qed

section \<open>Ends of the map\<close>

lemma om_first_least:
  "om_sorted f (p # m) \<Longrightarrow> q \<in> set (p # m) \<Longrightarrow> f (fst p) \<le> f (fst q)"
  by (cases p) (auto intro: less_imp_le)

lemma om_last_greatest:
  assumes "om_sorted f m" and "q \<in> set m"
  shows "f (fst q) \<le> f (fst (last m))"
  using assms
proof (induction m rule: rev_induct)
  case Nil
  then show ?case by simp
next
  case (snoc p m)
  then show ?case by (auto simp: om_sorted_def sorted_wrt_append intro: less_imp_le)
qed

lemma om_sorted_butlast: "om_sorted f m \<Longrightarrow> om_sorted f (butlast m)"
  unfolding om_sorted_def by (metis map_butlast butlast_conv_take sorted_wrt_take)

lemma om_remove_last:
  assumes "om_sorted f m" and "m \<noteq> []"
  shows "om_remove f (f (fst (last m))) m = butlast m"
proof -
  have "om_remove f (f k) (xs @ [(k, v)]) = xs" if "\<forall>x \<in> om_keys f xs. x \<noteq> f k" for k v xs
    using that by (induction xs) auto
  moreover obtain xs k v where m: "m = xs @ [(k, v)]"
    using assms(2) by (metis append_butlast_last_id surj_pair)
  moreover have "\<forall>x \<in> om_keys f xs. x \<noteq> f k"
    using assms(1) by (auto simp: m om_sorted_def sorted_wrt_append)
  ultimately show ?thesis by simp
qed

section \<open>The interface\<close>

text \<open>
  What a client of an ordered map relies on: lookup after insert and after remove, and
  the representation invariant kept by both.
\<close>

locale keyed_map =
  fixes key :: "'k \<Rightarrow> 'o"
    and get :: "'o \<Rightarrow> 'm \<Rightarrow> 'v option"
    and ins :: "'k \<Rightarrow> 'v \<Rightarrow> 'm \<Rightarrow> 'm"
    and del :: "'o \<Rightarrow> 'm \<Rightarrow> 'm"
    and ok :: "'m \<Rightarrow> bool"
  assumes get_ins: "ok m \<Longrightarrow> get x (ins k v m) = (if x = key k then Some v else get x m)"
    and get_del: "ok m \<Longrightarrow> get x (del y m) = (if x = y then None else get x m)"
    and ok_ins: "ok m \<Longrightarrow> ok (ins k v m)"
    and ok_del: "ok m \<Longrightarrow> ok (del y m)"
begin

text \<open>One update of a side of a book: a value to store, or a key to delete.\<close>

lemma ok_update: "ok m \<Longrightarrow> ok (if gone then del (key k) m else ins k v m)"
  by (simp add: ok_ins ok_del)

lemma get_update:
  "ok m \<Longrightarrow> (\<lambda>x. get x (if gone then del (key k) m else ins k v m)) =
     (\<lambda>x. get x m)(key k := (if gone then None else Some v))"
  by (auto simp: get_ins get_del fun_eq_iff)

text \<open>A batch of updates, applied in order: the last word on each key wins.\<close>

lemma get_updates:
  assumes "ok m"
  shows "ok (foldl (\<lambda>m u. if gone u then del (key (kf u)) m else ins (kf u) (vf u) m) m us)
    \<and> (\<lambda>x. get x (foldl (\<lambda>m u. if gone u then del (key (kf u)) m else ins (kf u) (vf u) m) m us)) =
      foldl (\<lambda>g u. g(key (kf u) := (if gone u then None else Some (vf u)))) (\<lambda>x. get x m) us"
  using assms
proof (induction us arbitrary: m)
  case Nil
  then show ?case by simp
next
  case (Cons u us)
  let ?m = "if gone u then del (key (kf u)) m else ins (kf u) (vf u) m"
  have "ok ?m" using Cons.prems by (rule ok_update)
  from Cons.IH [OF this] show ?case
    by (simp only: foldl.simps get_update [OF Cons.prems])
qed

end

text \<open>The ordered association list provides the interface, for any key function.\<close>

interpretation om: keyed_map f "om_get f" "om_insert f" "om_remove f" "om_sorted f"
  for f :: "'k \<Rightarrow> 'o::linorder"
  by unfold_locales simp_all

end
