(* ===== verification/Price.thy ===== *)
theory Price
  imports Complex_Main Prelude Ordered_Map
begin

text \<open>
  Exact prices and quantities (\<open>ma-core/src/price.rs\<close>).

  The decimal type itself is the third-party crate \<open>rust_decimal\<close>, so it is a parameter:
  a type \<open>'d\<close> and a record \<open>'d decimal_ops\<close> of its operations. \<open>dval\<close> is the number a
  decimal denotes; the crate documents its comparison, equality, hashing and \<open>is_zero\<close> to
  go by that number, while its text form keeps the digits. \<open>Price\<close> and \<open>Qty\<close> are
  transparent wrappers, so both are \<open>'d\<close> here. The panics of the crate on results beyond
  96 bits are outside the model.
\<close>

section \<open>The decimal parameter\<close>

record 'd decimal_ops =
  dval :: "'d \<Rightarrow> rat"
  d_sign_negative :: "'d \<Rightarrow> bool"
  d_zero :: 'd
  d_two :: 'd
  d_of_nat :: "nat \<Rightarrow> 'd"
  d_add :: "'d \<Rightarrow> 'd \<Rightarrow> 'd"
  d_sub :: "'d \<Rightarrow> 'd \<Rightarrow> 'd"
  d_mul :: "'d \<Rightarrow> 'd \<Rightarrow> 'd"
  d_div :: "'d \<Rightarrow> 'd \<Rightarrow> 'd"
  d_round_dp :: "nat \<Rightarrow> 'd \<Rightarrow> 'd"
  d_to_string :: "'d \<Rightarrow> string"
  d_fixed :: "nat \<Rightarrow> 'd \<Rightarrow> string"
  d_from_str :: "string \<Rightarrow> 'd option"
  d_from_scientific :: "string \<Rightarrow> 'd option"

abbreviation d_eq :: "('d, 'z) decimal_ops_scheme \<Rightarrow> 'd \<Rightarrow> 'd \<Rightarrow> bool" where
  "d_eq D a b \<equiv> dval D a = dval D b"

abbreviation d_le :: "('d, 'z) decimal_ops_scheme \<Rightarrow> 'd \<Rightarrow> 'd \<Rightarrow> bool" where
  "d_le D a b \<equiv> dval D a \<le> dval D b"

abbreviation d_lt :: "('d, 'z) decimal_ops_scheme \<Rightarrow> 'd \<Rightarrow> 'd \<Rightarrow> bool" where
  "d_lt D a b \<equiv> dval D a < dval D b"

abbreviation d_is_zero :: "('d, 'z) decimal_ops_scheme \<Rightarrow> 'd \<Rightarrow> bool" where
  "d_is_zero D a \<equiv> dval D a = 0"

text \<open>\<open>Ord::max\<close> keeps its second argument among equals, \<open>Ord::min\<close> its first.\<close>

definition d_max :: "('d, 'z) decimal_ops_scheme \<Rightarrow> 'd \<Rightarrow> 'd \<Rightarrow> 'd" where
  "d_max D a b = (if d_lt D b a then a else b)"

definition d_min :: "('d, 'z) decimal_ops_scheme \<Rightarrow> 'd \<Rightarrow> 'd \<Rightarrow> 'd" where
  "d_min D a b = (if d_lt D b a then b else a)"

lemma dval_d_max [simp]: "dval D (d_max D a b) = max (dval D a) (dval D b)"
  by (simp add: d_max_def)

lemma dval_d_min [simp]: "dval D (d_min D a b) = min (dval D a) (dval D b)"
  by (simp add: d_min_def)

text \<open>Equality of optional decimals, as \<open>Option\<close>'s derived \<open>PartialEq\<close> reads it.\<close>

definition d_opt_eq :: "('d, 'z) decimal_ops_scheme \<Rightarrow> 'd option \<Rightarrow> 'd option \<Rightarrow> bool" where
  "d_opt_eq D a b \<longleftrightarrow> map_option (dval D) a = map_option (dval D) b"

text \<open>
  Documented behaviour of the crate that some properties rely on: the named constants, and
  sums, differences and products that are exact while they fit.
\<close>

definition d_constants :: "('d, 'z) decimal_ops_scheme \<Rightarrow> bool" where
  "d_constants D \<longleftrightarrow> dval D (d_zero D) = 0 \<and> dval D (d_two D) = 2
     \<and> (\<forall>n. dval D (d_of_nat D n) = of_nat n)"

definition d_exact_sums :: "('d, 'z) decimal_ops_scheme \<Rightarrow> bool" where
  "d_exact_sums D \<longleftrightarrow> (\<forall>a b. dval D (d_add D a b) = dval D a + dval D b
     \<and> dval D (d_sub D a b) = dval D a - dval D b)"

definition d_exact_halves :: "('d, 'z) decimal_ops_scheme \<Rightarrow> bool" where
  "d_exact_halves D \<longleftrightarrow> (\<forall>a. dval D (d_div D a (d_two D)) = dval D a / 2)"

definition d_exact_products :: "('d, 'z) decimal_ops_scheme \<Rightarrow> bool" where
  "d_exact_products D \<longleftrightarrow> (\<forall>a b. dval D (d_mul D a b) = dval D a * dval D b)"

text \<open>
  A concrete decimal, exact rationals, on which the witnesses evaluate. Its text form
  prints the integer part in decimal digits.
\<close>

fun show_nat :: "nat \<Rightarrow> string" where
  "show_nat n = (if n < 10 then [char_of (48 + n)] else show_nat (n div 10) @ [char_of (48 + n mod 10)])"

declare show_nat.simps [simp del]

definition rat_decimals :: "rat decimal_ops" where
  "rat_decimals = \<lparr> dval = (\<lambda>q. q), d_sign_negative = (\<lambda>q. q < 0), d_zero = 0, d_two = 2,
     d_of_nat = of_nat, d_add = (+), d_sub = (-), d_mul = (*), d_div = (/),
     d_round_dp = (\<lambda>n q. of_int (round (q * 10 ^ n)) / 10 ^ n),
     d_to_string = (\<lambda>q. show_nat (nat \<lfloor>q\<rfloor>)), d_fixed = (\<lambda>_ q. show_nat (nat \<lfloor>q\<rfloor>)),
     d_from_str = (\<lambda>s. if s = ''0'' then Some 0 else if s = ''-1'' then Some (-1) else None),
     d_from_scientific = (\<lambda>s. if s = ''1e2'' then Some 100 else None) \<rparr>"

lemma rat_decimals_simps [simp]:
  "dval rat_decimals q = q" "d_sign_negative rat_decimals q = (q < 0)"
  "d_zero rat_decimals = 0" "d_two rat_decimals = 2" "d_of_nat rat_decimals n = of_nat n"
  "d_add rat_decimals = (+)" "d_sub rat_decimals = (-)" "d_mul rat_decimals = (*)"
  "d_div rat_decimals = (/)" "d_to_string rat_decimals q = show_nat (nat \<lfloor>q\<rfloor>)"
  "d_round_dp rat_decimals n q = of_int (round (q * 10 ^ n)) / 10 ^ n"
  "d_from_str rat_decimals s = (if s = ''0'' then Some 0 else if s = ''-1'' then Some (-1) else None)"
  "d_from_scientific rat_decimals s = (if s = ''1e2'' then Some 100 else None)"
  by (simp_all add: rat_decimals_def)

lemma rat_decimals_laws [simp]:
  "d_constants rat_decimals" "d_exact_sums rat_decimals" "d_exact_halves rat_decimals"
  "d_exact_products rat_decimals"
  by (simp_all add: d_constants_def d_exact_sums_def d_exact_halves_def d_exact_products_def)

section \<open>Parsing\<close>

datatype 'd parse_error = NotDecimal string | NegativeQty 'd

definition price_to_fixed_string :: "('d, 'z) decimal_ops_scheme \<Rightarrow> 'd \<Rightarrow> nat \<Rightarrow> string" where
  "price_to_fixed_string D p scale = d_fixed D scale p"

text \<open>\<open>from_str\<close> first, \<open>from_scientific\<close> when that fails, and an error naming the text last.\<close>

definition decimal_from_wire :: "('d, 'z) decimal_ops_scheme \<Rightarrow> string \<Rightarrow> 'd option" where
  "decimal_from_wire D s =
     (case d_from_str D s of Some d \<Rightarrow> Some d | None \<Rightarrow> d_from_scientific D s)"

definition price_from_str :: "('d, 'z) decimal_ops_scheme \<Rightarrow> string \<Rightarrow> 'd parse_error + 'd" where
  "price_from_str D s =
     (case decimal_from_wire D s of Some d \<Rightarrow> Inr d | None \<Rightarrow> Inl (NotDecimal s))"

definition qty_from_decimal :: "('d, 'z) decimal_ops_scheme \<Rightarrow> 'd \<Rightarrow> 'd parse_error + 'd" where
  "qty_from_decimal D d =
     (if d_sign_negative D d \<and> \<not> d_is_zero D d then Inl (NegativeQty d) else Inr d)"

definition qty_is_delete :: "('d, 'z) decimal_ops_scheme \<Rightarrow> 'd \<Rightarrow> bool" where
  "qty_is_delete D q = d_is_zero D q"

definition qty_to_fixed_string :: "('d, 'z) decimal_ops_scheme \<Rightarrow> 'd \<Rightarrow> nat \<Rightarrow> string" where
  "qty_to_fixed_string D q scale = d_fixed D scale q"

definition qty_from_str :: "('d, 'z) decimal_ops_scheme \<Rightarrow> string \<Rightarrow> 'd parse_error + 'd" where
  "qty_from_str D s =
     (case decimal_from_wire D s of
        None \<Rightarrow> Inl (NotDecimal s)
      | Some d \<Rightarrow> qty_from_decimal D d)"

text \<open>The sign of a decimal agrees with its value, except that zero may carry either sign.\<close>

definition d_sign_law :: "('d, 'z) decimal_ops_scheme \<Rightarrow> bool" where
  "d_sign_law D \<longleftrightarrow> (\<forall>d. dval D d \<noteq> 0 \<longrightarrow> d_sign_negative D d = (dval D d < 0))"

lemma rat_decimals_sign [simp]: "d_sign_law rat_decimals"
  by (simp add: d_sign_law_def)

lemma qty_from_decimal_nonneg:
  "d_sign_law D \<Longrightarrow> qty_from_decimal D d = Inr q \<longleftrightarrow> q = d \<and> 0 \<le> dval D d"
  by (cases "dval D d = 0") (auto simp: qty_from_decimal_def d_sign_law_def not_less)

lemma qty_from_str_nonneg:
  "d_sign_law D \<Longrightarrow> qty_from_str D s = Inr q \<Longrightarrow> 0 \<le> dval D q \<and> decimal_from_wire D s = Some q"
  by (auto simp: qty_from_str_def qty_from_decimal_nonneg split: option.splits)

end
