(* ===== verification/Times.thy ===== *)
theory Times
  imports Complex_Main Prelude
begin

text \<open>
  The two clocks of \<open>ma-core/src/time.rs\<close>, in nanoseconds. A \<open>Duration\<close> and an \<open>Instant\<close>
  are natural numbers (an \<open>Instant\<close> counts from an arbitrary origin of the process), a
  \<open>SystemTime\<close> is an integer counted from the Unix epoch. The wall and the monotonic
  reading travel together and are never derived from one another.
\<close>

type_synonym duration = nat
type_synonym instant = nat
type_synonym system_time = int

definition nanos_per_sec :: nat where "nanos_per_sec = 1000000000"
definition from_secs :: "nat \<Rightarrow> duration" where "from_secs s = s * nanos_per_sec"
definition from_millis :: "nat \<Rightarrow> duration" where "from_millis n = n * 1000000"
definition from_micros :: "nat \<Rightarrow> duration" where "from_micros n = n * 1000"

text \<open>\<open>Duration::MAX\<close>, and the last readings of the platform's clocks (signed 64-bit seconds).\<close>

definition duration_max :: duration where
  "duration_max = u64_max * nanos_per_sec + 999999999"

definition instant_max :: instant where
  "instant_max = 9223372036854775807 * nanos_per_sec + 999999999"

definition system_time_max :: system_time where
  "system_time_max = 9223372036854775807 * 1000000000 + 999999999"

record ingest_time =
  mono_t :: instant
  wall_t :: system_time

text \<open>\<open>saturating_duration_since\<close>: subtraction on the naturals stops at zero.\<close>

definition since :: "ingest_time \<Rightarrow> ingest_time \<Rightarrow> duration" where
  "since later earlier = mono_t later - mono_t earlier"

definition instant_checked_add :: "instant \<Rightarrow> duration \<Rightarrow> instant option" where
  "instant_checked_add t d = (if t + d \<le> instant_max then Some (t + d) else None)"

definition system_time_checked_add :: "system_time \<Rightarrow> duration \<Rightarrow> system_time option" where
  "system_time_checked_add t d =
     (if t + int d \<le> system_time_max then Some (t + int d) else None)"

definition advanced_by :: "ingest_time \<Rightarrow> duration \<Rightarrow> ingest_time" where
  "advanced_by t d =
     \<lparr> mono_t = (case instant_checked_add (mono_t t) d of Some m \<Rightarrow> m | None \<Rightarrow> mono_t t),
       wall_t = (case system_time_checked_add (wall_t t) d of Some w \<Rightarrow> w | None \<Rightarrow> wall_t t) \<rparr>"

text \<open>\<open>u64::try_from(d.as_millis()).unwrap_or(u64::MAX)\<close> and its nanosecond twin.\<close>

definition millis_u64 :: "duration \<Rightarrow> nat" where
  "millis_u64 d = sat_u64 (d div 1000000)"

definition nanos_u64 :: "duration \<Rightarrow> nat" where
  "nanos_u64 d = sat_u64 d"

section \<open>Clocks\<close>

text \<open>
  \<open>TestClock\<close> keeps an atomic 64-bit offset, to which \<open>advance\<close> adds with wrap-around.
\<close>

record test_clock =
  tc_base :: ingest_time
  tc_offset :: u64

definition test_clock_new :: "ingest_time \<Rightarrow> test_clock" where
  "test_clock_new now = \<lparr> tc_base = now, tc_offset = 0 \<rparr>"

definition test_clock_advance :: "test_clock \<Rightarrow> duration \<Rightarrow> test_clock" where
  "test_clock_advance c d = c\<lparr> tc_offset := tc_offset c + of_nat (nanos_u64 d) \<rparr>"

definition test_clock_now :: "test_clock \<Rightarrow> ingest_time" where
  "test_clock_now c = advanced_by (tc_base c) (unat (tc_offset c))"

text \<open>
  \<open>ScaledClock\<close>: the elapsed real time is scaled by the float multiplication of the
  standard library, which is the argument \<open>scale\<close>; a speed that is not positive is
  replaced by one. The speed is an exact rational here.
\<close>

record scaled_clock =
  sc_base :: ingest_time
  sc_origin :: instant
  sc_speed :: rat

definition scaled_clock_new :: "ingest_time \<Rightarrow> instant \<Rightarrow> rat \<Rightarrow> scaled_clock" where
  "scaled_clock_new base origin speed =
     \<lparr> sc_base = base, sc_origin = origin, sc_speed = (if speed > 0 then speed else 1) \<rparr>"

definition scaled_clock_now ::
  "(duration \<Rightarrow> rat \<Rightarrow> duration) \<Rightarrow> scaled_clock \<Rightarrow> instant \<Rightarrow> ingest_time" where
  "scaled_clock_now scale c real_now =
     advanced_by (sc_base c) (scale (real_now - sc_origin c) (sc_speed c))"

section \<open>Facts\<close>

lemma since_self [simp]: "since t t = 0"
  by (simp add: since_def)

lemma since_triangle: "since c a \<le> since c b + since b a"
  by (simp add: since_def)

lemma advanced_by_mono: "mono_t t \<le> mono_t (advanced_by t d)"
  by (simp add: advanced_by_def instant_checked_add_def)

lemma since_advanced_by:
  "mono_t t + d \<le> instant_max \<Longrightarrow> since (advanced_by t d) t = d"
  by (simp add: since_def advanced_by_def instant_checked_add_def)

text \<open>Both clocks move together while neither saturates.\<close>

lemma advanced_by_together:
  assumes "mono_t t + d \<le> instant_max" and "wall_t t + int d \<le> system_time_max"
  shows "int (since (advanced_by t d) t) = wall_t (advanced_by t d) - wall_t t"
  using assms
  by (simp add: since_def advanced_by_def instant_checked_add_def system_time_checked_add_def)

lemma millis_u64_mono: "a \<le> b \<Longrightarrow> millis_u64 a \<le> millis_u64 b"
  unfolding millis_u64_def by (intro sat_u64_mono div_le_mono)

end
