(* ===== verification/Events.thy ===== *)
theory Events
  imports Price Times "HOL-Library.List_Lexorder" "HOL-Library.Char_ord"
begin

text \<open>
  Streams and normalised events (\<open>ma-core/src/event.rs\<close>, \<open>ma-core/src/stream.rs\<close>). Symbols
  are byte strings under the byte order of Rust's \<open>str\<close>; venues and streams carry the
  derived order, as instances of the library's \<open>linorder\<close>.
\<close>

section \<open>Venues, symbols, streams\<close>

datatype venue_id = Coinbase | Kraken | Bitstamp | Fake

fun venue_rank :: "venue_id \<Rightarrow> nat" where
  "venue_rank Coinbase = 0"
| "venue_rank Kraken = 1"
| "venue_rank Bitstamp = 2"
| "venue_rank Fake = 3"

lemma venue_rank_inj [simp]: "venue_rank a = venue_rank b \<longleftrightarrow> a = b"
  by (cases a; cases b) auto

instantiation venue_id :: linorder
begin

definition less_eq_venue_id :: "venue_id \<Rightarrow> venue_id \<Rightarrow> bool" where
  "less_eq_venue_id a b \<longleftrightarrow> venue_rank a \<le> venue_rank b"

definition less_venue_id :: "venue_id \<Rightarrow> venue_id \<Rightarrow> bool" where
  "less_venue_id a b \<longleftrightarrow> venue_rank a < venue_rank b"

instance
  by standard (auto simp: less_eq_venue_id_def less_venue_id_def intro: antisym)

end

fun venue_as_str :: "venue_id \<Rightarrow> string" where
  "venue_as_str Coinbase = ''coinbase''"
| "venue_as_str Kraken = ''kraken''"
| "venue_as_str Bitstamp = ''bitstamp''"
| "venue_as_str Fake = ''fake''"

type_synonym symbol = string

datatype stream_id = StreamId (sid_venue: venue_id) (sid_symbol: symbol)

instantiation stream_id :: linorder
begin

definition less_eq_stream_id :: "stream_id \<Rightarrow> stream_id \<Rightarrow> bool" where
  "less_eq_stream_id a b \<longleftrightarrow> sid_venue a < sid_venue b
     \<or> sid_venue a = sid_venue b \<and> sid_symbol a \<le> sid_symbol b"

definition less_stream_id :: "stream_id \<Rightarrow> stream_id \<Rightarrow> bool" where
  "less_stream_id a b \<longleftrightarrow> sid_venue a < sid_venue b
     \<or> sid_venue a = sid_venue b \<and> sid_symbol a < sid_symbol b"

instance
  by standard (auto simp: less_eq_stream_id_def less_stream_id_def stream_id.expand)

end

text \<open>\<open>StreamId::key\<close>: the venue's name, a colon, the symbol.\<close>

definition stream_key :: "stream_id \<Rightarrow> string" where
  "stream_key s = venue_as_str (sid_venue s) @ '':'' @ sid_symbol s"

lemma venue_as_str_no_colon: "CHR '':'' \<notin> set (venue_as_str v)"
  by (cases v) auto

lemma venue_as_str_inj [simp]: "venue_as_str a = venue_as_str b \<longleftrightarrow> a = b"
  by (cases a; cases b) auto

lemma append_sep_inj:
  assumes "c \<notin> set xs" and "c \<notin> set us" and "xs @ c # ys = us @ c # vs"
  shows "xs = us \<and> ys = vs"
  using assms
proof (induction xs arbitrary: us)
  case Nil
  then show ?case by (cases us) auto
next
  case (Cons x xs)
  then show ?case by (cases us) auto
qed

text \<open>The key names the stream: venue names hold no colon, whatever the symbol holds.\<close>

lemma stream_key_inj: "stream_key a = stream_key b \<longleftrightarrow> a = b"
proof
  assume "stream_key a = stream_key b"
  then have "venue_as_str (sid_venue a) @ CHR '':'' # sid_symbol a
      = venue_as_str (sid_venue b) @ CHR '':'' # sid_symbol b"
    by (simp only: stream_key_def append.simps)
  from append_sep_inj [OF venue_as_str_no_colon venue_as_str_no_colon this]
  show "a = b" by (cases a, cases b) simp
qed simp

section \<open>Levels and events\<close>

datatype side = Bid | Ask

record 'd level =
  lv_price :: 'd
  lv_qty :: 'd

text \<open>Derived equality of levels goes by the numbers.\<close>

definition level_eq :: "('d, 'z) decimal_ops_scheme \<Rightarrow> 'd level \<Rightarrow> 'd level \<Rightarrow> bool" where
  "level_eq D a b \<longleftrightarrow> d_eq D (lv_price a) (lv_price b) \<and> d_eq D (lv_qty a) (lv_qty b)"

abbreviation level_of :: "'d \<Rightarrow> 'd \<Rightarrow> 'd level" where
  "level_of p q \<equiv> \<lparr> lv_price = p, lv_qty = q \<rparr>"

datatype 'd event_kind =
    Snapshot "'d level list" "'d level list"
  | Delta "'d level list" "'d level list"
  | Trade (tr_price: 'd) (tr_qty: 'd) (tr_taker_side: "side option")
  | Checksum u32
  | Heartbeat "u64 option"

record 'd market_event =
  ev_venue :: venue_id
  ev_symbol :: symbol
  ev_venue_ts :: "system_time option"
  ev_ingest_ts :: ingest_time
  ev_kind :: "'d event_kind"

datatype skew_observation = VenueAhead duration | VenueBehind duration

text \<open>\<open>SystemTime::duration_since\<close>: the distance, with the direction as the error.\<close>

definition system_time_since :: "system_time \<Rightarrow> system_time \<Rightarrow> duration + duration" where
  "system_time_since a b = (if b \<le> a then Inr (nat (a - b)) else Inl (nat (b - a)))"

definition clock_skew :: "'d market_event \<Rightarrow> skew_observation option" where
  "clock_skew ev =
     (case ev_venue_ts ev of
        None \<Rightarrow> None
      | Some venue_ts \<Rightarrow>
          Some (case system_time_since venue_ts (wall_t (ev_ingest_ts ev)) of
                  Inr ahead \<Rightarrow> VenueAhead ahead
                | Inl e \<Rightarrow> VenueBehind e))"

fun skew_signed :: "skew_observation \<Rightarrow> int" where
  "skew_signed (VenueAhead d) = int d"
| "skew_signed (VenueBehind d) = - int d"

lemma clock_skew_signed:
  "map_option skew_signed (clock_skew ev) =
   map_option (\<lambda>v. v - wall_t (ev_ingest_ts ev)) (ev_venue_ts ev)"
  by (auto simp: clock_skew_def system_time_since_def split: option.splits)

end
