(* ===== verification/Book.thy ===== *)
theory Book
  imports Events Ordered_Map
begin

text \<open>
  The order book and its trust level (\<open>ma-core/src/book.rs\<close>). Both sides are ordered maps
  keyed by the value of the price; the state says whether the contents may be believed.
  The first sections are the data and the operations in the order of the source, then come
  the invariant \<open>book_wf\<close>, the abstract contents of a side as a finite map from prices to
  quantities, and the refinement of every operation to an update of those contents.
\<close>

section \<open>Trust\<close>

datatype integrity = OrderOnly | GapDetectable | Verified

fun integrity_rank :: "integrity \<Rightarrow> nat" where
  "integrity_rank OrderOnly = 0"
| "integrity_rank GapDetectable = 1"
| "integrity_rank Verified = 2"

lemma integrity_rank_inj [simp]: "integrity_rank a = integrity_rank b \<longleftrightarrow> a = b"
  by (cases a; cases b) auto

instantiation integrity :: linorder
begin

definition less_eq_integrity :: "integrity \<Rightarrow> integrity \<Rightarrow> bool" where
  "less_eq_integrity a b \<longleftrightarrow> integrity_rank a \<le> integrity_rank b"

definition less_integrity :: "integrity \<Rightarrow> integrity \<Rightarrow> bool" where
  "less_integrity a b \<longleftrightarrow> integrity_rank a < integrity_rank b"

instance
  by standard (auto simp: less_eq_integrity_def less_integrity_def intro: antisym)

end

fun detects_loss :: "integrity \<Rightarrow> bool" where
  "detects_loss OrderOnly = False"
| "detects_loss _ = True"

datatype 'd desync_reason =
    SequenceGap u64 u64
  | ChecksumMismatch u32 u32
  | TimestampRegression u64 u64
  | CrossedBook 'd 'd
  | ConnectionLost
  | AwaitingSnapshot
  | AuditMismatch 'd nat
  | SnapshotGap

fun needs_fresh_stream :: "'d desync_reason \<Rightarrow> bool" where
  "needs_fresh_stream AwaitingSnapshot = False"
| "needs_fresh_stream ConnectionLost = False"
| "needs_fresh_stream _ = True"

text \<open>The derived equality of reasons, in which prices are equal as numbers.\<close>

fun reason_eq ::
  "('d, 'z) decimal_ops_scheme \<Rightarrow> 'd desync_reason \<Rightarrow> 'd desync_reason \<Rightarrow> bool" where
  "reason_eq D (SequenceGap a b) q = (q = SequenceGap a b)"
| "reason_eq D (ChecksumMismatch a b) q = (q = ChecksumMismatch a b)"
| "reason_eq D (TimestampRegression a b) q = (q = TimestampRegression a b)"
| "reason_eq D (CrossedBook a b) q = (case q of CrossedBook c d \<Rightarrow> d_eq D a c \<and> d_eq D b d | _ \<Rightarrow> False)"
| "reason_eq D ConnectionLost q = (q = ConnectionLost)"
| "reason_eq D AwaitingSnapshot q = (q = AwaitingSnapshot)"
| "reason_eq D (AuditMismatch a n) q = (case q of AuditMismatch c m \<Rightarrow> d_eq D a c \<and> n = m | _ \<Rightarrow> False)"
| "reason_eq D SnapshotGap q = (q = SnapshotGap)"

datatype 'd book_state =
    Uninitialized
  | Live integrity (live_since: ingest_time) (last_verified: "ingest_time option")
  | Desynced (desync_since: ingest_time) (desync_why: "'d desync_reason")

fun state_integrity :: "'d book_state \<Rightarrow> integrity option" where
  "state_integrity (Live i _ _) = Some i"
| "state_integrity _ = None"

fun is_live :: "'d book_state \<Rightarrow> bool" where
  "is_live (Live _ _ _) = True"
| "is_live _ = False"

fun same_status ::
  "('d, 'z) decimal_ops_scheme \<Rightarrow> 'd book_state \<Rightarrow> 'd book_state \<Rightarrow> bool" where
  "same_status D Uninitialized Uninitialized = True"
| "same_status D (Live a since_a _) (Live b since_b _) = (a = b \<and> since_a = since_b)"
| "same_status D (Desynced since_a reason_a) (Desynced since_b reason_b) =
     (since_a = since_b \<and> reason_eq D reason_a reason_b)"
| "same_status D _ _ = False"

text \<open>The derived, exact equality of states.\<close>

fun state_eq ::
  "('d, 'z) decimal_ops_scheme \<Rightarrow> 'd book_state \<Rightarrow> 'd book_state \<Rightarrow> bool" where
  "state_eq D Uninitialized Uninitialized = True"
| "state_eq D (Live a sa va) (Live b sb vb) = (a = b \<and> sa = sb \<and> va = vb)"
| "state_eq D (Desynced sa ra) (Desynced sb rb) = (sa = sb \<and> reason_eq D ra rb)"
| "state_eq D _ _ = False"

datatype book_state_kind = KUninitialized | KLive | KDesynced

datatype book_error = NotLive book_state_kind

lemma reason_eq_refl [simp]: "reason_eq D r r"
  by (cases r) auto

lemma reason_eq_sym: "reason_eq D r q \<Longrightarrow> reason_eq D q r"
  by (cases r) (auto split: desync_reason.splits)

lemma reason_eq_trans: "reason_eq D p q \<Longrightarrow> reason_eq D q r \<Longrightarrow> reason_eq D p r"
  by (cases p) (auto split: desync_reason.splits)

section \<open>The book and its operations\<close>

type_synonym 'd book_side = "('d \<times> 'd) list"

record 'd book =
  bk_venue :: venue_id
  bk_symbol :: symbol
  bk_bids :: "'d book_side"
  bk_asks :: "'d book_side"
  bk_state :: "'d book_state"
  bk_last_update :: "ingest_time option"
  bk_max_depth :: "nat option"

record 'd top_of_book_view =
  top_bid :: "'d level option"
  top_ask :: "'d level option"
  top_state :: "'d book_state"
  top_age :: "duration option"

definition top_spread :: "('d, 'z) decimal_ops_scheme \<Rightarrow> 'd top_of_book_view \<Rightarrow> 'd option" where
  "top_spread D t = Option.bind (top_bid t) (\<lambda>bid. Option.bind (top_ask t) (\<lambda>ask.
     Some (d_sub D (lv_price ask) (lv_price bid))))"

definition top_mid :: "('d, 'z) decimal_ops_scheme \<Rightarrow> 'd top_of_book_view \<Rightarrow> 'd option" where
  "top_mid D t = Option.bind (top_bid t) (\<lambda>bid. Option.bind (top_ask t) (\<lambda>ask.
     Some (d_div D (d_add D (lv_price ask) (lv_price bid)) (d_two D))))"

definition new_book :: "venue_id \<Rightarrow> symbol \<Rightarrow> 'd book" where
  "new_book venue symbol = \<lparr> bk_venue = venue, bk_symbol = symbol, bk_bids = [], bk_asks = [],
     bk_state = Uninitialized, bk_last_update = None, bk_max_depth = None \<rparr>"

definition with_max_depth :: "'d book \<Rightarrow> nat \<Rightarrow> 'd book" where
  "with_max_depth b depth = b\<lparr> bk_max_depth := Some depth \<rparr>"

definition book_depth :: "'d book \<Rightarrow> nat \<times> nat" where
  "book_depth b = (length (bk_bids b), length (bk_asks b))"

text \<open>The insertion loop of \<open>apply_snapshot\<close>: levels of no quantity are skipped.\<close>

definition fill_side ::
  "('d, 'z) decimal_ops_scheme \<Rightarrow> 'd book_side \<Rightarrow> 'd level list \<Rightarrow> 'd book_side" where
  "fill_side D m levels = foldl (\<lambda>m l.
     if \<not> qty_is_delete D (lv_qty l) then om_insert (dval D) (lv_price l) (lv_qty l) m else m) m levels"

definition apply_levels ::
  "('d, 'z) decimal_ops_scheme \<Rightarrow> 'd book_side \<Rightarrow> 'd level list \<Rightarrow> 'd book_side" where
  "apply_levels D m updates = foldl (\<lambda>m l.
     if qty_is_delete D (lv_qty l) then om_remove (dval D) (dval D (lv_price l)) m
     else om_insert (dval D) (lv_price l) (lv_qty l) m) m updates"

text \<open>The two loops of \<open>prune\<close>: the worst bid is the first entry, the worst ask the last.\<close>

fun prune_bids ::
  "('d, 'z) decimal_ops_scheme \<Rightarrow> nat \<Rightarrow> 'd book_side \<Rightarrow> 'd book_side" where
  "prune_bids D cap [] = []"
| "prune_bids D cap ((worst, q) # m) =
     (if cap < length ((worst, q) # m)
      then prune_bids D cap (om_remove (dval D) (dval D worst) ((worst, q) # m))
      else (worst, q) # m)"

function prune_asks ::
  "('d, 'z) decimal_ops_scheme \<Rightarrow> nat \<Rightarrow> 'd book_side \<Rightarrow> 'd book_side" where
  "prune_asks D cap m =
     (if cap < length m
      then (if m = [] then m
            else prune_asks D cap (om_remove (dval D) (dval D (fst (last m))) m))
      else m)"
  by pat_completeness auto
termination
proof (relation "measure (\<lambda>(D, cap, m). length m)")
  fix D :: "('d, 'z) decimal_ops_scheme" and cap and m :: "'d book_side"
  assume "m \<noteq> []"
  then have "dval D (fst (last m)) \<in> om_keys (dval D) m" by simp
  then have "Suc (length (om_remove (dval D) (dval D (fst (last m))) m)) = length m"
    by (rule length_om_remove)
  then show "((D, cap, om_remove (dval D) (dval D (fst (last m))) m), D, cap, m)
      \<in> measure (\<lambda>(D, cap, m). length m)"
    by simp
qed simp

declare prune_asks.simps [simp del]

definition prune :: "('d, 'z) decimal_ops_scheme \<Rightarrow> 'd book \<Rightarrow> 'd book" where
  "prune D b =
     (case bk_max_depth b of
        None \<Rightarrow> b
      | Some cap \<Rightarrow> b\<lparr> bk_bids := prune_bids D cap (bk_bids b),
                       bk_asks := prune_asks D cap (bk_asks b) \<rparr>)"

fun best :: "'d book \<Rightarrow> side \<Rightarrow> 'd level option" where
  "best b Bid = (if bk_bids b = [] then None
     else Some (level_of (fst (last (bk_bids b))) (snd (last (bk_bids b)))))"
| "best b Ask = (if bk_asks b = [] then None
     else Some (level_of (fst (hd (bk_asks b))) (snd (hd (bk_asks b)))))"

fun side_best_first :: "'d book \<Rightarrow> side \<Rightarrow> 'd book_side" where
  "side_best_first b Bid = rev (bk_bids b)"
| "side_best_first b Ask = bk_asks b"

definition top_levels :: "'d book \<Rightarrow> side \<Rightarrow> nat \<Rightarrow> 'd level list" where
  "top_levels b s n = map (\<lambda>(p, q). level_of p q) (take n (side_best_first b s))"

definition mark_desynced :: "'d book \<Rightarrow> 'd desync_reason \<Rightarrow> ingest_time \<Rightarrow> 'd book" where
  "mark_desynced b reason now = b\<lparr> bk_state := Desynced now reason \<rparr>"

definition guard_crossed ::
  "('d, 'z) decimal_ops_scheme \<Rightarrow> 'd book \<Rightarrow> ingest_time \<Rightarrow> ('d desync_reason + unit) \<times> 'd book" where
  "guard_crossed D b now =
     (case (best b Bid, best b Ask) of
        (Some bid, Some ask) \<Rightarrow>
          (if d_le D (lv_price ask) (lv_price bid)
           then let reason = CrossedBook (lv_price bid) (lv_price ask)
                in (Inl reason, mark_desynced b reason now)
           else (Inr (), b))
      | _ \<Rightarrow> (Inr (), b))"

definition apply_snapshot ::
  "('d, 'z) decimal_ops_scheme \<Rightarrow> 'd book \<Rightarrow> 'd level list \<Rightarrow> 'd level list \<Rightarrow> integrity
     \<Rightarrow> ingest_time \<Rightarrow> ('d desync_reason + unit) \<times> 'd book" where
  "apply_snapshot D b bids asks integ now =
     guard_crossed D
       (prune D (b\<lparr> bk_bids := fill_side D [] bids, bk_asks := fill_side D [] asks,
                    bk_state := Live integ now None, bk_last_update := Some now \<rparr>)) now"

fun state_kind :: "'d book_state \<Rightarrow> book_state_kind" where
  "state_kind Uninitialized = KUninitialized"
| "state_kind (Live _ _ _) = KLive"
| "state_kind (Desynced _ _) = KDesynced"

definition apply_delta ::
  "('d, 'z) decimal_ops_scheme \<Rightarrow> 'd book \<Rightarrow> 'd level list \<Rightarrow> 'd level list
     \<Rightarrow> ingest_time \<Rightarrow> (book_error + unit) \<times> 'd book" where
  "apply_delta D b bids asks now =
     (if \<not> is_live (bk_state b) then (Inl (NotLive (state_kind (bk_state b))), b)
      else (Inr (), snd (guard_crossed D
        (prune D (b\<lparr> bk_bids := apply_levels D (bk_bids b) bids,
                     bk_asks := apply_levels D (bk_asks b) asks,
                     bk_last_update := Some now \<rparr>)) now)))"

definition mark_verified :: "'d book \<Rightarrow> ingest_time \<Rightarrow> 'd book" where
  "mark_verified b now =
     (case bk_state b of
        Live Verified since_t _ \<Rightarrow> b\<lparr> bk_state := Live Verified since_t (Some now) \<rparr>
      | _ \<Rightarrow> b)"

definition top_of_book :: "'d book \<Rightarrow> ingest_time \<Rightarrow> 'd top_of_book_view" where
  "top_of_book b now = \<lparr> top_bid = best b Bid, top_ask = best b Ask, top_state = bk_state b,
     top_age = map_option (\<lambda>last. since now last) (bk_last_update b) \<rparr>"

section \<open>Pruning\<close>

text \<open>The loops drop exactly the excess, from the worst end.\<close>

lemma prune_bids_eq: "prune_bids D n m = drop (length m - n) m"
proof (induction D n m rule: prune_bids.induct)
  case (1 D n)
  then show ?case by simp
next
  case (2 D n worst q m)
  then show ?case by (auto simp: Suc_diff_le)
qed

lemma prune_asks_eq: "om_sorted (dval D) m \<Longrightarrow> prune_asks D n m = take n m"
proof (induction D n m rule: prune_asks.induct)
  case (1 D n m)
  show ?case
  proof (cases "n < length m")
    case True
    then have ne: "m \<noteq> []" by auto
    have rem: "om_remove (dval D) (dval D (fst (last m))) m = butlast m"
      using "1.prems" ne by (rule om_remove_last)
    have "om_sorted (dval D) (butlast m)"
      using "1.prems" by (rule om_sorted_butlast)
    then have "prune_asks D n (butlast m) = take n (butlast m)"
      using "1.IH" [OF True ne] by (simp add: rem)
    with True ne show ?thesis
      by (simp add: prune_asks.simps [of D n m] rem take_butlast)
  qed (simp add: prune_asks.simps [of D n m])
qed

lemma om_sorted_take [simp, wf_intros]: "om_sorted f m \<Longrightarrow> om_sorted f (take n m)"
  by (simp add: om_sorted_def take_map [symmetric] sorted_wrt_take)

lemma om_sorted_drop [simp, wf_intros]: "om_sorted f m \<Longrightarrow> om_sorted f (drop n m)"
  by (simp add: om_sorted_def drop_map [symmetric] sorted_wrt_drop)

section \<open>Updates of a side\<close>

text \<open>The contents of a side: what quantity it holds at each price.\<close>

abbreviation contents :: "('d, 'z) decimal_ops_scheme \<Rightarrow> 'd book_side \<Rightarrow> rat \<Rightarrow> 'd option" where
  "contents D m \<equiv> \<lambda>x. om_get (dval D) x m"

text \<open>What a batch of levels asks for: the last level at a price decides it, a zero deletes.\<close>

definition level_updates ::
  "('d, 'z) decimal_ops_scheme \<Rightarrow> (rat \<Rightarrow> 'd option) \<Rightarrow> 'd level list \<Rightarrow> rat \<Rightarrow> 'd option" where
  "level_updates D g ls = foldl (\<lambda>g l. g(dval D (lv_price l) :=
     (if qty_is_delete D (lv_qty l) then None else Some (lv_qty l)))) g ls"

definition side_ok :: "('d, 'z) decimal_ops_scheme \<Rightarrow> 'd book_side \<Rightarrow> bool" where
  "side_ok D m \<longleftrightarrow> om_sorted (dval D) m \<and> (\<forall>(p, q) \<in> set m. \<not> qty_is_delete D q)"

lemma side_ok_Nil [simp]: "side_ok D []"
  by (simp add: side_ok_def)

lemma side_ok_insert [wf_intros]:
  assumes "side_ok D m" and "\<not> qty_is_delete D q"
  shows "side_ok D (om_insert (dval D) p q m)"
  using assms set_om_insert [of "dval D" p q m] unfolding side_ok_def by fastforce

lemma side_ok_remove [wf_intros]: "side_ok D m \<Longrightarrow> side_ok D (om_remove (dval D) x m)"
  using set_om_remove [of "dval D" x m] unfolding side_ok_def by auto

lemma side_ok_take [wf_intros]: "side_ok D m \<Longrightarrow> side_ok D (take n m)"
  unfolding side_ok_def by (auto dest: in_set_takeD)

lemma side_ok_drop [wf_intros]: "side_ok D m \<Longrightarrow> side_ok D (drop n m)"
  unfolding side_ok_def by (auto dest: in_set_dropD)

lemma side_ok_prune [wf_intros]:
  assumes "side_ok D m"
  shows "side_ok D (prune_bids D n m)" and "side_ok D (prune_asks D n m)"
proof -
  from assms show "side_ok D (prune_bids D n m)"
    by (simp add: prune_bids_eq side_ok_drop)
  from assms have "prune_asks D n m = take n m"
    by (intro prune_asks_eq) (simp add: side_ok_def)
  with assms show "side_ok D (prune_asks D n m)"
    by (simp add: side_ok_take)
qed

lemma side_ok_apply_levels [wf_intros]: "side_ok D m \<Longrightarrow> side_ok D (apply_levels D m ls)"
  unfolding apply_levels_def
  by (rule foldl_invariant [where P = "side_ok D"]) (auto intro: wf_intros)

lemma side_ok_fill_side [wf_intros]: "side_ok D m \<Longrightarrow> side_ok D (fill_side D m ls)"
  unfolding fill_side_def
  by (rule foldl_invariant [where P = "side_ok D"]) (auto intro: wf_intros)

text \<open>A batch of updates refines the update of the contents, through the map interface.\<close>

lemma contents_apply_levels:
  assumes "side_ok D m"
  shows "contents D (apply_levels D m ls) = level_updates D (contents D m) ls"
  using om.get_updates [of "dval D" m "\<lambda>l. qty_is_delete D (lv_qty l)" lv_price lv_qty ls] assms
  by (simp add: apply_levels_def level_updates_def side_ok_def)

lemma contents_fill_side:
  "contents D (fill_side D m ls) = level_updates D (contents D m)
     (filter (\<lambda>l. \<not> qty_is_delete D (lv_qty l)) ls)"
proof (induction ls arbitrary: m)
  case Nil
  then show ?case by (simp add: fill_side_def level_updates_def)
next
  case (Cons l ls)
  have ins: "contents D (om_insert (dval D) (lv_price l) (lv_qty l) m) =
      (contents D m)(dval D (lv_price l) := Some (lv_qty l))"
    by (auto simp: fun_eq_iff)
  show ?case
    using Cons.IH [of m] Cons.IH [of "om_insert (dval D) (lv_price l) (lv_qty l) m"]
    by (cases "qty_is_delete D (lv_qty l)") (simp_all only: fill_side_def level_updates_def
      foldl.simps filter.simps if_True if_False not_False_eq_True not_True_eq_False ins)
qed

lemma level_updates_append:
  "level_updates D g (xs @ ys) = level_updates D (level_updates D g xs) ys"
  by (simp add: level_updates_def)

section \<open>Best levels\<close>

definition sides_ok :: "('d, 'z) decimal_ops_scheme \<Rightarrow> 'd book \<Rightarrow> bool" where
  "sides_ok D b \<longleftrightarrow> side_ok D (bk_bids b) \<and> side_ok D (bk_asks b)"

definition uncrossed :: "('d, 'z) decimal_ops_scheme \<Rightarrow> 'd book \<Rightarrow> bool" where
  "uncrossed D b \<longleftrightarrow>
     (\<forall>(p, _) \<in> set (bk_bids b). \<forall>(q, _) \<in> set (bk_asks b). d_lt D p q)"

lemma best_bid_greatest:
  assumes "side_ok D (bk_bids b)" and "best b Bid = Some l" and "(p, q) \<in> set (bk_bids b)"
  shows "d_le D p (lv_price l)"
  using assms om_last_greatest [of "dval D" "bk_bids b" "(p, q)"]
  by (auto simp: side_ok_def split: if_splits)

lemma best_ask_least:
  assumes "side_ok D (bk_asks b)" and "best b Ask = Some l" and "(p, q) \<in> set (bk_asks b)"
  shows "d_le D (lv_price l) p"
  using assms om_first_least [of "dval D" "hd (bk_asks b)" "tl (bk_asks b)" "(p, q)"]
  by (cases "bk_asks b") (auto simp: side_ok_def)

lemma best_mem:
  "best b Bid = Some l \<Longrightarrow> (lv_price l, lv_qty l) \<in> set (bk_bids b)"
  "best b Ask = Some l \<Longrightarrow> (lv_price l, lv_qty l) \<in> set (bk_asks b)"
  by (auto split: if_splits)

lemma best_None:
  "best b Bid = None \<longleftrightarrow> bk_bids b = []"
  "best b Ask = None \<longleftrightarrow> bk_asks b = []"
  by auto

declare best.simps [simp del]

lemma best_mark_desynced [simp]: "best (mark_desynced b r t) s = best b s"
  by (cases s) (simp_all add: mark_desynced_def best.simps)

lemma mark_desynced_fields [simp]:
  "bk_venue (mark_desynced b r t) = bk_venue b" "bk_symbol (mark_desynced b r t) = bk_symbol b"
  "bk_bids (mark_desynced b r t) = bk_bids b" "bk_asks (mark_desynced b r t) = bk_asks b"
  "bk_state (mark_desynced b r t) = Desynced t r"
  "bk_last_update (mark_desynced b r t) = bk_last_update b"
  "bk_max_depth (mark_desynced b r t) = bk_max_depth b"
  by (simp_all add: mark_desynced_def)

lemma uncrossed_mark_desynced [simp]: "uncrossed D (mark_desynced b r t) = uncrossed D b"
  by (simp add: mark_desynced_def uncrossed_def)

text \<open>Comparing the two best levels decides whether any bid meets any ask.\<close>

lemma uncrossed_by_best:
  assumes "sides_ok D b"
  shows "uncrossed D b \<longleftrightarrow>
    (\<forall>bid ask. best b Bid = Some bid \<longrightarrow> best b Ask = Some ask \<longrightarrow> d_lt D (lv_price bid) (lv_price ask))"
proof
  assume "uncrossed D b"
  then show "\<forall>bid ask. best b Bid = Some bid \<longrightarrow> best b Ask = Some ask
      \<longrightarrow> d_lt D (lv_price bid) (lv_price ask)"
    using best_mem [of b] unfolding uncrossed_def by fast
next
  assume R: "\<forall>bid ask. best b Bid = Some bid \<longrightarrow> best b Ask = Some ask
      \<longrightarrow> d_lt D (lv_price bid) (lv_price ask)"
  have "d_lt D p q" if pq: "(p, x) \<in> set (bk_bids b)" "(q, y) \<in> set (bk_asks b)" for p x q y
  proof -
    from pq obtain bid ask where b: "best b Bid = Some bid" and a: "best b Ask = Some ask"
      by (metis best_None empty_iff list.set(1) not_None_eq)
    have "d_le D p (lv_price bid)"
      using assms b pq(1) by (auto simp only: sides_ok_def intro: best_bid_greatest)
    moreover have "d_lt D (lv_price bid) (lv_price ask)"
      using R a b by blast
    moreover have "d_le D (lv_price ask) q"
      using assms a pq(2) by (auto simp only: sides_ok_def intro: best_ask_least)
    ultimately show ?thesis by linarith
  qed
  then show "uncrossed D b" unfolding uncrossed_def by blast
qed

lemma guard_crossed_cases:
  assumes "sides_ok D b"
  obtains (ok) "uncrossed D b" and "guard_crossed D b now = (Inr (), b)"
  | (crossed) bid ask where "\<not> uncrossed D b" and "best b Bid = Some bid" and "best b Ask = Some ask"
      and "d_le D (lv_price ask) (lv_price bid)"
      and "guard_crossed D b now = (Inl (CrossedBook (lv_price bid) (lv_price ask)),
             mark_desynced b (CrossedBook (lv_price bid) (lv_price ask)) now)"
proof (cases "best b Bid")
  case None
  then have "uncrossed D b" by (simp add: uncrossed_def best_None)
  with None show ?thesis by (intro ok) (simp_all add: guard_crossed_def)
next
  case (Some bid)
  note bid = this
  show ?thesis
  proof (cases "best b Ask")
    case None
    then have "uncrossed D b" by (simp add: uncrossed_def best_None)
    with None Some show ?thesis by (intro ok) (simp_all add: guard_crossed_def)
  next
    case (Some ask)
    show ?thesis
    proof (cases "d_le D (lv_price ask) (lv_price bid)")
      case True
      then have "\<not> uncrossed D b"
        using uncrossed_by_best [OF assms] bid Some by auto
      with True bid Some show ?thesis
        by (intro crossed) (simp_all add: guard_crossed_def Let_def)
    next
      case False
      then have "uncrossed D b"
        using uncrossed_by_best [OF assms] bid Some by auto
      with False bid Some show ?thesis
        by (intro ok) (simp_all add: guard_crossed_def)
    qed
  qed
qed

section \<open>Well-formed books\<close>

fun verified_honest :: "'d book_state \<Rightarrow> bool" where
  "verified_honest (Live i _ v) = (v = None \<or> i = Verified)"
| "verified_honest _ = True"

definition book_wf :: "('d, 'z) decimal_ops_scheme \<Rightarrow> 'd book \<Rightarrow> bool" where
  "book_wf D b \<longleftrightarrow> sides_ok D b \<and> (is_live (bk_state b) \<longrightarrow> uncrossed D b)
     \<and> verified_honest (bk_state b)"

definition within_depth :: "'d book \<Rightarrow> bool" where
  "within_depth b \<longleftrightarrow> (case bk_max_depth b of None \<Rightarrow> True
     | Some n \<Rightarrow> length (bk_bids b) \<le> n \<and> length (bk_asks b) \<le> n)"

lemma book_wf_new [simp, wf_intros]: "book_wf D (new_book v s)"
  by (simp add: book_wf_def new_book_def sides_ok_def)

lemma book_wf_with_max_depth [simp, wf_intros]: "book_wf D b \<Longrightarrow> book_wf D (with_max_depth b n)"
  by (simp add: book_wf_def with_max_depth_def sides_ok_def uncrossed_def)

lemma book_wf_mark_desynced [simp, wf_intros]: "book_wf D b \<Longrightarrow> book_wf D (mark_desynced b r t)"
  by (simp add: book_wf_def mark_desynced_def sides_ok_def)

lemma book_wf_mark_verified [simp, wf_intros]: "book_wf D b \<Longrightarrow> book_wf D (mark_verified b t)"
  by (auto simp: book_wf_def mark_verified_def sides_ok_def uncrossed_def
      split: book_state.splits integrity.splits)

lemma sides_ok_prune: "sides_ok D b \<Longrightarrow> sides_ok D (prune D b)"
  by (auto simp: sides_ok_def prune_def side_ok_prune split: option.splits)

lemma prune_fields [simp]:
  "bk_venue (prune D b) = bk_venue b" "bk_symbol (prune D b) = bk_symbol b"
  "bk_state (prune D b) = bk_state b" "bk_last_update (prune D b) = bk_last_update b"
  "bk_max_depth (prune D b) = bk_max_depth b"
  by (simp_all add: prune_def split: option.splits)

lemma guard_crossed_fields [simp]:
  "bk_venue (snd (guard_crossed D b now)) = bk_venue b"
  "bk_symbol (snd (guard_crossed D b now)) = bk_symbol b"
  "bk_bids (snd (guard_crossed D b now)) = bk_bids b"
  "bk_asks (snd (guard_crossed D b now)) = bk_asks b"
  "bk_last_update (snd (guard_crossed D b now)) = bk_last_update b"
  "bk_max_depth (snd (guard_crossed D b now)) = bk_max_depth b"
  by (simp_all add: guard_crossed_def mark_desynced_def Let_def split: option.splits)

lemma book_wf_guard_crossed [wf_intros]:
  assumes "sides_ok D b" and "verified_honest (bk_state b)"
  shows "book_wf D (snd (guard_crossed D b now))"
  using assms(1)
proof (cases rule: guard_crossed_cases [where now = now])
  case ok
  with assms show ?thesis by (simp add: book_wf_def)
next
  case (crossed bid ask)
  with assms show ?thesis by (simp add: book_wf_def mark_desynced_def sides_ok_def)
qed

lemma book_wf_apply_snapshot [wf_intros]: "book_wf D (snd (apply_snapshot D b bids asks i now))"
  unfolding apply_snapshot_def
  by (intro book_wf_guard_crossed sides_ok_prune) (simp_all add: sides_ok_def side_ok_fill_side)

lemma book_wf_apply_delta [wf_intros]:
  assumes "book_wf D b"
  shows "book_wf D (snd (apply_delta D b bids asks now))"
proof (cases "is_live (bk_state b)")
  case True
  have "book_wf D (snd (guard_crossed D (prune D (b\<lparr> bk_bids := apply_levels D (bk_bids b) bids,
      bk_asks := apply_levels D (bk_asks b) asks, bk_last_update := Some now \<rparr>)) now))"
    using assms by (intro book_wf_guard_crossed sides_ok_prune)
      (simp_all add: book_wf_def sides_ok_def side_ok_apply_levels)
  with True show ?thesis by (simp add: apply_delta_def)
next
  case False
  with assms show ?thesis by (simp add: apply_delta_def)
qed

lemma within_depth_prune: "sides_ok D b \<Longrightarrow> within_depth (prune D b)"
  by (auto simp: within_depth_def prune_def sides_ok_def side_ok_def prune_bids_eq prune_asks_eq
      split: option.splits)

lemma within_depth_guard [simp]: "within_depth (snd (guard_crossed D b now)) = within_depth b"
  by (simp add: within_depth_def split: option.splits)

section \<open>Properties\<close>

lemma bind_split: "P (Option.bind x f) \<longleftrightarrow> (x = None \<longrightarrow> P None) \<and> (\<forall>y. x = Some y \<longrightarrow> P (f y))"
  by (cases x) auto

definition sample_time :: "nat \<Rightarrow> ingest_time" where
  "sample_time n = \<lparr> mono_t = n, wall_t = int n \<rparr>"

text \<open>A small live book for the concrete instances.\<close>

definition sample_book :: "rat book" where
  "sample_book = snd (apply_snapshot rat_decimals (new_book Bitstamp ''BTC-USD'')
     [level_of 99 1, level_of 100 2] [level_of 102 1, level_of 101 3] OrderOnly (sample_time 0))"

lemmas book_eval = Let_def apply_snapshot_def apply_delta_def fill_side_def apply_levels_def prune_def
  new_book_def guard_crossed_def best.simps mark_desynced_def qty_is_delete_def

lemma sample_book_eq:
  "sample_book = \<lparr> bk_venue = Bitstamp, bk_symbol = ''BTC-USD'', bk_bids = [(99, 1), (100, 2)],
     bk_asks = [(101, 3), (102, 1)], bk_state = Live OrderOnly (sample_time 0) None,
     bk_last_update = Some (sample_time 0), bk_max_depth = None \<rparr>"
  by (simp add: sample_book_def book_eval)

lemma sample_book_wf: "book_wf rat_decimals sample_book"
  unfolding sample_book_def by (rule book_wf_apply_snapshot)

text \<open>
  C4. Every operation of the book keeps it well formed: both sides strictly sorted by price,
  no level of zero quantity, never live while a bid meets an ask, and a last verification
  only on a book whose venue publishes checksums.
\<close>

theorem book_operations_keep_wf:
  assumes "book_wf D b"
  shows "book_wf D (new_book v s) \<and> book_wf D (with_max_depth b n)
    \<and> book_wf D (snd (apply_snapshot D b bids asks i now))
    \<and> book_wf D (snd (apply_delta D b bids asks now))
    \<and> book_wf D (mark_verified b now) \<and> book_wf D (mark_desynced b r now)"
  using assms by (intro conjI wf_intros)

lemma book_operations_keep_wf_witness:
  "book_wf rat_decimals (snd (apply_delta rat_decimals sample_book [level_of 100 0] [level_of 101 7]
     (sample_time 5)))"
  using book_operations_keep_wf [OF sample_book_wf] by blast



text \<open>
  C1. A delta is refused, without touching the book, unless the book is live; on a live book
  it is applied, the book stays live with its status exactly when the new sides do not cross,
  and is desynced at once, naming the two best prices, when they do.
\<close>

theorem apply_delta_outcome:
  assumes "book_wf D b" and "apply_delta D b bids asks now = (r, b')"
  shows "(\<not> is_live (bk_state b) \<longrightarrow> r = Inl (NotLive (state_kind (bk_state b))) \<and> b' = b)
    \<and> (is_live (bk_state b) \<longrightarrow> r = Inr () \<and> bk_last_update b' = Some now
        \<and> bk_state b' = (if uncrossed D b' then bk_state b
            else Desynced now (CrossedBook (lv_price (the (best b' Bid))) (lv_price (the (best b' Ask))))))"
proof (cases "is_live (bk_state b)")
  case True
  let ?applied = "b\<lparr> bk_bids := apply_levels D (bk_bids b) bids,
    bk_asks := apply_levels D (bk_asks b) asks, bk_last_update := Some now \<rparr>"
  have b': "b' = snd (guard_crossed D (prune D ?applied) now)" and r: "r = Inr ()"
    using assms(2) True by (simp_all add: apply_delta_def)
  have "sides_ok D (prune D ?applied)"
    using assms(1) by (intro sides_ok_prune) (simp add: book_wf_def sides_ok_def side_ok_apply_levels)
  then show ?thesis
  proof (cases rule: guard_crossed_cases [where now = now])
    case ok
    with True r show ?thesis by (simp add: b')
  next
    case (crossed bid ask)
    with True r show ?thesis by (simp add: b')
  qed
next
  case False
  with assms(2) show ?thesis by (auto simp: apply_delta_def)
qed

lemma apply_delta_outcome_witness:
  "bk_state (snd (apply_delta rat_decimals sample_book [level_of 101 1] [] (sample_time 4)))
     = Desynced (sample_time 4) (CrossedBook 101 101)"
proof -
  have eq: "apply_delta rat_decimals sample_book [level_of 101 1] [] (sample_time 4) =
      (Inr (), sample_book\<lparr> bk_bids := [(99, 1), (100, 2), (101, 1)],
         bk_state := Desynced (sample_time 4) (CrossedBook 101 101),
         bk_last_update := Some (sample_time 4) \<rparr>)"
    by (simp add: sample_book_eq book_eval)
  have live: "is_live (bk_state sample_book)" by (simp add: sample_book_eq)
  from apply_delta_outcome [OF sample_book_wf eq] live show ?thesis
    by (simp add: eq)
qed

text \<open>
  C2. On a live, unpruned book a delta updates the contents and nothing else: at every price the
  last level of the batch decides the quantity, a zero deletes it, and prices the batch does
  not name keep theirs.
\<close>

theorem apply_delta_refines_map_update:
  assumes "book_wf D b" and "is_live (bk_state b)" and "bk_max_depth b = None"
  shows "contents D (bk_bids (snd (apply_delta D b bids asks now))) =
      level_updates D (contents D (bk_bids b)) bids
    \<and> contents D (bk_asks (snd (apply_delta D b bids asks now))) =
      level_updates D (contents D (bk_asks b)) asks"
  using assms by (simp add: apply_delta_def prune_def contents_apply_levels book_wf_def sides_ok_def)

lemma apply_delta_refines_map_update_witness:
  "contents rat_decimals (bk_bids (snd (apply_delta rat_decimals sample_book
      [level_of 100 0, level_of 98 4] [] (sample_time 4)))) 100 = None"
proof -
  have "is_live (bk_state sample_book)" and "bk_max_depth sample_book = None"
    by (simp_all add: sample_book_eq)
  note apply_delta_refines_map_update [OF sample_book_wf this,
    of "[level_of 100 0, level_of 98 4]" "[]" "sample_time 4", THEN conjunct1, THEN fun_cong, of 100]
  then show ?thesis by (simp add: level_updates_def qty_is_delete_def)
qed

section \<open>Reading the top of the book\<close>

lemma side_best_first_sorted:
  assumes "sides_ok D b"
  shows "sorted_wrt (\<lambda>x y. case s of Bid \<Rightarrow> d_lt D (fst y) (fst x) | Ask \<Rightarrow> d_lt D (fst x) (fst y))
    (side_best_first b s)"
  using assms
  by (cases s) (simp_all add: sides_ok_def side_ok_def om_sorted_def sorted_wrt_map sorted_wrt_rev)

lemma top_levels_append:
  assumes "n \<le> m"
  shows "\<exists>rest. top_levels b s m = top_levels b s n @ rest"
proof -
  have "take m (side_best_first b s) = take n (side_best_first b s) @ take (m - n) (drop n (side_best_first b s))"
    using take_add [of n "m - n" "side_best_first b s"] assms by simp
  then show ?thesis by (simp add: top_levels_def)
qed

text \<open>
  \<open>top_levels\<close> lists a side best first, strictly ordered by price, beginning with \<open>best\<close>;
  asked for \<open>n\<close> levels it returns the \<open>n\<close> best ones the book holds, all of them when it holds
  fewer, and a larger request only extends the list.
\<close>

theorem top_levels_best_first:
  assumes "book_wf D b"
  shows "sorted_wrt (\<lambda>x y. case s of Bid \<Rightarrow> d_lt D (lv_price y) (lv_price x)
        | Ask \<Rightarrow> d_lt D (lv_price x) (lv_price y)) (top_levels b s n)
    \<and> length (top_levels b s n) =
        min n (case s of Bid \<Rightarrow> length (bk_bids b) | Ask \<Rightarrow> length (bk_asks b))
    \<and> best b s = (case top_levels b s (Suc n) of [] \<Rightarrow> None | l # _ \<Rightarrow> Some l)
    \<and> (\<exists>rest. top_levels b s (n + k) = top_levels b s n @ rest)"
proof (intro conjI)
  have "sides_ok D b" using assms by (simp add: book_wf_def)
  then have "sorted_wrt (\<lambda>x y. case s of Bid \<Rightarrow> d_lt D (fst y) (fst x) | Ask \<Rightarrow> d_lt D (fst x) (fst y))
      (take n (side_best_first b s))"
    by (intro sorted_wrt_take side_best_first_sorted)
  then show "sorted_wrt (\<lambda>x y. case s of Bid \<Rightarrow> d_lt D (lv_price y) (lv_price x)
      | Ask \<Rightarrow> d_lt D (lv_price x) (lv_price y)) (top_levels b s n)"
    by (cases s) (simp_all add: top_levels_def sorted_wrt_map case_prod_unfold)
  show "length (top_levels b s n) =
      min n (case s of Bid \<Rightarrow> length (bk_bids b) | Ask \<Rightarrow> length (bk_asks b))"
    by (cases s) (simp_all add: top_levels_def min.commute)
  show "best b s = (case top_levels b s (Suc n) of [] \<Rightarrow> None | l # _ \<Rightarrow> Some l)"
  proof (cases s)
    case Bid
    then show ?thesis by (cases "bk_bids b" rule: rev_cases) (auto simp: top_levels_def best.simps)
  next
    case Ask
    then show ?thesis by (cases "bk_asks b") (auto simp: top_levels_def best.simps)
  qed
  show "\<exists>rest. top_levels b s (n + k) = top_levels b s n @ rest"
    by (rule top_levels_append) simp
qed

lemma top_levels_best_first_witness:
  "length (top_levels sample_book Bid 1) = 1 \<and> best sample_book Bid = Some (level_of 100 2)"
  using top_levels_best_first [OF sample_book_wf, of Bid 1]
  by (simp add: sample_book_eq best.simps)

lemma side_best_first_prune:
  assumes "sides_ok D b" and "bk_max_depth b = Some cap"
  shows "side_best_first (prune D b) s = take cap (side_best_first b s)"
proof -
  have "om_sorted (dval D) (bk_asks b)" using assms(1) by (simp add: sides_ok_def side_ok_def)
  with assms(2) show ?thesis
    by (cases s) (simp_all add: prune_def prune_bids_eq prune_asks_eq take_rev)
qed

text \<open>
  C5. A capped book never holds more than its cap per side after a snapshot or a delta, and
  pruning discards only the worst levels: what is served of the top, up to the cap, is what
  the unpruned book would serve.
\<close>

theorem depth_cap:
  assumes "book_wf D b"
  shows "within_depth (snd (apply_snapshot D b bids asks i now))
    \<and> (is_live (bk_state b) \<longrightarrow> within_depth (snd (apply_delta D b bids asks now)))
    \<and> (bk_max_depth b = Some cap \<and> n \<le> cap \<longrightarrow> top_levels (prune D b) s n = top_levels b s n)"
proof (intro conjI impI)
  show "within_depth (snd (apply_snapshot D b bids asks i now))"
    unfolding apply_snapshot_def within_depth_guard
    by (rule within_depth_prune) (simp add: sides_ok_def side_ok_fill_side)
  show "within_depth (snd (apply_delta D b bids asks now))" if "is_live (bk_state b)"
    using that assms by (simp add: apply_delta_def within_depth_prune book_wf_def sides_ok_def
      side_ok_apply_levels)
  show "top_levels (prune D b) s n = top_levels b s n" if "bk_max_depth b = Some cap \<and> n \<le> cap"
    using that assms by (simp add: top_levels_def side_best_first_prune book_wf_def min_absorb1)
qed

lemma depth_cap_witness:
  "within_depth (snd (apply_delta rat_decimals (with_max_depth sample_book 2)
      [level_of 98 4] [] (sample_time 4)))"
proof -
  have "is_live (bk_state (with_max_depth sample_book 2))"
    by (simp add: sample_book_eq with_max_depth_def)
  moreover have "book_wf rat_decimals (with_max_depth sample_book 2)"
    by (rule book_wf_with_max_depth [OF sample_book_wf])
  ultimately show ?thesis using depth_cap by blast
qed

text \<open>
  Recording a matched checksum changes neither the contents nor the status that consumers
  compare, does nothing for a venue without checksums, and \<open>same_status\<close> is an equivalence.
\<close>

theorem verification_is_not_a_transition:
  shows "bk_bids (mark_verified b now) = bk_bids b \<and> bk_asks (mark_verified b now) = bk_asks b
    \<and> same_status D (bk_state b) (bk_state (mark_verified b now))
    \<and> (state_integrity (bk_state b) = Some Verified \<or> mark_verified b now = b)
    \<and> equivp (same_status D)"
proof (intro conjI)
  have srefl: "same_status D x x" for x by (cases x) auto
  have ssym: "same_status D y x" if "same_status D x y" for x y
    using that by (cases x; cases y) (auto intro: reason_eq_sym)
  have strans: "same_status D x z" if "same_status D x y" "same_status D y z" for x y z
    using that by (cases x; cases y; cases z) (auto intro: reason_eq_trans)
  show "equivp (same_status D)"
    by (rule equivpI) (auto simp: reflp_def symp_def transp_def intro: srefl ssym strans)
  show "same_status D (bk_state b) (bk_state (mark_verified b now))"
    by (auto simp: mark_verified_def srefl split: book_state.splits integrity.splits)
qed (auto simp: mark_verified_def split: book_state.splits integrity.splits)

end
