(* ===== verification/Auditing.thy ===== *)
theory Auditing
  imports Book
begin

text \<open>
  Checking a book against a snapshot the venue served (\<open>ma-core/src/audit.rs\<close>): the
  comparison \<open>audit\<close>, and the trail that acts only on a price wrong in consecutive audits.
\<close>

section \<open>Policy, findings, outcomes\<close>

definition usize_max :: nat where "usize_max = u64_max"

record audit_policy =
  ap_guard_bps :: nat
  ap_max_levels :: nat
  ap_consecutive_before_desync :: u32

definition audit_policy_default :: audit_policy where
  "audit_policy_default = \<lparr> ap_guard_bps = 10, ap_max_levels = 500, ap_consecutive_before_desync = 2 \<rparr>"

record 'd audit_finding =
  af_side :: side
  af_price :: 'd
  af_ours :: "'d option"
  af_theirs :: "'d option"

definition max_findings :: nat where "max_findings = 64"

datatype 'd audit_outcome =
    Inconclusive
  | Match nat
  | Mismatch "'d audit_finding list" nat

fun is_mismatch :: "'d audit_outcome \<Rightarrow> bool" where
  "is_mismatch (Mismatch _ _) = True"
| "is_mismatch _ = False"

fun outcome_compared :: "'d audit_outcome \<Rightarrow> nat" where
  "outcome_compared Inconclusive = 0"
| "outcome_compared (Match n) = n"
| "outcome_compared (Mismatch _ n) = n"

text \<open>A \<open>BTreeSet<Price>\<close> is an ordered map to the unit type.\<close>

type_synonym 'd price_set = "('d \<times> unit) list"

fun outcome_prices :: "('d, 'z) decimal_ops_scheme \<Rightarrow> 'd audit_outcome \<Rightarrow> 'd price_set" where
  "outcome_prices D (Mismatch findings _) = om_collect (dval D) (map (\<lambda>f. (af_price f, ())) findings)"
| "outcome_prices D _ = []"

section \<open>The comparison\<close>

definition guard_edge :: "('d, 'z) decimal_ops_scheme \<Rightarrow> 'd \<Rightarrow> side \<Rightarrow> nat \<Rightarrow> 'd" where
  "guard_edge D best_price side guard_bps =
     (let offset = d_div D (d_mul D best_price (d_of_nat D guard_bps)) (d_of_nat D 10000)
      in case side of Bid \<Rightarrow> d_sub D best_price offset | Ask \<Rightarrow> d_add D best_price offset)"

definition beyond_guard :: "('d, 'z) decimal_ops_scheme \<Rightarrow> side \<Rightarrow> 'd \<Rightarrow> 'd \<Rightarrow> bool" where
  "beyond_guard D side edge price =
     (case side of Bid \<Rightarrow> d_le D price edge | Ask \<Rightarrow> d_le D edge price)"

text \<open>The band of levels compared: beyond the guard, capped, keyed by price.\<close>

definition audit_band ::
  "('d, 'z) decimal_ops_scheme \<Rightarrow> side \<Rightarrow> 'd \<Rightarrow> nat \<Rightarrow> 'd level list \<Rightarrow> ('d \<times> 'd) list" where
  "audit_band D side edge max_levels levels =
     om_collect (dval D) (map (\<lambda>l. (lv_price l, lv_qty l))
       (take max_levels (filter (\<lambda>l. beyond_guard D side edge (lv_price l)) levels)))"

definition best_first_levels ::
  "('d, 'z) decimal_ops_scheme \<Rightarrow> side \<Rightarrow> 'd level list \<Rightarrow> 'd level list" where
  "best_first_levels D side theirs =
     (let kept = filter (\<lambda>l. \<not> qty_is_delete D (lv_qty l)) theirs
      in case side of
           Bid \<Rightarrow> sort_key (\<lambda>l. - dval D (lv_price l)) kept
         | Ask \<Rightarrow> sort_key (\<lambda>l. dval D (lv_price l)) kept)"

definition compare_price ::
  "('d, 'z) decimal_ops_scheme \<Rightarrow> side \<Rightarrow> ('d \<times> 'd) list \<Rightarrow> ('d \<times> 'd) list
     \<Rightarrow> 'd audit_finding list \<times> nat \<Rightarrow> 'd \<Rightarrow> 'd audit_finding list \<times> nat" where
  "compare_price D side ours theirs acc price =
     (let (findings, compared) = acc;
          ours_qty = om_get (dval D) (dval D price) ours;
          theirs_qty = om_get (dval D) (dval D price) theirs
      in (if \<not> d_opt_eq D ours_qty theirs_qty \<and> length findings < max_findings
          then findings @ [\<lparr> af_side = side, af_price = price, af_ours = ours_qty, af_theirs = theirs_qty \<rparr>]
          else findings, Suc compared))"

definition price_range ::
  "('d, 'z) decimal_ops_scheme \<Rightarrow> 'd \<Rightarrow> 'd \<Rightarrow> ('d \<times> 'd) list \<Rightarrow> 'd price_set" where
  "price_range D lo hi m =
     map (\<lambda>(p, _). (p, ())) (filter (\<lambda>(p, _). d_le D lo p \<and> d_le D p hi) m)"

definition audit_maps ::
  "('d, 'z) decimal_ops_scheme \<Rightarrow> side \<Rightarrow> ('d \<times> 'd) list \<Rightarrow> ('d \<times> 'd) list
     \<Rightarrow> 'd audit_finding list \<times> nat" where
  "audit_maps D side ours theirs =
     (if ours = [] \<or> theirs = [] then ([], 0)
      else let lo = (if d_lt D (fst (hd theirs)) (fst (hd ours)) then fst (hd ours) else fst (hd theirs));
               hi = (if d_lt D (fst (last theirs)) (fst (last ours)) then fst (last theirs) else fst (last ours))
           in if d_lt D hi lo then ([], 0)
              else let prices = om_collect (dval D) (price_range D lo hi ours @ price_range D lo hi theirs)
                   in foldl (compare_price D side ours theirs) ([], 0) (map fst prices))"

definition audit_side ::
  "('d, 'z) decimal_ops_scheme \<Rightarrow> 'd book \<Rightarrow> side \<Rightarrow> 'd level list \<Rightarrow> audit_policy
     \<Rightarrow> 'd audit_finding list \<times> nat" where
  "audit_side D b side theirs policy =
     (case best b side of
        None \<Rightarrow> ([], 0)
      | Some bst \<Rightarrow>
          let edge = guard_edge D (lv_price bst) side (ap_guard_bps policy)
          in audit_maps D side
               (audit_band D side edge (ap_max_levels policy) (top_levels b side usize_max))
               (audit_band D side edge (ap_max_levels policy) (best_first_levels D side theirs)))"

definition audit ::
  "('d, 'z) decimal_ops_scheme \<Rightarrow> 'd book \<Rightarrow> 'd level list \<Rightarrow> 'd level list \<Rightarrow> audit_policy
     \<Rightarrow> 'd audit_outcome" where
  "audit D b snapshot_bids snapshot_asks policy =
     (let (found_b, n_b) = audit_side D b Bid snapshot_bids policy;
          (found_a, n_a) = audit_side D b Ask snapshot_asks policy;
          findings = take max_findings (found_b @ found_a);
          compared = n_b + n_a
      in if findings \<noteq> [] then Mismatch findings compared
         else if compared = 0 then Inconclusive else Match compared)"

section \<open>The trail\<close>

record 'd audit_trail =
  at_consecutive :: u32
  at_suspect :: "'d price_set"
  at_audits :: u64
  at_mismatches :: u64

definition audit_trail_new :: "'d audit_trail" where
  "audit_trail_new = \<lparr> at_consecutive = 0, at_suspect = [], at_audits = 0, at_mismatches = 0 \<rparr>"

fun observe ::
  "('d, 'z) decimal_ops_scheme \<Rightarrow> 'd audit_trail \<Rightarrow> 'd audit_outcome \<Rightarrow> audit_policy
     \<Rightarrow> 'd desync_reason option \<times> 'd audit_trail" where
  "observe D t Inconclusive policy = (None, t\<lparr> at_audits := at_audits t + 1 \<rparr>)"
| "observe D t (Match n) policy =
     (None, t\<lparr> at_audits := at_audits t + 1, at_consecutive := 0, at_suspect := [] \<rparr>)"
| "observe D t (Mismatch findings n) policy =
     (let t = t\<lparr> at_audits := at_audits t + 1, at_mismatches := at_mismatches t + 1 \<rparr>;
          now = outcome_prices D (Mismatch findings n)
      in if at_consecutive t = 0 then (None, t\<lparr> at_suspect := now, at_consecutive := 1 \<rparr>)
         else let suspect = filter (\<lambda>(p, _). om_get (dval D) (dval D p) now \<noteq> None) (at_suspect t)
              in if suspect = [] then (None, t\<lparr> at_suspect := now, at_consecutive := 1 \<rparr>)
                 else let t = t\<lparr> at_suspect := suspect, at_consecutive := at_consecutive t + 1 \<rparr>
                      in if at_consecutive t < ap_consecutive_before_desync policy then (None, t)
                         else (Some (AuditMismatch (fst (hd suspect)) (unat (at_consecutive t))), t))"

definition audit_trail_reset :: "'d audit_trail \<Rightarrow> 'd audit_trail" where
  "audit_trail_reset t = t\<lparr> at_consecutive := 0, at_suspect := [] \<rparr>"

definition suspect_prices :: "'d audit_trail \<Rightarrow> 'd list" where
  "suspect_prices t = map fst (at_suspect t)"

section \<open>The loop over the prices\<close>

text \<open>What every finding recorded so far says, and what the counters bound.\<close>

definition findings_ok ::
  "('d, 'z) decimal_ops_scheme \<Rightarrow> side \<Rightarrow> ('d \<times> 'd) list \<Rightarrow> ('d \<times> 'd) list \<Rightarrow> 'd set
     \<Rightarrow> 'd audit_finding list \<times> nat \<Rightarrow> bool" where
  "findings_ok D side ours theirs prices acc \<longleftrightarrow>
     length (fst acc) \<le> snd acc \<and> length (fst acc) \<le> max_findings
     \<and> (\<forall>f \<in> set (fst acc). af_side f = side \<and> af_price f \<in> prices
         \<and> af_ours f = om_get (dval D) (dval D (af_price f)) ours
         \<and> af_theirs f = om_get (dval D) (dval D (af_price f)) theirs
         \<and> \<not> d_opt_eq D (af_ours f) (af_theirs f))"

lemma findings_ok_compare_price:
  "findings_ok D side ours theirs prices acc \<Longrightarrow> p \<in> prices
    \<Longrightarrow> findings_ok D side ours theirs prices (compare_price D side ours theirs acc p)"
  by (cases acc) (auto simp: findings_ok_def compare_price_def Let_def)

lemma findings_ok_fold:
  "findings_ok D side ours theirs (set ps) (foldl (compare_price D side ours theirs) ([], 0) ps)"
  by (rule foldl_invariant [where P = "findings_ok D side ours theirs (set ps)"])
    (auto simp: findings_ok_def [of _ _ _ _ _ "([], 0)"] intro: findings_ok_compare_price)

section \<open>The band\<close>

definition dir_le :: "side \<Rightarrow> rat \<Rightarrow> rat \<Rightarrow> bool" where
  "dir_le s x y = (case s of Bid \<Rightarrow> y \<le> x | Ask \<Rightarrow> x \<le> y)"

definition outward :: "('d, 'z) decimal_ops_scheme \<Rightarrow> side \<Rightarrow> 'd level list \<Rightarrow> bool" where
  "outward D s ls \<longleftrightarrow> sorted_wrt (\<lambda>x y. dir_le s (dval D (lv_price x)) (dval D (lv_price y))) ls"

lemma outward_top_levels:
  assumes "sides_ok D b"
  shows "outward D s (top_levels b s n)"
proof -
  have "sorted_wrt (\<lambda>x y. case s of Bid \<Rightarrow> d_lt D (fst y) (fst x) | Ask \<Rightarrow> d_lt D (fst x) (fst y))
      (take n (side_best_first b s))"
    using assms by (intro sorted_wrt_take side_best_first_sorted)
  then show ?thesis
    by (cases s) (auto simp: outward_def top_levels_def sorted_wrt_map case_prod_unfold dir_le_def
      elim!: sorted_wrt_mono_rel [rotated])
qed

lemma outward_best_first: "outward D s (best_first_levels D s ls)"
proof (cases s)
  case Bid
  have "sorted_wrt (\<lambda>x y. - dval D (lv_price x) \<le> - dval D (lv_price y)) (best_first_levels D s ls)"
    using sorted_sort_key [of "\<lambda>l. - dval D (lv_price l)" "filter (\<lambda>l. \<not> qty_is_delete D (lv_qty l)) ls"]
    by (simp only: Bid best_first_levels_def Let_def side.case sorted_map)
  then show ?thesis by (simp add: outward_def dir_le_def Bid)
next
  case Ask
  have "sorted_wrt (\<lambda>x y. dval D (lv_price x) \<le> dval D (lv_price y)) (best_first_levels D s ls)"
    using sorted_sort_key [of "\<lambda>l. dval D (lv_price l)" "filter (\<lambda>l. \<not> qty_is_delete D (lv_qty l)) ls"]
    by (simp only: Ask best_first_levels_def Let_def side.case sorted_map)
  then show ?thesis by (simp add: outward_def dir_le_def Ask)
qed

lemma set_best_first [simp]:
  "set (best_first_levels D s ls) = {l \<in> set ls. \<not> qty_is_delete D (lv_qty l)}"
  by (cases s) (auto simp: best_first_levels_def)

text \<open>Far end of a band: the lowest price of the bids, the highest of the asks.\<close>

definition far_end :: "side \<Rightarrow> ('d \<times> 'd) list \<Rightarrow> 'd" where
  "far_end s m = (case s of Bid \<Rightarrow> fst (hd m) | Ask \<Rightarrow> fst (last m))"

lemma band_keys:
  "om_keys (dval D) (audit_band D s edge n ls) =
   (\<lambda>l. dval D (lv_price l)) ` set (take n (filter (\<lambda>l. beyond_guard D s edge (lv_price l)) ls))"
  by (simp add: audit_band_def om_keys_collect_eq image_image)

lemma band_mem:
  assumes "(p, q) \<in> set (audit_band D s edge n ls)"
  shows "\<exists>l \<in> set ls. lv_price l = p \<and> lv_qty l = q \<and> beyond_guard D s edge p"
proof -
  have "(p, q) \<in> (\<lambda>l. (lv_price l, lv_qty l)) `
      set (take n (filter (\<lambda>l. beyond_guard D s edge (lv_price l)) ls))"
    using assms set_om_collect unfolding audit_band_def set_map [symmetric] by blast
  then show ?thesis by (auto dest!: in_set_takeD)
qed

lemma band_sorted [simp]: "om_sorted (dval D) (audit_band D s edge n ls)"
  by (simp add: audit_band_def)

text \<open>
  Up to its far end the band misses nothing: a level beyond the guard and not past the far
  end is one of its keys.
\<close>

lemma band_complete:
  assumes out: "outward D s ls" and l: "l \<in> set ls" "beyond_guard D s edge (lv_price l)"
    and ne: "audit_band D s edge n ls \<noteq> []"
    and near: "dir_le s (dval D (lv_price l)) (dval D (far_end s (audit_band D s edge n ls)))"
  shows "dval D (lv_price l) \<in> om_keys (dval D) (audit_band D s edge n ls)"
proof (rule ccontr)
  let ?F = "filter (\<lambda>l. beyond_guard D s edge (lv_price l)) ls" and ?B = "audit_band D s edge n ls"
  assume absent: "dval D (lv_price l) \<notin> om_keys (dval D) ?B"
  have "outward D s ?F" using out by (simp add: outward_def sorted_wrt_filter)
  then have split: "outward D s (take n ?F @ drop n ?F)" by simp
  have "l \<in> set (take n ?F @ drop n ?F)" using l by simp
  moreover have "l \<notin> set (take n ?F)" using absent unfolding band_keys by blast
  ultimately have "l \<in> set (drop n ?F)" by (metis Un_iff set_append)
  with split have past: "dir_le s x (dval D (lv_price l))" if "x \<in> om_keys (dval D) ?B" for x
    using that unfolding band_keys outward_def sorted_wrt_append by blast
  have "dval D (far_end s ?B) \<in> om_keys (dval D) ?B"
    using ne by (cases s) (auto simp: far_end_def)
  then have "dir_le s (dval D (far_end s ?B)) (dval D (lv_price l))" by (rule past)
  with near have "dval D (lv_price l) = dval D (far_end s ?B)"
    by (cases s) (auto simp: dir_le_def)
  with absent \<open>dval D (far_end s ?B) \<in> om_keys (dval D) ?B\<close> show False by simp
qed

lemma price_range_mem:
  "(p, u) \<in> set (price_range D lo hi m) \<Longrightarrow> p \<in> fst ` set m \<and> d_le D lo p \<and> d_le D p hi"
  by (force simp: price_range_def)

text \<open>The findings of one side: genuine disagreements, within the range both bands cover.\<close>

lemma audit_maps_findings:
  assumes "f \<in> set (fst (audit_maps D s ours theirs))"
  shows "af_side f = s \<and> af_price f \<in> fst ` set (ours @ theirs)
    \<and> dir_le s (dval D (af_price f)) (dval D (far_end s ours))
    \<and> dir_le s (dval D (af_price f)) (dval D (far_end s theirs))
    \<and> af_ours f = om_get (dval D) (dval D (af_price f)) ours
    \<and> af_theirs f = om_get (dval D) (dval D (af_price f)) theirs
    \<and> \<not> d_opt_eq D (af_ours f) (af_theirs f)"
proof -
  let ?lo = "if d_lt D (fst (hd theirs)) (fst (hd ours)) then fst (hd ours) else fst (hd theirs)"
  let ?hi = "if d_lt D (fst (last theirs)) (fst (last ours)) then fst (last theirs) else fst (last ours)"
  let ?ps = "om_collect (dval D) (price_range D ?lo ?hi ours @ price_range D ?lo ?hi theirs)"
  from assms have eq: "audit_maps D s ours theirs =
      foldl (compare_price D s ours theirs) ([], 0) (map fst ?ps)"
    by (simp add: audit_maps_def Let_def split: if_splits)
  have f: "f \<in> set (fst (foldl (compare_price D s ours theirs) ([], 0) (map fst ?ps)))"
    using assms unfolding eq .
  note ok = findings_ok_fold [of D s ours theirs "map fst ?ps", unfolded findings_ok_def]
  from ok f have main: "af_side f = s \<and> af_price f \<in> set (map fst ?ps)
      \<and> af_ours f = om_get (dval D) (dval D (af_price f)) ours
      \<and> af_theirs f = om_get (dval D) (dval D (af_price f)) theirs
      \<and> \<not> d_opt_eq D (af_ours f) (af_theirs f)"
    by blast
  then obtain u where "(af_price f, u) \<in> set ?ps" by auto
  then have "(af_price f, u) \<in> set (price_range D ?lo ?hi ours @ price_range D ?lo ?hi theirs)"
    using set_om_collect by (rule subsetD [rotated])
  then have rng: "af_price f \<in> fst ` set (ours @ theirs) \<and> d_le D ?lo (af_price f) \<and> d_le D (af_price f) ?hi"
    unfolding set_append using price_range_mem [of "af_price f" u D ?lo ?hi] by blast
  then have "dir_le s (dval D (af_price f)) (dval D (far_end s ours))
      \<and> dir_le s (dval D (af_price f)) (dval D (far_end s theirs))"
    by (cases s) (auto simp: dir_le_def far_end_def split: if_splits)
  with main rng show ?thesis by blast
qed

lemma audit_maps_bounds:
  "length (fst (audit_maps D s ours theirs)) \<le> snd (audit_maps D s ours theirs)"
  using findings_ok_fold [of D s ours theirs]
  by (simp add: audit_maps_def Let_def findings_ok_def)

section \<open>One side\<close>

definition side_levels :: "'d book \<Rightarrow> side \<Rightarrow> 'd book_side" where
  "side_levels b s = (case s of Bid \<Rightarrow> bk_bids b | Ask \<Rightarrow> bk_asks b)"

lemma set_top_levels_all:
  "length (side_levels b s) \<le> n \<Longrightarrow>
     set (top_levels b s n) = (\<lambda>(p, q). level_of p q) ` set (side_levels b s)"
  by (cases s) (simp_all add: top_levels_def side_levels_def)

text \<open>A finding, in the words of the book and the snapshot rather than of the bands.\<close>

definition genuine_finding ::
  "('d, 'z) decimal_ops_scheme \<Rightarrow> 'd book \<Rightarrow> 'd level list \<Rightarrow> nat \<Rightarrow> 'd audit_finding \<Rightarrow> bool" where
  "genuine_finding D b theirs guard f \<longleftrightarrow>
     (case best b (af_side f) of None \<Rightarrow> False
      | Some l \<Rightarrow> beyond_guard D (af_side f) (guard_edge D (lv_price l) (af_side f) guard) (af_price f))
     \<and> af_ours f = contents D (side_levels b (af_side f)) (dval D (af_price f))
     \<and> (case af_theirs f of
          Some q \<Rightarrow> \<exists>l \<in> set theirs. d_eq D (lv_price l) (af_price f) \<and> lv_qty l = q \<and> \<not> qty_is_delete D q
        | None \<Rightarrow> \<not> (\<exists>l \<in> set theirs. d_eq D (lv_price l) (af_price f) \<and> \<not> qty_is_delete D (lv_qty l)))
     \<and> \<not> d_opt_eq D (af_ours f) (af_theirs f)"

lemma om_get_band:
  assumes out: "outward D s ls" and ne: "audit_band D s edge n ls \<noteq> []"
    and beyond: "beyond_guard D s edge p"
    and near: "dir_le s (dval D p) (dval D (far_end s (audit_band D s edge n ls)))"
  shows "case om_get (dval D) (dval D p) (audit_band D s edge n ls) of
      Some q \<Rightarrow> \<exists>l \<in> set ls. d_eq D (lv_price l) p \<and> lv_qty l = q
    | None \<Rightarrow> \<not> (\<exists>l \<in> set ls. d_eq D (lv_price l) p)"
proof (cases "om_get (dval D) (dval D p) (audit_band D s edge n ls)")
  case (Some q)
  then obtain k where "(k, q) \<in> set (audit_band D s edge n ls)" "dval D k = dval D p"
    by (blast dest: om_get_mem)
  with Some show ?thesis using band_mem [of k q D s edge n ls] by auto
next
  case None
  have "\<not> d_eq D (lv_price l) p" if "l \<in> set ls" for l
  proof
    assume eq: "d_eq D (lv_price l) p"
    have "beyond_guard D s edge (lv_price l)" using beyond eq by (cases s) (simp_all add: beyond_guard_def)
    with band_complete [OF out that this ne] near eq
    have "dval D p \<in> om_keys (dval D) (audit_band D s edge n ls)" by simp
    with None show False by (simp add: om_get_None)
  qed
  with None show ?thesis by simp
qed

lemma beyond_guard_cong: "d_eq D p q \<Longrightarrow> beyond_guard D s edge p = beyond_guard D s edge q"
  by (cases s) (simp_all add: beyond_guard_def)

lemma audit_maps_nonempty: "f \<in> set (fst (audit_maps D s ours theirs)) \<Longrightarrow> ours \<noteq> [] \<and> theirs \<noteq> []"
  by (auto simp: audit_maps_def)

lemma audit_side_findings:
  assumes ok: "sides_ok D b" and fits: "length (side_levels b s) \<le> usize_max"
    and f: "f \<in> set (fst (audit_side D b s theirs policy))"
  shows "af_side f = s \<and> genuine_finding D b theirs (ap_guard_bps policy) f"
proof -
  from f obtain l where best: "best b s = Some l" by (auto simp: audit_side_def split: option.splits)
  let ?edge = "guard_edge D (lv_price l) s (ap_guard_bps policy)" and ?n = "ap_max_levels policy"
  let ?O = "audit_band D s ?edge ?n (top_levels b s usize_max)"
  let ?T = "audit_band D s ?edge ?n (best_first_levels D s theirs)"
  have f': "f \<in> set (fst (audit_maps D s ?O ?T))"
    using f best by (simp add: audit_side_def Let_def)
  note facts = audit_maps_findings [OF f'] and ne = audit_maps_nonempty [OF f']
  have side: "af_side f = s" using facts by blast
  have beyond: "beyond_guard D s ?edge (af_price f)"
    using facts band_mem [of "af_price f"] by force
  have "om_get (dval D) (dval D (af_price f)) ?O = contents D (side_levels b s) (dval D (af_price f))"
  proof -
    have "om_sorted (dval D) (side_levels b s)"
      using ok by (cases s) (simp_all add: sides_ok_def side_ok_def side_levels_def)
    then have get: "contents D (side_levels b s) (dval D (lv_price k)) = Some (lv_qty k)"
      if "k \<in> set (top_levels b s usize_max)" for k
      using that by (auto simp: set_top_levels_all [OF fits] intro: om_get_in)
    have "case om_get (dval D) (dval D (af_price f)) ?O of
        Some q \<Rightarrow> \<exists>k \<in> set (top_levels b s usize_max). d_eq D (lv_price k) (af_price f) \<and> lv_qty k = q
      | None \<Rightarrow> \<not> (\<exists>k \<in> set (top_levels b s usize_max). d_eq D (lv_price k) (af_price f))"
      using facts ne beyond by (intro om_get_band outward_top_levels ok) blast+
    then show ?thesis
    proof (cases "om_get (dval D) (dval D (af_price f)) ?O")
      case None
      have "dval D (af_price f) \<notin> om_keys (dval D) (side_levels b s)"
      proof
        assume "dval D (af_price f) \<in> om_keys (dval D) (side_levels b s)"
        then obtain k q where "(k, q) \<in> set (side_levels b s)" "dval D k = dval D (af_price f)" by auto
        then have "\<exists>k \<in> set (top_levels b s usize_max). d_eq D (lv_price k) (af_price f)"
          by (force simp: set_top_levels_all [OF fits])
        with None \<open>case om_get (dval D) (dval D (af_price f)) ?O of Some q \<Rightarrow> _ | None \<Rightarrow> _\<close>
        show False by simp
      qed
      then have "contents D (side_levels b s) (dval D (af_price f)) = None"
        by (rule iffD2 [OF om_get_None])
      with None show ?thesis by simp
    next
      case (Some q)
      with \<open>case om_get (dval D) (dval D (af_price f)) ?O of Some q \<Rightarrow> _ | None \<Rightarrow> _\<close>
      obtain k where "k \<in> set (top_levels b s usize_max)" "d_eq D (lv_price k) (af_price f)" "lv_qty k = q"
        by auto
      with get [of k] Some show ?thesis by simp
    qed
  qed
  moreover have "case om_get (dval D) (dval D (af_price f)) ?T of
      Some q \<Rightarrow> \<exists>k \<in> set (best_first_levels D s theirs). d_eq D (lv_price k) (af_price f) \<and> lv_qty k = q
    | None \<Rightarrow> \<not> (\<exists>k \<in> set (best_first_levels D s theirs). d_eq D (lv_price k) (af_price f))"
    using facts ne beyond by (intro om_get_band outward_best_first) blast+
  moreover have "af_ours f = om_get (dval D) (dval D (af_price f)) ?O
      \<and> af_theirs f = om_get (dval D) (dval D (af_price f)) ?T \<and> \<not> d_opt_eq D (af_ours f) (af_theirs f)"
    using facts by blast
  ultimately show ?thesis
    using side beyond best by (auto simp: genuine_finding_def split: option.splits)
qed

section \<open>Properties of the comparison\<close>

definition fits_usize :: "'d book \<Rightarrow> bool" where
  "fits_usize b \<longleftrightarrow> length (bk_bids b) \<le> usize_max \<and> length (bk_asks b) \<le> usize_max"

definition snapshot_side :: "'d level list \<Rightarrow> 'd level list \<Rightarrow> side \<Rightarrow> 'd level list" where
  "snapshot_side bids asks s = (case s of Bid \<Rightarrow> bids | Ask \<Rightarrow> asks)"

lemma audit_findings_from_sides:
  assumes "audit D b sb sa policy = Mismatch fs n" and "f \<in> set fs"
  shows "f \<in> set (fst (audit_side D b Bid sb policy)) \<or> f \<in> set (fst (audit_side D b Ask sa policy))"
  using assms by (auto simp: audit_def Let_def case_prod_beta split: if_splits dest!: in_set_takeD)

lemma audit_genuine:
  assumes "sides_ok D b" and "fits_usize b" and "audit D b sb sa policy = Mismatch fs n" and "f \<in> set fs"
  shows "genuine_finding D b (snapshot_side sb sa (af_side f)) (ap_guard_bps policy) f"
  using audit_findings_from_sides [OF assms(3,4)]
    audit_side_findings [OF assms(1), of Bid f sb policy]
    audit_side_findings [OF assms(1), of Ask f sa policy] assms(2)
  by (auto simp: snapshot_side_def fits_usize_def side_levels_def)

text \<open>
  C6. Every finding of an audit is genuine: it lies beyond the guard band around our best
  level, names exactly what our book holds and what the venue's snapshot holds at that price,
  and the two differ. A mismatch carries between one and \<open>MAX_FINDINGS\<close> findings and no more
  findings than levels compared.
\<close>

theorem audit_findings_genuine:
  assumes "book_wf D b" and "fits_usize b" and "audit D b sb sa policy = Mismatch fs n"
  shows "fs \<noteq> [] \<and> length fs \<le> max_findings \<and> length fs \<le> n
    \<and> (\<forall>f \<in> set fs. genuine_finding D b (snapshot_side sb sa (af_side f)) (ap_guard_bps policy) f)"
proof -
  have "sides_ok D b" using assms(1) by (simp add: book_wf_def)
  from audit_genuine [OF this assms(2,3)]
  have "\<forall>f \<in> set fs. genuine_finding D b (snapshot_side sb sa (af_side f)) (ap_guard_bps policy) f"
    by blast
  moreover have "length (fst (audit_side D b s th policy)) \<le> snd (audit_side D b s th policy)" for s th
    by (simp add: audit_side_def Let_def audit_maps_bounds split: option.splits)
  from add_mono [OF this [of Bid sb] this [of Ask sa]]
  have "fs \<noteq> [] \<and> length fs \<le> max_findings \<and> length fs \<le> n"
    using assms(3) by (auto simp: audit_def Let_def case_prod_beta split: if_splits)
  ultimately show ?thesis by blast
qed

lemmas audit_eval = audit_def audit_side_def audit_maps_def audit_band_def guard_edge_def
  beyond_guard_def best_first_levels_def compare_price_def price_range_def top_levels_def
  om_collect_def max_findings_def d_opt_eq_def best.simps qty_is_delete_def usize_max_def u64_max_def

definition thin_policy :: audit_policy where
  "thin_policy = \<lparr> ap_guard_bps = 10, ap_max_levels = 500, ap_consecutive_before_desync = 2 \<rparr>"

text \<open>A snapshot that disagrees with the sample book about the bid at 99.\<close>

lemma sample_audit:
  "audit rat_decimals sample_book [level_of 99 5, level_of 100 2] [] thin_policy =
     Mismatch [\<lparr> af_side = Bid, af_price = 99, af_ours = Some 1, af_theirs = Some 5 \<rparr>] 1"
  by (simp add: audit_eval thin_policy_def sample_book_eq Let_def)

lemma sample_fits: "fits_usize sample_book"
  by (simp add: fits_usize_def sample_book_eq usize_max_def u64_max_def)

lemma audit_findings_genuine_witness:
  "genuine_finding rat_decimals sample_book [level_of 99 5, level_of 100 2] 10
     \<lparr> af_side = Bid, af_price = 99, af_ours = Some 1, af_theirs = Some 5 \<rparr>"
  using audit_findings_genuine [OF sample_book_wf sample_fits sample_audit]
  by (simp add: snapshot_side_def thin_policy_def)

text \<open>What a side holds, and what a snapshot claims, as sets of prices with quantities.\<close>

definition held_levels :: "('d, 'z) decimal_ops_scheme \<Rightarrow> 'd book_side \<Rightarrow> (rat \<times> rat) set" where
  "held_levels D m = (\<lambda>(p, q). (dval D p, dval D q)) ` set m"

definition claimed_levels :: "('d, 'z) decimal_ops_scheme \<Rightarrow> 'd level list \<Rightarrow> (rat \<times> rat) set" where
  "claimed_levels D ls = set (map (\<lambda>l. (dval D (lv_price l), dval D (lv_qty l)))
     (filter (\<lambda>l. \<not> qty_is_delete D (lv_qty l)) ls))"

lemma contents_held:
  assumes "side_ok D m"
  shows "map_option (dval D) (contents D m x) = Some y \<longleftrightarrow> (x, y) \<in> held_levels D m"
proof
  assume "map_option (dval D) (contents D m x) = Some y"
  then show "(x, y) \<in> held_levels D m"
    by (force simp: held_levels_def dest: om_get_mem)
next
  assume "(x, y) \<in> held_levels D m"
  then obtain p q where "(p, q) \<in> set m" "x = dval D p" "y = dval D q"
    by (auto simp: held_levels_def)
  with assms show "map_option (dval D) (contents D m x) = Some y"
    by (simp add: side_ok_def om_get_in)
qed

lemma genuine_finding_disagrees:
  assumes "sides_ok D b" and "genuine_finding D b theirs guard f"
  shows "held_levels D (side_levels b (af_side f)) \<noteq> claimed_levels D theirs"
proof
  assume same: "held_levels D (side_levels b (af_side f)) = claimed_levels D theirs"
  have ok: "side_ok D (side_levels b (af_side f))"
    using assms(1) by (cases "af_side f") (simp_all add: sides_ok_def side_levels_def)
  note held = contents_held [OF ok, of "dval D (af_price f)", unfolded same]
  have ours: "af_ours f = contents D (side_levels b (af_side f)) (dval D (af_price f))"
    and diff: "map_option (dval D) (af_ours f) \<noteq> map_option (dval D) (af_theirs f)"
    using assms(2) by (auto simp: genuine_finding_def d_opt_eq_def)
  show False
  proof (cases "af_theirs f")
    case None
    then have "(dval D (af_price f), y) \<notin> claimed_levels D theirs" for y
      using assms(2) by (auto simp: genuine_finding_def claimed_levels_def)
    with held have "map_option (dval D) (af_ours f) = None"
      unfolding ours by (meson not_None_eq)
    with diff None show False by simp
  next
    case (Some q)
    then have "(dval D (af_price f), dval D q) \<in> claimed_levels D theirs"
      using assms(2) by (force simp: genuine_finding_def claimed_levels_def)
    with held diff Some show False unfolding ours by simp
  qed
qed

text \<open>
  A snapshot that claims exactly the levels the book holds is never reported as a
  mismatch, whatever order its levels come in, with whatever deletions and repetitions, and
  under every policy: any finding would be a real disagreement.
\<close>

theorem audit_agreeing_snapshot_passes:
  assumes "book_wf D b" and "fits_usize b"
    and "claimed_levels D sb = held_levels D (bk_bids b)"
    and "claimed_levels D sa = held_levels D (bk_asks b)"
  shows "\<not> is_mismatch (audit D b sb sa policy)"
proof
  assume "is_mismatch (audit D b sb sa policy)"
  then obtain fs n where mis: "audit D b sb sa policy = Mismatch fs n"
    by (cases "audit D b sb sa policy") auto
  then have "fs \<noteq> []" by (auto simp: audit_def Let_def case_prod_beta split: if_splits)
  then obtain f where f: "f \<in> set fs" by (cases fs) auto
  have ok: "sides_ok D b" using assms(1) by (simp add: book_wf_def)
  from genuine_finding_disagrees [OF ok audit_genuine [OF ok assms(2) mis f]] assms(3,4)
  show False by (cases "af_side f") (simp_all add: side_levels_def snapshot_side_def)
qed

lemma audit_agreeing_snapshot_passes_witness:
  "\<not> is_mismatch (audit rat_decimals sample_book [level_of 100 2, level_of 7 0, level_of 99 1]
     [level_of 102 1, level_of 101 3] audit_policy_default)"
  by (rule audit_agreeing_snapshot_passes [OF sample_book_wf sample_fits])
    (auto simp: claimed_levels_def held_levels_def sample_book_eq qty_is_delete_def)

section \<open>Properties of the trail\<close>

text \<open>The prices found by each mismatching audit since the last clean one, latest first.\<close>

fun streak_step ::
  "('d, 'z) decimal_ops_scheme \<Rightarrow> rat set list \<Rightarrow> 'd audit_outcome \<Rightarrow> rat set list" where
  "streak_step D h Inconclusive = h"
| "streak_step D h (Match _) = []"
| "streak_step D h (Mismatch fs _) = (\<lambda>f. dval D (af_price f)) ` set fs # h"

definition streak :: "('d, 'z) decimal_ops_scheme \<Rightarrow> 'd audit_outcome list \<Rightarrow> rat set list" where
  "streak D os = foldl (streak_step D) [] os"

definition observe_all ::
  "('d, 'z) decimal_ops_scheme \<Rightarrow> audit_policy \<Rightarrow> 'd audit_outcome list \<Rightarrow> 'd audit_trail" where
  "observe_all D policy os = foldl (\<lambda>t o'. snd (observe D t o' policy)) audit_trail_new os"

text \<open>Every suspect was found by each of the last \<open>consecutive\<close> mismatches.\<close>

definition trail_ok :: "('d, 'z) decimal_ops_scheme \<Rightarrow> rat set list \<Rightarrow> 'd audit_trail \<Rightarrow> bool" where
  "trail_ok D h t \<longleftrightarrow> unat (at_consecutive t) \<le> length h
     \<and> (\<forall>(p, _) \<in> set (at_suspect t). \<forall>s \<in> set (take (unat (at_consecutive t)) h). dval D p \<in> s)"

lemma unat_succ_le: "unat (c + 1 :: u32) \<le> Suc (unat c)"
  by (simp add: unat_word_ariths)

lemma trail_ok_observe:
  assumes "trail_ok D h t"
  shows "trail_ok D (streak_step D h out) (snd (observe D t out policy))"
proof (cases out)
  case Inconclusive
  with assms show ?thesis by (simp add: trail_ok_def)
next
  case (Match n)
  then show ?thesis by (simp add: trail_ok_def)
next
  case (Mismatch fs n)
  let ?now = "outcome_prices D (Mismatch fs n)"
  let ?found = "(\<lambda>f. dval D (af_price f)) ` set fs"
  have keys: "om_keys (dval D) ?now = ?found"
    by (simp add: om_keys_collect_eq image_image)
  have fresh: "trail_ok D (?found # h) (t\<lparr> at_audits := a, at_mismatches := m, at_suspect := ?now, at_consecutive := 1 \<rparr>)"
    for a m
    using keys by (force simp: trail_ok_def)
  let ?kept = "filter (\<lambda>(p, _). om_get (dval D) (dval D p) ?now \<noteq> None) (at_suspect t)"
  have kept: "dval D p \<in> ?found \<and> (\<forall>s \<in> set (take (unat (at_consecutive t)) h). dval D p \<in> s)"
    if "(p, u) \<in> set ?kept" for p u
    using that assms keys by (auto simp: trail_ok_def om_get_None simp del: outcome_prices.simps)
  have "trail_ok D (?found # h) (t\<lparr> at_audits := a, at_mismatches := m, at_suspect := ?kept,
      at_consecutive := at_consecutive t + 1 \<rparr>)" for a m
  proof -
    have "s \<in> set (take (unat (at_consecutive t + 1)) (?found # h)) \<Longrightarrow>
        s = ?found \<or> s \<in> set (take (unat (at_consecutive t)) h)" for s
      using unat_succ_le [of "at_consecutive t"]
      by (cases "unat (at_consecutive t + 1)")
        (auto dest: set_take_subset_set_take [THEN subsetD])
    moreover have "unat (at_consecutive t + 1) \<le> length (?found # h)"
      using unat_succ_le [of "at_consecutive t"] assms by (simp add: trail_ok_def)
    ultimately show ?thesis using kept unfolding trail_ok_def by fastforce
  qed
  with fresh Mismatch show ?thesis
    by (simp add: Let_def del: outcome_prices.simps)
qed

lemma trail_ok_all: "trail_ok D (streak D os) (observe_all D policy os)"
  unfolding streak_def observe_all_def
  by (rule foldl_simulation) (auto simp: trail_ok_def [of _ "[]"] audit_trail_new_def intro: trail_ok_observe)

lemma guarded_Some:
  "(if a then (None, x) else if b then (None, y) else if c then (None, z) else (Some w, z)) = (Some v, u)
    \<Longrightarrow> \<not> a \<and> \<not> b \<and> \<not> c \<and> w = v \<and> z = u"
  by (auto split: if_splits)

lemma observe_Some:
  assumes "observe D t out policy = (Some why, t')"
  shows "\<exists>fs n p. out = Mismatch fs n \<and> why = AuditMismatch p (unat (at_consecutive t'))
    \<and> at_consecutive t \<noteq> 0 \<and> at_consecutive t' = at_consecutive t + 1
    \<and> ap_consecutive_before_desync policy \<le> at_consecutive t' \<and> (p, ()) \<in> set (at_suspect t')"
proof (cases out)
  case (Mismatch fs n)
  define now where "now = outcome_prices D (Mismatch fs n)"
  let ?kept = "filter (\<lambda>(p, _). om_get (dval D) (dval D p) now \<noteq> None) (at_suspect t)"
  let ?t = "t\<lparr> at_audits := at_audits t + 1, at_mismatches := at_mismatches t + 1, at_suspect := ?kept,
    at_consecutive := at_consecutive t + 1 \<rparr>"
  have "at_consecutive t \<noteq> 0 \<and> ?kept \<noteq> []
      \<and> \<not> at_consecutive t + 1 < ap_consecutive_before_desync policy
      \<and> AuditMismatch (fst (hd ?kept)) (unat (at_consecutive t + 1)) = why \<and> ?t = t'"
    using guarded_Some [OF assms [unfolded Mismatch observe.simps Let_def]]
    unfolding now_def [symmetric] by simp
  then have c: "at_consecutive t \<noteq> 0" and ne: "?kept \<noteq> []"
    and le: "\<not> at_consecutive t + 1 < ap_consecutive_before_desync policy"
    and why: "AuditMismatch (fst (hd ?kept)) (unat (at_consecutive t + 1)) = why"
    and t': "?t = t'"
    by blast+
  have t': "at_suspect t' = ?kept" "at_consecutive t' = at_consecutive t + 1"
      "ap_consecutive_before_desync policy \<le> at_consecutive t'"
    using le unfolding t' [symmetric] by (simp_all add: not_less)
  then have why: "why = AuditMismatch (fst (hd ?kept)) (unat (at_consecutive t'))"
    using why by simp
  have "(fst (hd ?kept), ()) = hd ?kept" by (rule prod_eqI) simp_all
  moreover have "hd ?kept \<in> set ?kept" using ne by (rule hd_in_set)
  ultimately have "(fst (hd ?kept), ()) \<in> set (at_suspect t')" unfolding t'(1) by (simp only:)
  with Mismatch c t' why show ?thesis by blast
qed (use assms in auto)

text \<open>
  C7. An audit desyncs a book only for a price that really recurred: under a policy asking for at
  least one mismatch, the price named was found by each of the last \<open>n\<close> mismatching audits of
  the current streak, the present one included, where \<open>n\<close> is the count reported, at least two
  and at least what the policy asks for, and no clean audit came in between.
\<close>

theorem audit_desync_needs_recurring_price:
  assumes "observe D (observe_all D policy os) out policy = (Some why, t')"
    and "0 < ap_consecutive_before_desync policy"
  shows "\<exists>p n. why = AuditMismatch p n \<and> 2 \<le> n \<and> unat (ap_consecutive_before_desync policy) \<le> n
    \<and> n \<le> length (streak D (os @ [out]))
    \<and> (\<forall>found \<in> set (take n (streak D (os @ [out]))). dval D p \<in> found)"
proof -
  let ?t = "observe_all D policy os"
  obtain p where why: "why = AuditMismatch p (unat (at_consecutive t'))"
    and c: "at_consecutive ?t \<noteq> 0" "at_consecutive t' = at_consecutive ?t + 1"
      "ap_consecutive_before_desync policy \<le> at_consecutive t'"
    and p: "(p, ()) \<in> set (at_suspect t')"
    using observe_Some [OF assms(1)] by blast
  have ok: "trail_ok D (streak D (os @ [out])) t'"
    using trail_ok_observe [OF trail_ok_all, of D os out policy policy] assms(1)
    by (simp add: streak_def)
  have "at_consecutive t' \<noteq> 0" using c(3) assms(2) by auto
  then have two: "2 \<le> unat (at_consecutive t')"
    using c(1,2) by unat_arith
  show ?thesis
    using why two c(3) ok p by (fastforce simp: trail_ok_def word_le_nat_alt)
qed

lemma audit_desync_needs_recurring_price_witness:
  "\<exists>p n. fst (observe rat_decimals
        (observe_all rat_decimals audit_policy_default
          [Mismatch [\<lparr> af_side = Bid, af_price = 99, af_ours = Some 1, af_theirs = None \<rparr>] 7])
        (Mismatch [\<lparr> af_side = Bid, af_price = 99, af_ours = Some 1, af_theirs = None \<rparr>] 9)
        audit_policy_default) = Some (AuditMismatch p n) \<and> 2 \<le> n"
proof -
  let ?m = "Mismatch [\<lparr> af_side = Bid, af_price = 99, af_ours = Some 1, af_theirs = None \<rparr>] :: nat \<Rightarrow> rat audit_outcome"
  have "observe rat_decimals (observe_all rat_decimals audit_policy_default [?m 7]) (?m 9) audit_policy_default
      = (Some (AuditMismatch 99 2), \<lparr> at_consecutive = 2, at_suspect = [(99, ())], at_audits = 2, at_mismatches = 2 \<rparr>)"
    by (simp add: observe_all_def audit_trail_new_def audit_policy_default_def om_collect_def Let_def)
  from audit_desync_needs_recurring_price [OF this] this show ?thesis
    by (fastforce simp: audit_policy_default_def)
qed

text \<open>
  The first mismatching audit of a streak never desyncs the book, whatever the policy asks
  for: a threshold of one behaves as two.
\<close>

theorem first_mismatch_never_desyncs:
  assumes "streak D os = []"
  shows "fst (observe D (observe_all D policy os) out policy) = None"
proof -
  have "at_consecutive (observe_all D policy os) = 0"
    using trail_ok_all [of D os policy] assms by (simp add: trail_ok_def unat_eq_0)
  then show ?thesis by (cases out) (simp_all add: Let_def)
qed

lemma first_mismatch_never_desyncs_witness:
  "fst (observe rat_decimals audit_trail_new
     (Mismatch [\<lparr> af_side = Bid, af_price = 99, af_ours = Some 1, af_theirs = None \<rparr>] 9)
     \<lparr> ap_guard_bps = 10, ap_max_levels = 500, ap_consecutive_before_desync = 1 \<rparr>) = None"
proof -
  have "streak rat_decimals [] = []" by (simp add: streak_def)
  from first_mismatch_never_desyncs [OF this] show ?thesis
    unfolding observe_all_def foldl.simps .
qed

end
