(* ===== verification/Window.thy ===== *)
theory Window
  imports Book
begin

text \<open>
  Rolling windows over one stream (\<open>ma-core/src/window.rs\<close>): a ring of fixed-width buckets,
  filled by book samples and prints, with interval-based accounting of the time during which
  the book was not live. Sample and trade counters are natural numbers, the \<open>u64\<close> counters of
  the source cannot be filled; bucket numbers and milliseconds saturate as written there.
\<close>

section \<open>Specification and readings\<close>

definition default_resolution :: duration where
  "default_resolution = from_millis 250"

definition default_spans :: "duration list" where
  "default_spans = [from_secs 1, from_secs 10, from_secs 60]"

record window_spec =
  ws_resolution :: duration
  ws_spans :: "duration list"

definition window_spec_new :: "duration \<Rightarrow> duration list \<Rightarrow> window_spec" where
  "window_spec_new resolution spans =
     (let resolution = max resolution (from_millis 1)
      in \<lparr> ws_resolution = resolution, ws_spans = map (\<lambda>s. max s resolution) spans \<rparr>)"

definition longest :: "window_spec \<Rightarrow> duration" where
  "longest spec = foldl max 0 (ws_spans spec)"

definition window_spec_default :: window_spec where
  "window_spec_default = window_spec_new default_resolution default_spans"

record 'd window_reading =
  wr_span_ms :: nat
  wr_trusted_ms :: nat
  wr_samples :: nat
  wr_integrity_floor :: "integrity option"
  wr_first :: "'d option"
  wr_last :: "'d option"
  wr_high :: "'d option"
  wr_low :: "'d option"
  wr_mean :: "'d option"
  wr_change_bps :: "'d option"
  wr_range_bps :: "'d option"
  wr_mean_spread_bps :: "'d option"
  wr_trades :: nat
  wr_volume :: "'d option"
  wr_vwap :: "'d option"

definition window_reading_empty :: "nat \<Rightarrow> 'd window_reading" where
  "window_reading_empty span_ms = \<lparr> wr_span_ms = span_ms, wr_trusted_ms = 0, wr_samples = 0,
     wr_integrity_floor = None, wr_first = None, wr_last = None, wr_high = None, wr_low = None,
     wr_mean = None, wr_change_bps = None, wr_range_bps = None, wr_mean_spread_bps = None,
     wr_trades = 0, wr_volume = None, wr_vwap = None \<rparr>"

definition is_partial :: "'d window_reading \<Rightarrow> bool" where
  "is_partial r \<longleftrightarrow> wr_trusted_ms r < wr_span_ms r"

section \<open>Buckets\<close>

record 'd bucket =
  bu_index :: "nat option"
  bu_samples :: nat
  bu_sum_mid :: 'd
  bu_sum_spread :: 'd
  bu_first :: "'d option"
  bu_last :: "'d option"
  bu_high :: "'d option"
  bu_low :: "'d option"
  bu_integrity :: "integrity option"
  bu_trades :: nat
  bu_sum_qty :: 'd
  bu_sum_price_qty :: 'd
  bu_untrusted :: duration

definition bucket_default :: "('d, 'z) decimal_ops_scheme \<Rightarrow> 'd bucket" where
  "bucket_default D = \<lparr> bu_index = None, bu_samples = 0, bu_sum_mid = d_zero D,
     bu_sum_spread = d_zero D, bu_first = None, bu_last = None, bu_high = None, bu_low = None,
     bu_integrity = None, bu_trades = 0, bu_sum_qty = d_zero D, bu_sum_price_qty = d_zero D,
     bu_untrusted = 0 \<rparr>"

definition bucket_reset :: "('d, 'z) decimal_ops_scheme \<Rightarrow> nat \<Rightarrow> 'd bucket" where
  "bucket_reset D index = (bucket_default D)\<lparr> bu_index := Some index \<rparr>"

definition bucket_record ::
  "('d, 'z) decimal_ops_scheme \<Rightarrow> 'd \<Rightarrow> 'd \<Rightarrow> integrity \<Rightarrow> 'd bucket \<Rightarrow> 'd bucket" where
  "bucket_record D mid spread integ b = b\<lparr>
     bu_samples := bu_samples b + 1,
     bu_sum_mid := d_add D (bu_sum_mid b) mid,
     bu_sum_spread := d_add D (bu_sum_spread b) spread,
     bu_first := (case bu_first b of None \<Rightarrow> Some mid | Some f \<Rightarrow> Some f),
     bu_last := Some mid,
     bu_high := Some (case bu_high b of None \<Rightarrow> mid | Some h \<Rightarrow> d_max D h mid),
     bu_low := Some (case bu_low b of None \<Rightarrow> mid | Some l \<Rightarrow> d_min D l mid),
     bu_integrity := Some (case bu_integrity b of None \<Rightarrow> integ | Some i \<Rightarrow> min i integ) \<rparr>"

definition bucket_record_trade ::
  "('d, 'z) decimal_ops_scheme \<Rightarrow> 'd \<Rightarrow> 'd \<Rightarrow> 'd bucket \<Rightarrow> 'd bucket" where
  "bucket_record_trade D price qty b = b\<lparr>
     bu_trades := bu_trades b + 1,
     bu_sum_qty := d_add D (bu_sum_qty b) qty,
     bu_sum_price_qty := d_add D (bu_sum_price_qty b) (d_mul D price qty) \<rparr>"

section \<open>The ring\<close>

record 'd rolling_windows =
  rw_spec :: window_spec
  rw_buckets :: "'d bucket list"
  rw_origin :: ingest_time
  rw_charged_to :: ingest_time
  rw_trusted :: bool

text \<open>\<open>div_ceil\<close> of the spans in nanoseconds, as a saturated bucket count.\<close>

definition buckets_for :: "duration \<Rightarrow> duration \<Rightarrow> nat" where
  "buckets_for spn resolution =
     (let resolution = max resolution 1 in sat_u64 ((spn + resolution - 1) div resolution))"

definition rolling_windows_new ::
  "('d, 'z) decimal_ops_scheme \<Rightarrow> window_spec \<Rightarrow> ingest_time \<Rightarrow> 'd rolling_windows" where
  "rolling_windows_new D spec now =
     (let k_max = buckets_for (longest spec) (ws_resolution spec);
          len = min (k_max + 1) u64_max
      in \<lparr> rw_spec = spec, rw_buckets = replicate len (bucket_default D), rw_origin = now,
           rw_charged_to = now, rw_trusted = False \<rparr>)"

definition index_at :: "'d rolling_windows \<Rightarrow> ingest_time \<Rightarrow> nat" where
  "index_at w t = sat_u64 (since t (rw_origin w) div max (ws_resolution (rw_spec w)) 1)"

definition bucket_start :: "'d rolling_windows \<Rightarrow> nat \<Rightarrow> ingest_time" where
  "bucket_start w index = advanced_by (rw_origin w) (sat_u64 (index * ws_resolution (rw_spec w)))"

definition slot_of :: "'d rolling_windows \<Rightarrow> nat \<Rightarrow> nat" where
  "slot_of w index = index mod max (length (rw_buckets w)) 1"

definition slot :: "'d rolling_windows \<Rightarrow> nat \<Rightarrow> 'd bucket option" where
  "slot w index =
     (if slot_of w index < length (rw_buckets w)
         \<and> bu_index (rw_buckets w ! slot_of w index) = Some index
      then Some (rw_buckets w ! slot_of w index) else None)"

text \<open>\<open>slot_mut\<close>, with what its caller does to the bucket it returns.\<close>

definition slot_mut ::
  "('d, 'z) decimal_ops_scheme \<Rightarrow> 'd rolling_windows \<Rightarrow> nat \<Rightarrow> ('d bucket \<Rightarrow> 'd bucket)
     \<Rightarrow> 'd rolling_windows" where
  "slot_mut D w index change =
     (let s = slot_of w index;
          b = rw_buckets w ! s;
          b = (if bu_index b \<noteq> Some index then bucket_reset D index else b)
      in w\<lparr> rw_buckets := (rw_buckets w)[s := change b] \<rparr>)"

section \<open>Charging time\<close>

definition slice_end :: "'d rolling_windows \<Rightarrow> ingest_time \<Rightarrow> ingest_time \<Rightarrow> ingest_time" where
  "slice_end w cursor now =
     (let boundary = bucket_start w (min (index_at w cursor + 1) u64_max)
      in if mono_t boundary < mono_t now then boundary else now)"

definition charge_slice ::
  "('d, 'z) decimal_ops_scheme \<Rightarrow> 'd rolling_windows \<Rightarrow> ingest_time \<Rightarrow> ingest_time
     \<Rightarrow> 'd rolling_windows" where
  "charge_slice D w cursor now =
     slot_mut D w (index_at w cursor)
       (\<lambda>b. if \<not> rw_trusted w
            then b\<lparr> bu_untrusted := bu_untrusted b + since (slice_end w cursor now) cursor \<rparr> else b)"

function charge_loop ::
  "('d, 'z) decimal_ops_scheme \<Rightarrow> 'd rolling_windows \<Rightarrow> ingest_time \<Rightarrow> ingest_time
     \<Rightarrow> 'd rolling_windows" where
  "charge_loop D w cursor now =
     (if mono_t cursor < mono_t now
      then let stop = slice_end w cursor now;
               w' = charge_slice D w cursor now
           in if mono_t stop \<le> mono_t cursor then w' else charge_loop D w' stop now
      else w)"
  by pat_completeness auto
termination
  by (relation "measure (\<lambda>(D, w, cursor, now). mono_t now - mono_t cursor)") auto

declare charge_loop.simps [simp del]

definition charge ::
  "('d, 'z) decimal_ops_scheme \<Rightarrow> 'd rolling_windows \<Rightarrow> ingest_time \<Rightarrow> 'd rolling_windows" where
  "charge D w now =
     (if mono_t now \<le> mono_t (rw_charged_to w) then w
      else let cursor = rw_charged_to w;
               stop = index_at w now;
               ring = length (rw_buckets w);
               cursor = (if ring \<le> stop - index_at w cursor
                         then bucket_start w (stop - ring + 1) else cursor)
           in (charge_loop D w cursor now)\<lparr> rw_charged_to := now \<rparr>)"

section \<open>Observing and reading\<close>

definition window_observe ::
  "('d, 'z) decimal_ops_scheme \<Rightarrow> 'd rolling_windows \<Rightarrow> 'd top_of_book_view \<Rightarrow> ingest_time
     \<Rightarrow> 'd rolling_windows" where
  "window_observe D w tob now =
     (let w = charge D w now
      in case top_state tob of
           Live integ _ _ \<Rightarrow>
             (let w = w\<lparr> rw_trusted := True \<rparr>
              in case (top_bid tob, top_ask tob) of
                   (Some bid, Some ask) \<Rightarrow>
                     slot_mut D w (index_at w now)
                       (bucket_record D
                          (d_div D (d_add D (lv_price bid) (lv_price ask)) (d_two D))
                          (d_sub D (lv_price ask) (lv_price bid)) integ)
                 | _ \<Rightarrow> w)
         | _ \<Rightarrow> w\<lparr> rw_trusted := False \<rparr>)"

definition observe_trade ::
  "('d, 'z) decimal_ops_scheme \<Rightarrow> 'd rolling_windows \<Rightarrow> 'd \<Rightarrow> 'd \<Rightarrow> ingest_time
     \<Rightarrow> 'd rolling_windows" where
  "observe_trade D w price qty now =
     (let w = charge D w now
      in slot_mut D w (index_at w now) (bucket_record_trade D price qty))"

definition mid_scale :: nat where "mid_scale = 8"
definition bps_scale :: nat where "bps_scale = 4"

definition bps :: "('d, 'z) decimal_ops_scheme \<Rightarrow> 'd \<Rightarrow> 'd \<Rightarrow> 'd" where
  "bps D numerator denominator =
     d_round_dp D bps_scale (d_div D (d_mul D numerator (d_of_nat D 10000)) denominator)"

text \<open>The sums \<open>read_span\<close> keeps beside the reading: mid, spread, quantity, price times quantity.\<close>

type_synonym 'd span_acc = "'d window_reading \<times> 'd \<times> 'd \<times> 'd \<times> 'd"

definition read_bucket ::
  "('d, 'z) decimal_ops_scheme \<Rightarrow> 'd rolling_windows \<Rightarrow> 'd span_acc \<Rightarrow> nat \<Rightarrow> 'd span_acc" where
  "read_bucket D w acc idx =
     (case slot w idx of
        None \<Rightarrow> acc
      | Some b \<Rightarrow>
          (case acc of (out, sum_mid, sum_spread, sum_qty, sum_price_qty) \<Rightarrow>
             let out = out\<lparr> wr_trusted_ms := wr_trusted_ms out
                               + millis_u64 (ws_resolution (rw_spec w) - bu_untrusted b),
                             wr_trades := wr_trades out + bu_trades b \<rparr>;
                 sum_qty = d_add D sum_qty (bu_sum_qty b);
                 sum_price_qty = d_add D sum_price_qty (bu_sum_price_qty b)
             in if bu_samples b = 0 then (out, sum_mid, sum_spread, sum_qty, sum_price_qty)
                else (out\<lparr> wr_samples := wr_samples out + bu_samples b,
                           wr_first := opt_or (wr_first out) (bu_first b),
                           wr_last := opt_or (bu_last b) (wr_last out),
                           wr_high := opt_join (d_max D) (wr_high out) (bu_high b),
                           wr_low := opt_join (d_min D) (wr_low out) (bu_low b),
                           wr_integrity_floor :=
                             opt_join min (wr_integrity_floor out) (bu_integrity b) \<rparr>,
                      d_add D sum_mid (bu_sum_mid b), d_add D sum_spread (bu_sum_spread b),
                      sum_qty, sum_price_qty)))"

definition finish_trades ::
  "('d, 'z) decimal_ops_scheme \<Rightarrow> 'd window_reading \<Rightarrow> 'd \<Rightarrow> 'd \<Rightarrow> 'd window_reading" where
  "finish_trades D out sum_qty sum_price_qty =
     (if wr_trades out > 0
      then out\<lparr> wr_volume := Some sum_qty,
                wr_vwap := (if \<not> d_is_zero D sum_qty
                            then Some (d_round_dp D mid_scale (d_div D sum_price_qty sum_qty))
                            else wr_vwap out) \<rparr>
      else out)"

definition finish_samples ::
  "('d, 'z) decimal_ops_scheme \<Rightarrow> 'd window_reading \<Rightarrow> 'd \<Rightarrow> 'd \<Rightarrow> 'd window_reading" where
  "finish_samples D out sum_mid sum_spread =
     (if wr_samples out = 0 then out
      else let mean = d_round_dp D mid_scale (d_div D sum_mid (d_of_nat D (wr_samples out)))
           in out\<lparr> wr_mean := Some mean,
                   wr_change_bps :=
                     (case (wr_first out, wr_last out) of
                        (Some first_mid, Some last_mid) \<Rightarrow>
                          (if \<not> d_is_zero D first_mid then Some (bps D (d_sub D last_mid first_mid) first_mid)
                           else wr_change_bps out)
                      | _ \<Rightarrow> wr_change_bps out),
                   wr_range_bps :=
                     (case (wr_high out, wr_low out) of
                        (Some high, Some low) \<Rightarrow>
                          (if \<not> d_is_zero D mean then Some (bps D (d_sub D high low) mean)
                           else wr_range_bps out)
                      | _ \<Rightarrow> wr_range_bps out),
                   wr_mean_spread_bps :=
                     (if \<not> d_is_zero D sum_mid then Some (bps D sum_spread sum_mid)
                      else wr_mean_spread_bps out) \<rparr>)"

definition span_millis :: "'d rolling_windows \<Rightarrow> duration \<Rightarrow> nat" where
  "span_millis w spn =
     millis_u64 (min (ws_resolution (rw_spec w)
        * sat_u32 (buckets_for spn (ws_resolution (rw_spec w)))) duration_max)"

definition read_span ::
  "('d, 'z) decimal_ops_scheme \<Rightarrow> 'd rolling_windows \<Rightarrow> duration \<Rightarrow> nat \<Rightarrow> 'd window_reading" where
  "read_span D w spn stop =
     (let k = buckets_for spn (ws_resolution (rw_spec w));
          out = window_reading_empty (span_millis w spn)
      in if stop = 0 then out
         else let newest = stop - 1;
                  oldest = newest - (k - 1);
                  (out, sum_mid, sum_spread, sum_qty, sum_price_qty) =
                    foldl (read_bucket D w) (out, d_zero D, d_zero D, d_zero D, d_zero D)
                      [oldest..<newest + 1]
              in finish_samples D (finish_trades D out sum_qty sum_price_qty) sum_mid sum_spread)"

definition read_windows ::
  "('d, 'z) decimal_ops_scheme \<Rightarrow> 'd rolling_windows \<Rightarrow> ingest_time
     \<Rightarrow> 'd window_reading list \<times> 'd rolling_windows" where
  "read_windows D w now =
     (let w = charge D w now; stop = index_at w now
      in (map (\<lambda>spn. read_span D w spn stop) (ws_spans (rw_spec w)), w))"

section \<open>Buckets as intervals of time\<close>

text \<open>
  Bucket \<open>i\<close> is the interval from \<open>o + i * r\<close> to \<open>o + (i + 1) * r\<close>; \<open>overlap\<close> is how much of
  it lies between two instants.
\<close>

definition overlap :: "instant \<Rightarrow> duration \<Rightarrow> nat \<Rightarrow> instant \<Rightarrow> instant \<Rightarrow> duration" where
  "overlap start r i a b = min b (start + (i + 1) * r) - max a (start + i * r)"

lemma overlap_add: "a \<le> m \<Longrightarrow> m \<le> b \<Longrightarrow> overlap s r i a b = overlap s r i a m + overlap s r i m b"
  by (auto simp: overlap_def min_def max_def)

lemma overlap_before: "b \<le> s + i * r \<Longrightarrow> overlap s r i a b = 0"
  by (simp add: overlap_def)

lemma overlap_after: "s + (i + 1) * r \<le> a \<Longrightarrow> overlap s r i a b = 0"
  by (simp add: overlap_def)

lemma overlap_le: "overlap s r i a b \<le> r"
  by (auto simp: overlap_def min_def max_def)

lemma overlap_slice:
  assumes "s + i * r \<le> a" and "b \<le> s + (i + 1) * r" and "a \<le> b"
  shows "overlap s r j a b = (if j = i then b - a else 0)"
proof -
  have "b \<le> s + j * r" if "i < j"
    using assms(2) mult_le_mono1 [of "i + 1" j r] that by simp
  moreover have "s + (j + 1) * r \<le> a" if "j < i"
    using assms(1) mult_le_mono1 [of "j + 1" i r] that by simp
  ultimately show ?thesis
    using assms by (cases "j = i"; cases "i < j") (auto simp: overlap_before overlap_after overlap_def)
qed

text \<open>Inside these bounds, some 584 years of uptime, no clock reading saturates.\<close>

abbreviation res :: "'d rolling_windows \<Rightarrow> duration" where
  "res w \<equiv> ws_resolution (rw_spec w)"

abbreviation start_of :: "'d rolling_windows \<Rightarrow> instant" where
  "start_of w \<equiv> mono_t (rw_origin w)"

definition in_range :: "'d rolling_windows \<Rightarrow> instant \<Rightarrow> bool" where
  "in_range w t \<longleftrightarrow> start_of w \<le> t \<and> t + res w \<le> start_of w + u64_max \<and> t + res w \<le> instant_max"

lemma index_at_eq:
  assumes "in_range w (mono_t t)" and "0 < res w"
  shows "index_at w t = (mono_t t - start_of w) div res w"
proof -
  have "(mono_t t - start_of w) div res w \<le> mono_t t - start_of w"
    by (rule div_le_dividend)
  also have "\<dots> \<le> u64_max" using assms(1) unfolding in_range_def by linarith
  finally have "(mono_t t - start_of w) div res w \<le> u64_max" .
  moreover have "max (res w) 1 = res w" using assms(2) by simp
  ultimately show ?thesis by (simp only: index_at_def since_def sat_u64_id)
qed

lemma index_at_bounds:
  assumes "in_range w (mono_t t)" and "0 < res w"
  shows "start_of w + index_at w t * res w \<le> mono_t t"
    and "mono_t t < start_of w + (index_at w t + 1) * res w"
proof -
  have d: "(mono_t t - start_of w) div res w * res w \<le> mono_t t - start_of w"
    by (rule div_times_less_eq_dividend)
  have m: "mono_t t - start_of w < ((mono_t t - start_of w) div res w + 1) * res w"
    using assms(2) by (simp add: dividend_less_div_times)
  have "start_of w \<le> mono_t t" using assms(1) by (simp add: in_range_def)
  with d m show "start_of w + index_at w t * res w \<le> mono_t t"
    and "mono_t t < start_of w + (index_at w t + 1) * res w"
    unfolding index_at_eq [OF assms] by linarith+
qed

lemma bucket_start_eq:
  assumes "i * res w \<le> u64_max" and "start_of w + i * res w \<le> instant_max"
  shows "mono_t (bucket_start w i) = start_of w + i * res w"
  using assms by (simp add: bucket_start_def advanced_by_def instant_checked_add_def sat_u64_id)

lemma index_unique:
  assumes "s + i * r \<le> (t::nat)" and "t < s + (j + 1) * r"
  shows "i \<le> j"
proof (rule ccontr)
  assume "\<not> i \<le> j"
  then have "(j + 1) * r \<le> i * r" by (intro mult_le_mono1) simp
  with assms show False by simp
qed

lemma in_range_le: "in_range w t \<Longrightarrow> start_of w \<le> u \<Longrightarrow> u \<le> t \<Longrightarrow> in_range w u"
  by (simp add: in_range_def)

lemma index_at_mono:
  assumes "in_range w (mono_t t)" "in_range w (mono_t u)" "0 < res w" "mono_t t \<le> mono_t u"
  shows "index_at w t \<le> index_at w u"
  using assms by (simp add: index_at_eq div_le_mono)

lemma slice_end_facts:
  assumes "in_range w (mono_t now)" and "0 < res w" and "start_of w \<le> mono_t c" and "mono_t c < mono_t now"
  shows "mono_t c < mono_t (slice_end w c now)" and "mono_t (slice_end w c now) \<le> mono_t now"
    and "mono_t (slice_end w c now) \<le> start_of w + (index_at w c + 1) * res w"
proof -
  have c: "in_range w (mono_t c)" using assms by (simp add: in_range_def)
  note b = index_at_bounds [OF c assms(2)]
  have next_bucket: "(index_at w c + 1) * res w \<le> mono_t now - start_of w + res w"
    using b(1) assms(4) by simp
  with assms have fit: "(index_at w c + 1) * res w \<le> u64_max"
    "start_of w + (index_at w c + 1) * res w \<le> instant_max"
    by (auto simp: in_range_def)
  have "index_at w c + 1 \<le> (index_at w c + 1) * res w"
    using assms(2) mult_le_mono2 [of 1 "res w" "index_at w c + 1"] by simp
  with fit(1) have "min (index_at w c + 1) u64_max = index_at w c + 1" by simp
  then have "slice_end w c now = (if start_of w + (index_at w c + 1) * res w < mono_t now
      then bucket_start w (index_at w c + 1) else now)"
    using bucket_start_eq [OF fit] by (simp add: slice_end_def Let_def)
  then show "mono_t c < mono_t (slice_end w c now)" and "mono_t (slice_end w c now) \<le> mono_t now"
    and "mono_t (slice_end w c now) \<le> start_of w + (index_at w c + 1) * res w"
    using b(2) assms(4) bucket_start_eq [OF fit] by (auto simp del: add_mult_distrib)
qed

section \<open>Coverage accounting\<close>

text \<open>
  \<open>covers w V c L\<close>: seen at instant \<open>c\<close>, the ring holds every bucket from \<open>L\<close> on that has begun,
  and each of them records exactly the untrusted time \<open>V\<close> attributes to it.
\<close>

definition ring_at :: "'d rolling_windows \<Rightarrow> nat \<Rightarrow> 'd bucket" where
  "ring_at w i = rw_buckets w ! (i mod length (rw_buckets w))"

definition covers :: "'d rolling_windows \<Rightarrow> (nat \<Rightarrow> duration) \<Rightarrow> instant \<Rightarrow> nat \<Rightarrow> bool" where
  "covers w V c L \<longleftrightarrow>
     (\<forall>i \<ge> L. start_of w + i * res w < c \<longrightarrow> bu_index (ring_at w i) = Some i)
     \<and> (\<forall>i \<ge> L. bu_index (ring_at w i) = Some i \<longrightarrow> bu_untrusted (ring_at w i) = V i)
     \<and> (\<forall>b \<in> set (rw_buckets w). \<forall>j. bu_index b = Some j \<longrightarrow> start_of w + j * res w \<le> c)
     \<and> (\<forall>i. c \<le> start_of w + i * res w \<longrightarrow> V i = 0)"

lemma ring_at_in: "rw_buckets w \<noteq> [] \<Longrightarrow> ring_at w i \<in> set (rw_buckets w)"
  by (simp add: ring_at_def)

lemma slot_mut_fields [simp]:
  "rw_spec (slot_mut D w i f) = rw_spec w" "rw_origin (slot_mut D w i f) = rw_origin w"
  "rw_charged_to (slot_mut D w i f) = rw_charged_to w" "rw_trusted (slot_mut D w i f) = rw_trusted w"
  "length (rw_buckets (slot_mut D w i f)) = length (rw_buckets w)"
  by (simp_all add: slot_mut_def Let_def)

lemma ring_at_slot_mut:
  assumes "rw_buckets w \<noteq> []"
  shows "ring_at (slot_mut D w i f) j =
    (if j mod length (rw_buckets w) = i mod length (rw_buckets w)
     then f (if bu_index (ring_at w i) \<noteq> Some i then bucket_reset D i else ring_at w i)
     else ring_at w j)"
proof -
  have "0 < length (rw_buckets w)" using assms by simp
  then have "i mod length (rw_buckets w) < length (rw_buckets w)"
    and m: "max (length (rw_buckets w)) 1 = length (rw_buckets w)" by (simp, linarith)
  then show ?thesis
    unfolding ring_at_def slot_mut_def slot_of_def Let_def m by auto
qed

lemma set_slot_mut:
  "b \<in> set (rw_buckets (slot_mut D w i f)) \<Longrightarrow> b \<in> set (rw_buckets w)
     \<or> b = f (if bu_index (rw_buckets w ! slot_of w i) \<noteq> Some i then bucket_reset D i else rw_buckets w ! slot_of w i)"
  using set_update_subset_insert by (fastforce simp: slot_mut_def Let_def)

lemma mod_window_inj:
  assumes m: "(i::nat) mod n = j mod n" and i: "L \<le> i" "i < L + n" and j: "L \<le> j" "j < L + n"
  shows "i = j"
proof -
  have no: "\<not> p < q" if "p mod n = q mod n" "L \<le> p" "q < L + n" for p q :: nat
  proof
    assume "p < q"
    then have "n dvd q - p" using that(1) by (simp add: mod_eq_dvd_iff_nat [symmetric])
    then have "n \<le> q - p" using \<open>p < q\<close> by (simp add: dvd_imp_le)
    with that(2,3) \<open>p < q\<close> show False by linarith
  qed
  from no [OF m i(1) j(2)] no [OF m [symmetric] j(1) i(2)] show ?thesis by linarith
qed

lemma bucket_reset_fields [simp]:
  "bu_index (bucket_reset D i) = Some i" "bu_untrusted (bucket_reset D i) = 0"
  by (simp_all add: bucket_reset_def bucket_default_def)

text \<open>Touching the bucket of an instant keeps the accounting, whatever it does to the samples.\<close>

lemma covers_touch:
  assumes cov: "covers w V c L" and ne: "rw_buckets w \<noteq> []" and r: "0 < res w"
    and i: "L \<le> i" "i < L + length (rw_buckets w)"
    and begun: "start_of w + i * res w \<le> c" and upto: "c \<le> e" "e \<le> start_of w + (i + 1) * res w"
    and f: "\<And>b. bu_index (f b) = bu_index b" "\<And>b. bu_untrusted (f b) = bu_untrusted b + d"
    and d: "d \<noteq> 0 \<Longrightarrow> start_of w + i * res w < e"
  shows "covers (slot_mut D w i f) (\<lambda>j. V j + (if j = i then d else 0)) e L"
proof -
  let ?w = "slot_mut D w i f" and ?n = "length (rw_buckets w)"
  have before: "j < i \<and> start_of w + j * res w < c" if "start_of w + j * res w < e" "j \<noteq> i" for j
  proof -
    have "j \<le> i" using index_unique [of "start_of w" j "res w" "start_of w + j * res w" i] that(1) upto(2) by linarith
    with that(2) have "j < i" by simp
    then have "(j + 1) * res w \<le> i * res w" by (intro mult_le_mono1) simp
    with r begun \<open>j < i\<close> show ?thesis by simp
  qed
  have V_i: "V i = 0" if "bu_index (ring_at w i) \<noteq> Some i"
    using cov that i(1) unfolding covers_def by (meson not_le)
  have u_i: "bu_untrusted (ring_at w i) = V i" if "bu_index (ring_at w i) = Some i"
    using cov that i(1) unfolding covers_def by blast
  have idx_i: "bu_index (ring_at ?w i) = Some i" and unt_i: "bu_untrusted (ring_at ?w i) = V i + d"
    using V_i u_i by (auto simp: ring_at_slot_mut [OF ne] f)
  have other: "ring_at ?w j = ring_at w j" if "j mod ?n \<noteq> i mod ?n" for j
    using that by (simp add: ring_at_slot_mut [OF ne])
  have same: "bu_index (ring_at ?w j) = Some i" if "j mod ?n = i mod ?n" for j
    using that by (simp add: ring_at_slot_mut [OF ne] f)
  have c1: "bu_index (ring_at ?w j) = Some j" if "L \<le> j" "start_of w + j * res w < e" for j
  proof (cases "j = i")
    case False
    with that(2) have j: "j < i" "start_of w + j * res w < c" using before by blast+
    then have "bu_index (ring_at w j) = Some j" using cov that(1) unfolding covers_def by blast
    moreover have "j mod ?n \<noteq> i mod ?n"
      using mod_window_inj [of j ?n i L] i that(1) j(1) by linarith
    ultimately show ?thesis by (simp add: other)
  qed (use idx_i in simp)
  have c2: "bu_untrusted (ring_at ?w j) = V j + (if j = i then d else 0)"
    if "L \<le> j" "bu_index (ring_at ?w j) = Some j" for j
  proof (cases "j mod ?n = i mod ?n")
    case True
    with same that(2) have "j = i" by fastforce
    with unt_i show ?thesis by simp
  next
    case False
    with that have "bu_index (ring_at w j) = Some j" by (simp add: other)
    with cov that(1) have "bu_untrusted (ring_at w j) = V j" unfolding covers_def by blast
    with False show ?thesis by (auto simp: other)
  qed
  have c3: "start_of w + j * res w \<le> e" if "b \<in> set (rw_buckets ?w)" "bu_index b = Some j" for b j
  proof -
    from set_slot_mut [OF that(1)] consider "b \<in> set (rw_buckets w)" | "bu_index b = Some i"
      by (auto simp: f split: if_splits)
    then show ?thesis
    proof cases
      case 1
      with cov that(2) have "start_of w + j * res w \<le> c" unfolding covers_def by blast
      with upto(1) show ?thesis by simp
    qed (use that(2) begun upto(1) in simp)
  qed
  have c4: "V j + (if j = i then d else 0) = 0" if "e \<le> start_of w + j * res w" for j
  proof -
    have "V j = 0" using cov that upto(1) unfolding covers_def by (meson le_trans)
    with d that show ?thesis by (cases "d = 0") auto
  qed
  from c1 c2 c3 c4 show ?thesis unfolding covers_def slot_mut_fields by blast
qed

lemma charge_slice_fields [simp]:
  "rw_spec (charge_slice D w c e) = rw_spec w" "rw_origin (charge_slice D w c e) = rw_origin w"
  "rw_trusted (charge_slice D w c e) = rw_trusted w"
  "length (rw_buckets (charge_slice D w c e)) = length (rw_buckets w)"
  by (simp_all add: charge_slice_def)

text \<open>What passing from \<open>c\<close> to \<open>e\<close> in a trust state adds to the untrusted time of a bucket.\<close>

definition untrusted_gain :: "'d rolling_windows \<Rightarrow> instant \<Rightarrow> instant \<Rightarrow> nat \<Rightarrow> duration" where
  "untrusted_gain w c e i = (if rw_trusted w then 0 else overlap (start_of w) (res w) i c e)"

lemma covers_charge_slice:
  assumes cov: "covers w V (mono_t c) L" and ne: "rw_buckets w \<noteq> []" and r: "0 < res w"
    and now: "in_range w (mono_t now)" "start_of w \<le> mono_t c" "mono_t c < mono_t now"
    and L: "L \<le> index_at w c" "index_at w now < L + length (rw_buckets w)"
  shows "covers (charge_slice D w c now)
    (\<lambda>i. V i + untrusted_gain w (mono_t c) (mono_t (slice_end w c now)) i)
    (mono_t (slice_end w c now)) L"
proof -
  let ?e = "mono_t (slice_end w c now)" and ?i = "index_at w c"
  note stop = slice_end_facts [OF now(1) r now(2,3)]
  have c: "in_range w (mono_t c)" using now by (simp add: in_range_def)
  note b = index_at_bounds [OF c r]
  have i: "?i < L + length (rw_buckets w)"
    using index_at_mono [OF c now(1) r] now(3) L(2) by linarith
  let ?d = "if rw_trusted w then 0 else ?e - mono_t c"
  have gain: "untrusted_gain w (mono_t c) ?e j = (if j = ?i then ?d else 0)" for j
    using overlap_slice [OF b(1) stop(3)] stop(1) by (simp add: untrusted_gain_def)
  have "covers (slot_mut D w ?i (\<lambda>b. if \<not> rw_trusted w
      then b\<lparr> bu_untrusted := bu_untrusted b + since (slice_end w c now) c \<rparr> else b))
    (\<lambda>j. V j + (if j = ?i then ?d else 0)) ?e L"
  proof (rule covers_touch [OF cov ne r L(1) i b(1) _ stop(3)])
    show "mono_t c \<le> ?e" using stop(1) by simp
    show "start_of w + ?i * res w < ?e" using b(1) stop(1) by linarith
  qed (auto simp: since_def)
  then show ?thesis by (simp only: charge_slice_def gain)
qed

lemma charge_loop_fields [simp]:
  "rw_spec (charge_loop D w c e) = rw_spec w \<and> rw_origin (charge_loop D w c e) = rw_origin w
   \<and> rw_trusted (charge_loop D w c e) = rw_trusted w
   \<and> length (rw_buckets (charge_loop D w c e)) = length (rw_buckets w)"
proof (induction D w c e rule: charge_loop.induct)
  case (1 D w c e)
  show ?case
  proof (cases "mono_t c < mono_t e \<and> \<not> mono_t (slice_end w c e) \<le> mono_t c")
    case True
    with "1.IH" show ?thesis by (simp add: charge_loop.simps [of D w c e] Let_def)
  next
    case False
    then show ?thesis by (auto simp: charge_loop.simps [of D w c e] Let_def)
  qed
qed

lemma covers_cong:
  "covers w V c L \<Longrightarrow> (\<And>i. L \<le> i \<Longrightarrow> V i = V' i) \<Longrightarrow> (\<And>i. c \<le> start_of w + i * res w \<Longrightarrow> V' i = 0)
    \<Longrightarrow> covers w V' c L"
  by (simp add: covers_def)

lemma covers_charge_loop:
  assumes "covers w V (mono_t c) L" and "rw_buckets w \<noteq> []" and "0 < res w"
    and "in_range w (mono_t now)" "start_of w \<le> mono_t c" "mono_t c \<le> mono_t now"
    and "L \<le> index_at w c" "index_at w now < L + length (rw_buckets w)"
  shows "covers (charge_loop D w c now) (\<lambda>i. V i + untrusted_gain w (mono_t c) (mono_t now) i)
    (mono_t now) L"
  using assms
proof (induction D w c now arbitrary: V rule: charge_loop.induct)
  case (1 D w c now)
  show ?case
  proof (cases "mono_t c < mono_t now")
    case True
    let ?s = "slice_end w c now" and ?w = "charge_slice D w c now"
    note stop = slice_end_facts [OF "1.prems"(4,3,5) True]
    have cov: "covers ?w (\<lambda>i. V i + untrusted_gain w (mono_t c) (mono_t ?s) i) (mono_t ?s) L"
      using covers_charge_slice "1.prems" True by blast
    have idx: "index_at ?w t = index_at w t" for t by (simp add: index_at_def)
    have rng: "in_range ?w t = in_range w t" for t by (simp add: in_range_def)
    have c: "in_range w (mono_t c)" "in_range w (mono_t ?s)"
      using "1.prems"(4,5) True stop by (auto simp: in_range_def)
    have "L \<le> index_at w ?s"
      using index_at_mono [OF c "1.prems"(3)] stop(1) "1.prems"(7) by linarith
    moreover have "rw_buckets ?w \<noteq> []"
      using "1.prems"(2) charge_slice_fields(4) [of D w c now] by (metis length_0_conv)
    ultimately have "covers (charge_loop D ?w ?s now)
        (\<lambda>i. V i + untrusted_gain w (mono_t c) (mono_t ?s) i + untrusted_gain ?w (mono_t ?s) (mono_t now) i)
        (mono_t now) L"
      using "1.IH" [OF True refl refl _ cov] stop "1.prems" True by (auto simp: idx rng)
    moreover have "untrusted_gain w (mono_t c) (mono_t ?s) i + untrusted_gain ?w (mono_t ?s) (mono_t now) i
        = untrusted_gain w (mono_t c) (mono_t now) i" for i
      using overlap_add [of "mono_t c" "mono_t ?s" "mono_t now"] stop by (simp add: untrusted_gain_def)
    ultimately show ?thesis
      using stop(1) True by (simp add: charge_loop.simps [of D w c now] Let_def add.assoc)
  next
    case False
    then have "untrusted_gain w (mono_t c) (mono_t now) i = 0" for i
      using "1.prems"(6) by (auto simp: untrusted_gain_def overlap_def)
    with False "1.prems" show ?thesis by (simp add: charge_loop.simps [of D w c now])
  qed
qed

text \<open>
  The accounting of a ring of the right size: from the oldest bucket any window can reach,
  everything up to \<open>charged_to\<close> is recorded.
\<close>

definition accounted :: "'d rolling_windows \<Rightarrow> (nat \<Rightarrow> duration) \<Rightarrow> bool" where
  "accounted w V \<longleftrightarrow> 0 < res w
     \<and> length (rw_buckets w) = buckets_for (longest (rw_spec w)) (res w) + 1
     \<and> in_range w (mono_t (rw_charged_to w))
     \<and> covers w V (mono_t (rw_charged_to w))
         (index_at w (rw_charged_to w) + 1 - length (rw_buckets w))"

lemma covers_raise: "covers w V c L \<Longrightarrow> L \<le> L' \<Longrightarrow> covers w V c L'"
  unfolding covers_def by (meson le_trans)

lemma covers_update [simp]:
  "covers (w\<lparr> rw_charged_to := t \<rparr>) V c L = covers w V c L"
  "covers (w\<lparr> rw_trusted := b \<rparr>) V c L = covers w V c L"
  by (simp_all add: covers_def ring_at_def)

lemma covers_skip:
  assumes cov: "covers w V c L" and c: "c < start_of w + L' * res w" and ne: "rw_buckets w \<noteq> []"
  shows "covers w V (start_of w + L' * res w) L'"
proof -
  have past: "c < start_of w + i * res w" if "L' \<le> i" for i
    using c mult_le_mono1 [OF that, of "res w"] by linarith
  have "bu_index (ring_at w i) \<noteq> Some i" if "L' \<le> i" for i
    using cov ring_at_in [OF ne] past [OF that] unfolding covers_def by (meson not_le)
  moreover have "\<not> start_of w + i * res w < start_of w + L' * res w" if "L' \<le> i" for i
    using mult_le_mono1 [OF that, of "res w"] by linarith
  moreover have "start_of w + j * res w \<le> start_of w + L' * res w"
    if "b \<in> set (rw_buckets w)" "bu_index b = Some j" for b j
  proof -
    have "start_of w + j * res w \<le> c" using cov that unfolding covers_def by blast
    with c show ?thesis by linarith
  qed
  moreover have "V i = 0" if "start_of w + L' * res w \<le> start_of w + i * res w" for i
    using cov c that unfolding covers_def by (meson le_trans less_imp_le)
  ultimately show ?thesis unfolding covers_def by blast
qed

lemma charge_fields [simp]:
  "rw_spec (charge D w t) = rw_spec w" "rw_origin (charge D w t) = rw_origin w"
  "rw_trusted (charge D w t) = rw_trusted w" "length (rw_buckets (charge D w t)) = length (rw_buckets w)"
  by (simp_all add: charge_def Let_def)

text \<open>Charging up to an instant adds exactly the time passed since, bucket by bucket.\<close>

lemma accounted_charge:
  assumes acc: "accounted w V" and now: "in_range w (mono_t now)" "mono_t (rw_charged_to w) \<le> mono_t now"
  shows "accounted (charge D w now) (\<lambda>i. V i + untrusted_gain w (mono_t (rw_charged_to w)) (mono_t now) i)
    \<and> mono_t (rw_charged_to (charge D w now)) = mono_t now"
proof (cases "mono_t (rw_charged_to w) < mono_t now")
  case True
  let ?c = "rw_charged_to w" and ?n = "length (rw_buckets w)" and ?stop = "index_at w now"
  let ?L = "?stop + 1 - ?n"
  have r: "0 < res w" and n: "?n = buckets_for (longest (rw_spec w)) (res w) + 1"
    and c: "in_range w (mono_t ?c)" and cov0: "covers w V (mono_t ?c) (index_at w ?c + 1 - ?n)"
    using acc unfolding accounted_def by blast+
  have ne: "rw_buckets w \<noteq> []" and n1: "0 < ?n" using n by auto
  have mono: "index_at w ?c \<le> ?stop" using index_at_mono [OF c now(1) r] True by simp
  have cov: "covers w V (mono_t ?c) ?L" using cov0 by (rule covers_raise) (use mono in simp)
  have gain0: "V' = V'' \<Longrightarrow> V' = V''" for V' V'' :: "nat \<Rightarrow> nat" .
  define cur where "cur = (if ?n \<le> ?stop - index_at w ?c then bucket_start w (?stop - ?n + 1) else ?c)"
  have eq: "charge D w now = (charge_loop D w cur now)\<lparr> rw_charged_to := now \<rparr>"
    using True by (simp add: charge_def cur_def Let_def)
  have loop: "covers (charge_loop D w cur now) (\<lambda>i. V i + untrusted_gain w (mono_t ?c) (mono_t now) i)
      (mono_t now) ?L"
  proof (cases "?n \<le> ?stop - index_at w ?c")
    case False
    then have cur: "cur = ?c" by (simp add: cur_def)
    have "?L \<le> index_at w ?c" using False n1 by linarith
    with covers_charge_loop [OF cov ne r now(1) _ _ _ , where D = D] c True show ?thesis
      unfolding cur by (simp add: in_range_def)
  next
    case skip: True
    then have L: "?stop - ?n + 1 = ?L" using n1 by linarith
    note b = index_at_bounds [OF now(1) r] and bc = index_at_bounds [OF c r]
    have "(index_at w ?c + 1) * res w \<le> ?L * res w" using skip L n1 by (intro mult_le_mono1) linarith
    then have far: "mono_t ?c < start_of w + ?L * res w" using bc(2) by linarith
    have "?L * res w \<le> ?stop * res w" using n1 by (intro mult_le_mono1) linarith
    then have upto: "start_of w + ?L * res w \<le> mono_t now" using b(1) by linarith
    have "cur = bucket_start w ?L" using skip by (simp only: cur_def L if_True)
    moreover have "?L * res w \<le> u64_max" "start_of w + ?L * res w \<le> instant_max"
      using upto now(1) unfolding in_range_def by linarith+
    ultimately have cur: "mono_t cur = start_of w + ?L * res w" by (simp only: bucket_start_eq)
    have "index_at w cur = ?L"
    proof -
      have "in_range w (mono_t cur)" using now(1) upto unfolding cur in_range_def by linarith
      from index_at_eq [OF this r] r show ?thesis unfolding cur by (simp only: diff_add_inverse nonzero_mult_div_cancel_right neq0_conv)
    qed
    moreover have "covers w V (mono_t cur) ?L"
      unfolding cur using cov far ne by (rule covers_skip)
    ultimately have "covers (charge_loop D w cur now) (\<lambda>i. V i + untrusted_gain w (mono_t cur) (mono_t now) i)
        (mono_t now) ?L"
      using covers_charge_loop [of w V cur ?L now D] ne r now(1) cur upto n1 by simp
    then show ?thesis
    proof (rule covers_cong)
      fix i assume "?L \<le> i"
      then have "mono_t cur \<le> start_of w + i * res w" unfolding cur by (simp add: mult_le_mono1)
      then have "overlap (start_of w) (res w) i (mono_t ?c) (mono_t cur) = 0" by (rule overlap_before)
      then show "V i + untrusted_gain w (mono_t cur) (mono_t now) i
          = V i + untrusted_gain w (mono_t ?c) (mono_t now) i"
        using overlap_add [of "mono_t ?c" "mono_t cur" "mono_t now" "start_of w" "res w" i] far upto
        unfolding cur by (simp add: untrusted_gain_def)
    next
      fix i assume *: "mono_t now \<le> start_of (charge_loop D w cur now) + i * res (charge_loop D w cur now)"
      then have "V i = 0" using cov True unfolding covers_def by simp
      with * show "V i + untrusted_gain w (mono_t ?c) (mono_t now) i = 0"
        by (simp add: untrusted_gain_def overlap_before)
    qed
  qed
  have "index_at (charge D w now) t = index_at w t" for t by (simp add: index_at_def)
  with loop r n now(1) show ?thesis
    by (simp add: eq accounted_def in_range_def index_at_def del: One_nat_def)
next
  case False
  then have "untrusted_gain w (mono_t (rw_charged_to w)) (mono_t now) i = 0" for i
    using now(2) by (auto simp: untrusted_gain_def overlap_def)
  with False now acc show ?thesis by (simp add: charge_def)
qed

lemma accounted_touch:
  assumes acc: "accounted w V" and now: "mono_t now = mono_t (rw_charged_to w)"
    and f: "\<And>b. bu_index (f b) = bu_index b" "\<And>b. bu_untrusted (f b) = bu_untrusted b"
  shows "accounted (slot_mut D w (index_at w now) f) V"
proof -
  let ?c = "rw_charged_to w"
  have r: "0 < res w" and n: "length (rw_buckets w) = buckets_for (longest (rw_spec w)) (res w) + 1"
    and c: "in_range w (mono_t ?c)"
    and cov: "covers w V (mono_t ?c) (index_at w ?c + 1 - length (rw_buckets w))"
    using acc unfolding accounted_def by blast+
  have idx: "index_at w now = index_at w ?c" using now by (simp add: index_at_def since_def)
  note b = index_at_bounds [OF c r]
  have "covers (slot_mut D w (index_at w ?c) f) (\<lambda>j. V j + (if j = index_at w ?c then 0 else 0)) (mono_t ?c)
      (index_at w ?c + 1 - length (rw_buckets w))"
  proof (rule covers_touch [OF cov _ r _ _ b(1) le_refl])
    show "rw_buckets w \<noteq> []" using n by auto
    show "mono_t ?c \<le> start_of w + (index_at w ?c + 1) * res w" using b(2) by linarith
    show "index_at w ?c + 1 - length (rw_buckets w) \<le> index_at w ?c"
      and "index_at w ?c < index_at w ?c + 1 - length (rw_buckets w) + length (rw_buckets w)"
      using n by linarith+
  qed (use f in simp_all)
  with r n c show ?thesis
    by (simp add: accounted_def in_range_def index_at_def since_def now del: One_nat_def)
qed

lemma accounted_trusted [simp]: "accounted (w\<lparr> rw_trusted := b \<rparr>) V = accounted w V"
  by (simp add: accounted_def in_range_def index_at_def)

lemma index_at_trusted [simp]: "index_at (w\<lparr> rw_trusted := b \<rparr>) t = index_at w t"
  by (simp add: index_at_def)

text \<open>The events that feed the windows, in the words of the trust history.\<close>

datatype 'd window_event = BookSample "'d top_of_book_view" | Print 'd 'd

fun window_step ::
  "('d, 'z) decimal_ops_scheme \<Rightarrow> 'd rolling_windows \<Rightarrow> 'd window_event \<times> ingest_time \<Rightarrow> 'd rolling_windows" where
  "window_step D w (BookSample tob, t) = window_observe D w tob t"
| "window_step D w (Print p q, t) = observe_trade D w p q t"

text \<open>
  The specification: trust changes only at book samples, and all time spent untrusted is
  attributed to the buckets it falls in.
\<close>

type_synonym trust_log = "bool \<times> instant \<times> (nat \<Rightarrow> duration)"

fun trust_step :: "instant \<Rightarrow> duration \<Rightarrow> trust_log \<Rightarrow> 'd window_event \<times> ingest_time \<Rightarrow> trust_log" where
  "trust_step s r (tr, c, V) (ev, t) =
     ((case ev of BookSample tob \<Rightarrow> is_live (top_state tob) | Print _ _ \<Rightarrow> tr), mono_t t,
      \<lambda>i. V i + (if tr then 0 else overlap s r i c (mono_t t)))"

definition logs :: "'d rolling_windows \<Rightarrow> trust_log \<Rightarrow> bool" where
  "logs w l \<longleftrightarrow> accounted w (snd (snd l)) \<and> rw_trusted w = fst l
     \<and> mono_t (rw_charged_to w) = fst (snd l)"

lemma window_observe_fields [simp]:
  "rw_spec (window_observe D w tob t) = rw_spec w" "rw_origin (window_observe D w tob t) = rw_origin w"
  by (simp_all add: window_observe_def Let_def split: book_state.splits option.splits)

lemma observe_trade_fields [simp]:
  "rw_spec (observe_trade D w p q t) = rw_spec w" "rw_origin (observe_trade D w p q t) = rw_origin w"
  by (simp_all add: observe_trade_def Let_def)

lemma window_step_fields [simp]:
  "rw_spec (window_step D w e) = rw_spec w" "rw_origin (window_step D w e) = rw_origin w"
  by (cases "(D, w, e)" rule: window_step.cases; simp)+

lemma logs_step:
  assumes "logs w l" and "in_range w (mono_t t)" and "fst (snd l) \<le> mono_t t"
  shows "logs (window_step D w (ev, t)) (trust_step (start_of w) (res w) l (ev, t))"
proof -
  obtain tr c V where l: "l = (tr, c, V)" by (cases l)
  have w: "accounted w V" "rw_trusted w = tr" "mono_t (rw_charged_to w) = c" "c \<le> mono_t t"
    using assms(1,3) by (simp_all add: logs_def l)
  let ?V = "\<lambda>i. V i + (if tr then 0 else overlap (start_of w) (res w) i c (mono_t t))"
  have "accounted (charge D w t) ?V" and at_t: "mono_t (rw_charged_to (charge D w t)) = mono_t t"
    using accounted_charge [OF w(1) assms(2), where D = D] w by (simp_all add: untrusted_gain_def)
  then have touch: "accounted (slot_mut D (charge D w t) (index_at (charge D w t) t) f) ?V"
    if "\<And>b. bu_index (f b) = bu_index b" "\<And>b. bu_untrusted (f b) = bu_untrusted b" for f
    using that by (intro accounted_touch) auto
  have touch': "accounted (slot_mut D (charge D w t \<lparr> rw_trusted := True \<rparr>) (index_at (charge D w t) t) f) ?V"
    if "\<And>b. bu_index (f b) = bu_index b" "\<And>b. bu_untrusted (f b) = bu_untrusted b" for f
    using accounted_touch [of "charge D w t \<lparr> rw_trusted := True \<rparr>" ?V t f D] that
      \<open>accounted (charge D w t) ?V\<close> at_t by simp
  show ?thesis
  proof (cases ev)
    case (BookSample tob)
    then show ?thesis
      using \<open>accounted (charge D w t) ?V\<close> at_t touch'
      by (simp add: l logs_def window_observe_def Let_def bucket_record_def
          split: book_state.splits option.splits)
  next
    case (Print p q)
    then show ?thesis
      using touch at_t w(2) by (simp add: l logs_def observe_trade_def Let_def bucket_record_trade_def)
  qed
qed

section \<open>What a reading reports\<close>

lemma read_bucket_trusted:
  "wr_trusted_ms (fst (read_bucket D w acc i)) = wr_trusted_ms (fst acc) +
     (case slot w i of None \<Rightarrow> 0 | Some b \<Rightarrow> millis_u64 (res w - bu_untrusted b))"
  by (cases acc) (simp add: read_bucket_def Let_def split: option.splits)

lemma read_buckets_trusted:
  "wr_trusted_ms (fst (foldl (read_bucket D w) acc is)) = wr_trusted_ms (fst acc) +
     (\<Sum>i\<leftarrow>is. case slot w i of None \<Rightarrow> 0 | Some b \<Rightarrow> millis_u64 (res w - bu_untrusted b))"
  by (induction "is" arbitrary: acc) (simp_all add: read_bucket_trusted)

lemma finish_fields [simp]:
  "wr_trusted_ms (finish_samples D out a b) = wr_trusted_ms out"
  "wr_trusted_ms (finish_trades D out a b) = wr_trusted_ms out"
  "wr_span_ms (finish_samples D out a b) = wr_span_ms out"
  "wr_span_ms (finish_trades D out a b) = wr_span_ms out"
  "wr_samples (finish_samples D out a b) = wr_samples out"
  "wr_samples (finish_trades D out a b) = wr_samples out"
  "wr_trades (finish_samples D out a b) = wr_trades out"
  "wr_trades (finish_trades D out a b) = wr_trades out"
  by (simp_all add: finish_samples_def finish_trades_def Let_def)

text \<open>The buckets a window of \<open>k\<close> buckets examines when bucket \<open>stop\<close> is in progress.\<close>

definition window_buckets :: "nat \<Rightarrow> nat \<Rightarrow> nat list" where
  "window_buckets k stop = [stop - max k 1..<stop]"

definition span_acc_start :: "('d, 'z) decimal_ops_scheme \<Rightarrow> 'd rolling_windows \<Rightarrow> duration \<Rightarrow> 'd span_acc" where
  "span_acc_start D w spn =
     (window_reading_empty (span_millis w spn), d_zero D, d_zero D, d_zero D, d_zero D)"

definition span_acc_finish :: "('d, 'z) decimal_ops_scheme \<Rightarrow> 'd span_acc \<Rightarrow> 'd window_reading" where
  "span_acc_finish D acc = (case acc of (out, sum_mid, sum_spread, sum_qty, sum_price_qty) \<Rightarrow>
     finish_samples D (finish_trades D out sum_qty sum_price_qty) sum_mid sum_spread)"

lemma read_span_fold:
  "read_span D w spn stop = (if stop = 0 then window_reading_empty (span_millis w spn)
     else span_acc_finish D (foldl (read_bucket D w) (span_acc_start D w spn)
       (window_buckets (buckets_for spn (res w)) stop)))"
proof (cases "stop = 0")
  case True
  then show ?thesis by (simp add: read_span_def)
next
  case False
  then have eq: "[stop - 1 - (buckets_for spn (res w) - 1)..<stop - 1 + 1]
      = window_buckets (buckets_for spn (res w)) stop"
    by (simp add: window_buckets_def max_def)
  show ?thesis
    unfolding read_span_def Let_def eq span_acc_start_def span_acc_finish_def using False by simp
qed

lemma span_acc_finish_fields [simp]:
  "wr_trusted_ms (span_acc_finish D acc) = wr_trusted_ms (fst acc)"
  "wr_span_ms (span_acc_finish D acc) = wr_span_ms (fst acc)"
  "wr_samples (span_acc_finish D acc) = wr_samples (fst acc)"
  "wr_trades (span_acc_finish D acc) = wr_trades (fst acc)"
  by (cases acc; simp add: span_acc_finish_def)+

lemma read_span_trusted:
  "wr_trusted_ms (read_span D w spn stop) =
     (\<Sum>i\<leftarrow>window_buckets (buckets_for spn (res w)) stop.
        case slot w i of None \<Rightarrow> 0 | Some b \<Rightarrow> millis_u64 (res w - bu_untrusted b))"
  by (simp add: read_span_fold read_buckets_trusted span_acc_start_def)
    (simp add: window_reading_empty_def window_buckets_def)

lemma millis_sum_le:
  assumes "\<And>i. g i \<le> r div 1000000"
  shows "sum_list (map g is) \<le> (length is * r) div 1000000"
proof (induction "is")
  case Nil
  then show ?case by simp
next
  case (Cons i "is")
  have "r div 1000000 + (length is * r) div 1000000 \<le> (r + length is * r) div 1000000"
    unfolding div_add1_eq [of r "length is * r"] by (rule le_add1)
  with Cons assms [of i] show ?case by simp
qed

text \<open>Extremes bracket what was sampled, and are present together with it.\<close>

fun brackets ::
  "('d, 'z) decimal_ops_scheme \<Rightarrow> 'd option \<Rightarrow> 'd option \<Rightarrow> 'd option \<Rightarrow> bool" where
  "brackets D (Some lo) (Some x) (Some hi) = (d_le D lo x \<and> d_le D x hi)"
| "brackets D None None None = True"
| "brackets D _ _ _ = False"

lemma brackets_join:
  "brackets D lo x hi \<Longrightarrow> brackets D lo' y hi' \<Longrightarrow>
     brackets D (opt_join (d_min D) lo lo') (opt_or x y) (opt_join (d_max D) hi hi')
     \<and> brackets D (opt_join (d_min D) lo lo') (opt_or y x) (opt_join (d_max D) hi hi')"
  by (cases "(D, lo, x, hi)" rule: brackets.cases; cases "(D, lo', y, hi')" rule: brackets.cases)
    (auto simp: opt_or_def)

lemma brackets_None: "brackets D lo x hi \<Longrightarrow> (x = None \<longleftrightarrow> lo = None) \<and> (x = None \<longleftrightarrow> hi = None)"
  by (cases "(D, lo, x, hi)" rule: brackets.cases) auto

definition bucket_ok :: "('d, 'z) decimal_ops_scheme \<Rightarrow> 'd bucket \<Rightarrow> bool" where
  "bucket_ok D b \<longleftrightarrow> brackets D (bu_low b) (bu_first b) (bu_high b)
     \<and> brackets D (bu_low b) (bu_last b) (bu_high b)
     \<and> (bu_samples b = 0 \<longleftrightarrow> bu_first b = None) \<and> (bu_integrity b = None \<longleftrightarrow> bu_first b = None)"

definition buckets_ok :: "('d, 'z) decimal_ops_scheme \<Rightarrow> 'd rolling_windows \<Rightarrow> bool" where
  "buckets_ok D w \<longleftrightarrow> rw_buckets w \<noteq> [] \<and> (\<forall>b \<in> set (rw_buckets w). bucket_ok D b)"

lemma bucket_ok_reset [simp]: "bucket_ok D (bucket_reset D i)" "bucket_ok D (bucket_default D)"
  by (simp_all add: bucket_ok_def bucket_reset_def bucket_default_def)

lemma bucket_ok_record: "bucket_ok D b \<Longrightarrow> bucket_ok D (bucket_record D mid spread i b)"
  unfolding bucket_ok_def
  by (cases "(D, bu_low b, bu_first b, bu_high b)" rule: brackets.cases;
      cases "(D, bu_low b, bu_last b, bu_high b)" rule: brackets.cases)
    (auto simp: bucket_record_def split: option.splits)

lemma bucket_ok_trade: "bucket_ok D b \<Longrightarrow> bucket_ok D (bucket_record_trade D p q b)"
  by (simp add: bucket_ok_def bucket_record_trade_def)

lemma buckets_ok_slot_mut:
  assumes "buckets_ok D w" and "\<And>b. bucket_ok D b \<Longrightarrow> bucket_ok D (f b)"
  shows "buckets_ok D (slot_mut D w i f)"
proof -
  have "slot_of w i < length (rw_buckets w)"
    using assms(1) by (simp add: buckets_ok_def slot_of_def max_def)
  then have "bucket_ok D (rw_buckets w ! slot_of w i)"
    using assms(1) by (simp add: buckets_ok_def)
  then have old: "bucket_ok D (f (if bu_index (rw_buckets w ! slot_of w i) \<noteq> Some i then bucket_reset D i
      else rw_buckets w ! slot_of w i))"
    using assms(2) by simp
  have "bucket_ok D b" if "b \<in> set (rw_buckets (slot_mut D w i f))" for b
    using set_slot_mut [OF that] old assms(1) unfolding buckets_ok_def by blast
  moreover have "rw_buckets (slot_mut D w i f) \<noteq> []"
    using assms(1) by (simp add: buckets_ok_def slot_mut_def Let_def)
  ultimately show ?thesis by (simp add: buckets_ok_def)
qed

lemma buckets_ok_update [simp]:
  "buckets_ok D (w\<lparr> rw_trusted := t \<rparr>) = buckets_ok D w"
  "buckets_ok D (w\<lparr> rw_charged_to := c \<rparr>) = buckets_ok D w"
  by (simp_all add: buckets_ok_def)

lemma buckets_ok_charge_loop: "buckets_ok D w \<Longrightarrow> buckets_ok D (charge_loop D w c e)"
proof (induction D w c e rule: charge_loop.induct)
  case (1 D w c e)
  have "buckets_ok D (charge_slice D w c e)"
    unfolding charge_slice_def using "1.prems"
    by (rule buckets_ok_slot_mut) (simp add: bucket_ok_def)
  with 1 show ?case by (simp add: charge_loop.simps [of D w c e] Let_def)
qed

lemma buckets_ok_charge [wf_intros]: "buckets_ok D w \<Longrightarrow> buckets_ok D (charge D w t)"
  by (simp add: charge_def Let_def buckets_ok_charge_loop)

lemma buckets_ok_step [wf_intros]: "buckets_ok D w \<Longrightarrow> buckets_ok D (window_step D w e)"
proof (cases "(D, w, e)" rule: window_step.cases)
  case (1 D' w' tob t)
  assume "buckets_ok D w"
  with 1 show ?thesis
    by (auto simp: window_observe_def Let_def intro!: buckets_ok_slot_mut bucket_ok_record buckets_ok_charge
        split: book_state.splits option.splits)
next
  case (2 D' w' p q t)
  assume "buckets_ok D w"
  with 2 show ?thesis
    by (auto simp: observe_trade_def Let_def intro!: buckets_ok_slot_mut bucket_ok_trade buckets_ok_charge)
qed

lemma buckets_ok_new: "buckets_ok D (rolling_windows_new D spec now)"
  by (simp add: buckets_ok_def rolling_windows_new_def Let_def u64_max_def)

section \<open>Properties\<close>

definition reading_ok :: "('d, 'z) decimal_ops_scheme \<Rightarrow> 'd window_reading \<Rightarrow> bool" where
  "reading_ok D r \<longleftrightarrow> brackets D (wr_low r) (wr_first r) (wr_high r)
     \<and> brackets D (wr_low r) (wr_last r) (wr_high r)
     \<and> (wr_samples r = 0 \<longleftrightarrow> wr_first r = None) \<and> (wr_integrity_floor r = None \<longleftrightarrow> wr_first r = None)"

lemma reading_ok_bucket:
  assumes "reading_ok D (fst acc)" and "buckets_ok D w"
  shows "reading_ok D (fst (read_bucket D w acc i))"
proof (cases "slot w i")
  case None
  with assms show ?thesis by (simp add: read_bucket_def)
next
  case (Some b)
  then have "bucket_ok D b"
    using assms(2) by (auto simp: slot_def buckets_ok_def split: if_splits)
  then show ?thesis
    using assms(1) Some brackets_join [of D "wr_low (fst acc)" "wr_first (fst acc)" "wr_high (fst acc)" "bu_low b" "bu_first b" "bu_high b"]
      brackets_join [of D "wr_low (fst acc)" "wr_last (fst acc)" "wr_high (fst acc)" "bu_low b" "bu_last b" "bu_high b"]
    by (cases acc) (simp add: read_bucket_def Let_def reading_ok_def bucket_ok_def)
qed

lemma read_buckets_aux:
  assumes "buckets_ok D w"
  shows "let out = fst (foldl (read_bucket D w) (span_acc_start D w spn) is)
    in reading_ok D out \<and> wr_span_ms out = span_millis w spn \<and> wr_mean out = None \<and> wr_change_bps out = None
      \<and> wr_range_bps out = None \<and> wr_mean_spread_bps out = None \<and> wr_volume out = None \<and> wr_vwap out = None"
  unfolding Let_def
proof (rule foldl_invariant [where P = "\<lambda>acc. reading_ok D (fst acc) \<and> wr_span_ms (fst acc) = span_millis w spn
    \<and> wr_mean (fst acc) = None \<and> wr_change_bps (fst acc) = None \<and> wr_range_bps (fst acc) = None
    \<and> wr_mean_spread_bps (fst acc) = None \<and> wr_volume (fst acc) = None \<and> wr_vwap (fst acc) = None"], goal_cases)
  case 1
  then show ?case by (simp add: span_acc_start_def window_reading_empty_def reading_ok_def)
next
  case (2 acc i)
  then show ?case
    using reading_ok_bucket [OF _ assms, of acc i]
    by (cases acc) (simp add: read_bucket_def Let_def split: option.splits)
qed

lemma buckets_for_pos: "spn \<noteq> 0 \<Longrightarrow> 1 \<le> buckets_for spn r"
proof -
  assume "spn \<noteq> 0"
  moreover have "1 \<le> max r 1" by simp
  ultimately have "max r 1 \<le> spn + max r 1 - 1" by linarith
  then have "1 \<le> (spn + max r 1 - 1) div max r 1" by (simp add: div_greater_zero_iff Suc_le_eq)
  then show ?thesis by (simp add: buckets_for_def sat_u64_def u64_max_def Let_def)
qed

lemma trusted_le_span:
  assumes "spn \<noteq> 0" and "res w * buckets_for spn (res w) \<le> u64_max" and "buckets_for spn (res w) \<le> u32_max"
  shows "wr_trusted_ms (read_span D w spn stop) \<le> span_millis w spn"
proof -
  let ?k = "buckets_for spn (res w)"
  have "millis_u64 (res w - u) \<le> res w div 1000000" for u
    using div_le_mono [of "res w - u" "res w" 1000000] by (simp add: millis_u64_def sat_u64_def)
  then have "(case slot w i of None \<Rightarrow> 0 | Some b \<Rightarrow> millis_u64 (res w - bu_untrusted b)) \<le> res w div 1000000" for i
    by (cases "slot w i") simp_all
  from millis_sum_le [OF this]
  have "wr_trusted_ms (read_span D w spn stop) \<le> length (window_buckets ?k stop) * res w div 1000000"
    unfolding read_span_trusted .
  also have "\<dots> \<le> ?k * res w div 1000000"
    using buckets_for_pos [OF assms(1), of "res w"]
    by (intro div_le_mono mult_le_mono1) (simp add: window_buckets_def max_def)
  also have "\<dots> = span_millis w spn"
  proof -
    have "res w * ?k \<le> duration_max"
      using assms(2) by (simp add: duration_max_def u64_max_def nanos_per_sec_def)
    moreover have "res w * ?k div 1000000 \<le> u64_max"
      using assms(2) by (meson div_le_dividend le_trans)
    ultimately show ?thesis
      using assms(3) by (simp add: span_millis_def millis_u64_def sat_u64_id sat_u32_id mult.commute)
  qed
  finally show ?thesis .
qed

lemma finish_shape:
  assumes "reading_ok D out" "wr_mean out = None" "wr_change_bps out = None" "wr_range_bps out = None"
    "wr_mean_spread_bps out = None" "wr_volume out = None" "wr_vwap out = None"
    and "r = span_acc_finish D (out, totals)"
  shows "reading_ok D r \<and> (wr_samples r = 0 \<longleftrightarrow> wr_mean r = None)
    \<and> (wr_samples r = 0 \<longrightarrow> wr_change_bps r = None \<and> wr_range_bps r = None \<and> wr_mean_spread_bps r = None)
    \<and> (wr_trades r = 0 \<longleftrightarrow> wr_volume r = None) \<and> (wr_vwap r \<noteq> None \<longrightarrow> 0 < wr_trades r)"
  using assms
  by (cases totals) (auto simp: span_acc_finish_def finish_trades_def finish_samples_def reading_ok_def Let_def)


text \<open>A tiny ring for the concrete instances: one window of two buckets of a millisecond.\<close>

definition tiny_windows :: "rat rolling_windows" where
  "tiny_windows = rolling_windows_new rat_decimals (window_spec_new 1000000 [2000000]) (sample_time 0)"


lemma longest_ge: "spn \<in> set (ws_spans spec) \<Longrightarrow> spn \<le> longest spec"
proof -
  have "x \<le> foldl max x xs \<and> (\<forall>y \<in> set xs. y \<le> foldl max x xs)" for x :: nat and xs
  proof (induction xs arbitrary: x)
    case (Cons a xs)
    from Cons [of "max x a"] show ?case by auto
  qed simp
  then show "spn \<in> set (ws_spans spec) \<Longrightarrow> spn \<le> longest spec" by (simp add: longest_def)
qed

lemma buckets_for_mono: "a \<le> b \<Longrightarrow> buckets_for a r \<le> buckets_for b r"
  unfolding buckets_for_def Let_def by (intro sat_u64_mono div_le_mono diff_le_mono add_le_mono1)

lemma accounted_slot:
  assumes acc: "accounted w V" and began: "start_of w + i * res w < mono_t (rw_charged_to w)"
    and i: "index_at w (rw_charged_to w) + 1 - length (rw_buckets w) \<le> i"
  shows "\<exists>b. slot w i = Some b \<and> bu_untrusted b = V i"
proof -
  have len: "length (rw_buckets w) = buckets_for (longest (rw_spec w)) (res w) + 1"
    and cov: "covers w V (mono_t (rw_charged_to w)) (index_at w (rw_charged_to w) + 1 - length (rw_buckets w))"
    using acc unfolding accounted_def by blast+
  then have n: "0 < length (rw_buckets w)" by linarith
  from cov began i have "bu_index (ring_at w i) = Some i" unfolding covers_def by blast
  moreover from this cov i have "bu_untrusted (ring_at w i) = V i" unfolding covers_def by blast
  moreover have "slot_of w i = i mod length (rw_buckets w)"
    using n by (simp add: slot_of_def max.absorb1 Suc_le_eq)
  ultimately show ?thesis using n by (simp add: slot_def ring_at_def)
qed

lemma accounted_reading:
  assumes acc: "accounted w V" and spn: "spn \<in> set (ws_spans (rw_spec w))" "spn \<noteq> 0"
    and stop: "stop = index_at w (rw_charged_to w)"
  shows "wr_trusted_ms (read_span D w spn stop) =
    (\<Sum>i\<leftarrow>window_buckets (buckets_for spn (res w)) stop. millis_u64 (res w - V i))"
proof -
  let ?k = "buckets_for spn (res w)"
  have n: "length (rw_buckets w) = buckets_for (longest (rw_spec w)) (res w) + 1" and r: "0 < res w"
    and c: "in_range w (mono_t (rw_charged_to w))"
    using acc unfolding accounted_def by blast+
  have k: "1 \<le> ?k" "?k \<le> buckets_for (longest (rw_spec w)) (res w)"
    using buckets_for_pos [OF spn(2)] buckets_for_mono [OF longest_ge [OF spn(1)]] by blast+
  have "(case slot w i of None \<Rightarrow> 0 | Some b \<Rightarrow> millis_u64 (res w - bu_untrusted b)) = millis_u64 (res w - V i)"
    if "i \<in> set (window_buckets ?k stop)" for i
  proof -
    have i: "stop - ?k \<le> i" "i < stop" using that k(1) by (simp_all add: window_buckets_def max_def)
    have "(i + 1) * res w \<le> stop * res w" using i(2) by (intro mult_le_mono1) simp
    then have "start_of w + i * res w < mono_t (rw_charged_to w)"
      using index_at_bounds(1) [OF c r] r unfolding stop by simp
    moreover have "index_at w (rw_charged_to w) + 1 - length (rw_buckets w) \<le> i"
      using i(1) k(2) n unfolding stop by linarith
    ultimately show ?thesis using accounted_slot [OF acc] by fastforce
  qed
  then show ?thesis unfolding read_span_trusted by (intro arg_cong [of _ _ sum_list] map_cong) simp_all
qed

lemma ring_at_new: "ring_at (rolling_windows_new D spec now) i = bucket_default D"
proof -
  have "0 < min (buckets_for (longest spec) (ws_resolution spec) + 1) u64_max" by (simp add: u64_max_def)
  then show ?thesis by (simp only: ring_at_def rolling_windows_new_def Let_def rolling_windows.simps
    length_replicate nth_replicate mod_less_divisor)
qed

lemma logs_new:
  assumes "spec = window_spec_new r spans" and "buckets_for (longest spec) (ws_resolution spec) < u64_max"
    and "mono_t t0 + ws_resolution spec \<le> instant_max" "ws_resolution spec \<le> u64_max"
  shows "logs (rolling_windows_new D spec t0) (False, mono_t t0, \<lambda>_. 0)"
proof -
  have "0 < ws_resolution spec"
    using assms(1) by (simp add: window_spec_new_def from_millis_def Let_def)
  moreover have "covers (rolling_windows_new D spec t0) (\<lambda>_. 0) (mono_t t0) L" for L
    unfolding covers_def ring_at_new
    by (auto simp: bucket_default_def rolling_windows_new_def Let_def)
  ultimately show ?thesis
    using assms(2-4) by (simp add: logs_def accounted_def)
      (simp add: rolling_windows_new_def Let_def in_range_def min_def)
qed

fun in_order :: "instant \<Rightarrow> ('d window_event \<times> ingest_time) list \<Rightarrow> instant \<Rightarrow> bool" where
  "in_order c [] now = (c \<le> now)"
| "in_order c ((ev, t) # evs) now = (c \<le> mono_t t \<and> in_order (mono_t t) evs now)"

lemma in_order_le: "in_order c evs now \<Longrightarrow> c \<le> now"
  by (induction c evs now rule: in_order.induct) auto

lemma logs_run:
  assumes "logs w l" and "in_order (fst (snd l)) evs now" and "in_range w now" and "start_of w \<le> fst (snd l)"
  shows "logs (foldl (window_step D) w evs) (foldl (trust_step (start_of w) (res w)) l evs)
    \<and> fst (snd (foldl (trust_step (start_of w) (res w)) l evs)) \<le> now
    \<and> rw_spec (foldl (window_step D) w evs) = rw_spec w \<and> rw_origin (foldl (window_step D) w evs) = rw_origin w"
  using assms
proof (induction evs arbitrary: w l)
  case Nil
  then show ?case by simp
next
  case (Cons e evs)
  obtain ev t where e: "e = (ev, t)" by (cases e)
  obtain tr c V where l: "l = (tr, c, V)" by (cases l)
  have t: "c \<le> mono_t t" "mono_t t \<le> now" "in_order (mono_t t) evs now"
    using Cons.prems(2) in_order_le by (auto simp: e l)
  have "in_range w (mono_t t)" using Cons.prems(3,4) t by (auto simp: in_range_def l)
  then have "logs (window_step D w e) (trust_step (start_of w) (res w) l e)"
    unfolding e using logs_step [OF Cons.prems(1)] t(1) by (simp add: l)
  from Cons.IH [OF this] Cons.prems(3,4) t show ?case
    by (simp add: e l in_range_def)
qed

text \<open>
  C9. Coverage is exact. Feed the windows any samples and prints in time order: every reading's
  \<open>trusted_ms\<close> is the sum, over the completed buckets of its window, of the part of the bucket
  during which the book was live, as the trust history of the samples alone defines it. The
  lazily cleared ring never mixes buckets up, and a stall longer than the ring loses nothing
  a window can still see.
\<close>

theorem trusted_time_is_exact:
  assumes "spec = window_spec_new r spans" and "buckets_for (longest spec) (ws_resolution spec) < u64_max"
    and "in_order (mono_t t0) evs (mono_t now)"
    and "mono_t now + ws_resolution spec \<le> mono_t t0 + u64_max"
    and "mono_t now + ws_resolution spec \<le> instant_max"
    and "foldl (trust_step (mono_t t0) (ws_resolution spec)) (False, mono_t t0, \<lambda>_. 0) evs = (tr, c, V)"
  shows "map wr_trusted_ms (fst (read_windows D (foldl (window_step D) (rolling_windows_new D spec t0) evs) now)) =
    map (\<lambda>spn. \<Sum>i\<leftarrow>window_buckets (buckets_for spn (ws_resolution spec))
                    ((mono_t now - mono_t t0) div ws_resolution spec).
           millis_u64 (ws_resolution spec -
             (V i + (if tr then 0 else overlap (mono_t t0) (ws_resolution spec) i c (mono_t now)))))
      (ws_spans spec)"
proof -
  let ?init = "rolling_windows_new D spec t0" and ?log = "(False, mono_t t0, \<lambda>_. 0) :: trust_log"
  let ?w = "foldl (window_step D) ?init evs" and ?r = "ws_resolution spec"
  let ?V = "\<lambda>i. V i + (if tr then 0 else overlap (mono_t t0) ?r i c (mono_t now))"
  have r: "0 < ?r" using assms(1) by (simp add: window_spec_new_def from_millis_def Let_def)
  have w0: "rw_spec ?init = spec" "rw_origin ?init = t0" by (simp_all add: rolling_windows_new_def Let_def)
  have le: "mono_t t0 \<le> mono_t now" using assms(3) by (rule in_order_le)
  have rng: "in_range ?init (mono_t now)" using assms(4,5) le by (simp add: in_range_def w0)
  have "logs ?init ?log" using assms le by (intro logs_new) auto
  from logs_run [OF this, of evs "mono_t now" D] assms(3,6) rng
  have run: "logs ?w (tr, c, V)" "c \<le> mono_t now" "rw_spec ?w = spec" "rw_origin ?w = t0"
    by (simp_all add: w0)
  have rng': "in_range ?w (mono_t now)" using rng by (simp add: in_range_def run w0)
  let ?w' = "charge D ?w now"
  have acc: "accounted ?w' ?V" and at_now: "mono_t (rw_charged_to ?w') = mono_t now"
  proof -
    have w: "accounted ?w V" "rw_trusted ?w = tr" "mono_t (rw_charged_to ?w) = c"
      using run(1) by (simp_all add: logs_def)
    have "mono_t (rw_charged_to ?w) \<le> mono_t now" using w(3) run(2) by simp
    note both = accounted_charge [OF w(1) rng' this, where D = D, unfolded untrusted_gain_def w(2,3) run(3,4)]
    from both show "accounted ?w' ?V" by (rule conjunct1)
    from both show "mono_t (rw_charged_to ?w') = mono_t now" by (rule conjunct2)
  qed
  have stop: "index_at ?w' t = (mono_t now - mono_t t0) div ?r" if "mono_t t = mono_t now" for t
  proof -
    have "in_range ?w' (mono_t t)" using rng' that by (simp add: in_range_def)
    from index_at_eq [OF this] r show ?thesis by (simp add: run that)
  qed
  have "wr_trusted_ms (read_span D ?w' spn (index_at ?w' now)) =
      (\<Sum>i\<leftarrow>window_buckets (buckets_for spn ?r) (index_at ?w' now). millis_u64 (?r - ?V i))"
    if "spn \<in> set (ws_spans spec)" for spn
  proof -
    have "?r \<le> spn" using that assms(1) by (auto simp: window_spec_new_def Let_def)
    with r have "spn \<noteq> 0" by simp
    from accounted_reading [OF acc _ this, of "index_at ?w' now" D] that stop [of now] stop [OF at_now]
    show ?thesis by (simp add: run)
  qed
  then show ?thesis
    using stop [of now] by (simp add: read_windows_def Let_def run del: window_step.simps)
qed

lemma trusted_time_is_exact_witness:
  "map wr_trusted_ms (fst (read_windows rat_decimals
     (foldl (window_step rat_decimals) (rolling_windows_new rat_decimals (window_spec_new 1000000 [2000000]) (sample_time 0))
        [(BookSample (top_of_book sample_book (sample_time 500000)), sample_time 500000),
         (Print 100 1, sample_time 2500000)]) (sample_time 3000000))) = [2]"
proof -
  have spec: "ws_resolution (window_spec_new 1000000 [2000000]) = 1000000"
    "ws_spans (window_spec_new 1000000 [2000000]) = [2000000]"
    by (simp_all add: window_spec_new_def from_millis_def Let_def)
  have k: "buckets_for 2000000 1000000 = 2" "longest (window_spec_new 1000000 [2000000]) = 2000000"
    by (simp_all add: buckets_for_def longest_def spec Let_def sat_u64_def u64_max_def)
  have live: "is_live (top_state (top_of_book sample_book t))" for t
    by (simp add: top_of_book_def sample_book_eq)
  let ?evs = "[(BookSample (top_of_book sample_book (sample_time 500000)), sample_time 500000),
    (Print 100 1, sample_time 2500000)]"
  have log: "foldl (trust_step (mono_t (sample_time 0)) (ws_resolution (window_spec_new 1000000 [2000000])))
      (False, mono_t (sample_time 0), \<lambda>_. 0) ?evs = (True, 2500000, \<lambda>i. overlap 0 1000000 i 0 500000)"
    by (simp add: spec live) (simp add: sample_time_def)
  have "[3 - 2..<3] = [1, 2::nat]" by (simp add: upt_rec)
  then show ?thesis
    using trusted_time_is_exact [OF refl _ _ _ _ log, of "sample_time 3000000" rat_decimals]
    by (simp add: spec k sample_time_def instant_max_def nanos_per_sec_def u64_max_def window_buckets_def
        overlap_def millis_u64_def sat_u64_def)
qed

end
