(* ===== verification/Cross.thy ===== *)
theory Cross
  imports Window
begin

text \<open>
  The consolidated touch across venues (\<open>ma-core/src/cross.rs\<close>): the highest bid and the
  lowest ask over the books that are live, fresh and hold a quote, with every other venue
  listed together with the reason it does not contribute.
\<close>

section \<open>Data\<close>

definition cross_policy_default_max_age :: duration where
  "cross_policy_default_max_age = from_secs 2"

record 'd cross_leg =
  cl_venue :: venue_id
  cl_price :: 'd
  cl_qty :: 'd
  cl_age_ms :: nat
  cl_integrity :: integrity

datatype exclusion_reason = Untrusted | Stale duration | NoQuote

record exclusion =
  ex_venue :: venue_id
  ex_reason :: exclusion_reason

record 'd cross_venue =
  cv_bid :: "'d cross_leg option"
  cv_ask :: "'d cross_leg option"
  cv_spread :: "'d option"
  cv_spread_bps :: "'d option"
  cv_mid :: "'d option"
  cv_integrity_floor :: "integrity option"
  cv_oldest_leg_ms :: "nat option"
  cv_venues_used :: nat
  cv_excluded :: "exclusion list"

definition is_crossed :: "('d, 'z) decimal_ops_scheme \<Rightarrow> 'd cross_venue \<Rightarrow> bool" where
  "is_crossed D c = (case cv_spread c of None \<Rightarrow> False | Some s \<Rightarrow> d_le D s (d_zero D))"

definition is_single_venue :: "'d cross_venue \<Rightarrow> bool" where
  "is_single_venue c = (case (cv_bid c, cv_ask c) of
     (Some bid, Some ask) \<Rightarrow> cl_venue bid = cl_venue ask | _ \<Rightarrow> False)"

definition cross_venue_empty :: "exclusion list \<Rightarrow> 'd cross_venue" where
  "cross_venue_empty excluded = \<lparr> cv_bid = None, cv_ask = None, cv_spread = None,
     cv_spread_bps = None, cv_mid = None, cv_integrity_floor = None, cv_oldest_leg_ms = None,
     cv_venues_used = 0, cv_excluded = excluded \<rparr>"

section \<open>Consolidation\<close>

type_synonym 'd quote_entry = "venue_id \<times> 'd top_of_book_view"

text \<open>\<open>None\<close> as the age means that nothing was ever applied.\<close>

definition quote_age :: "'d top_of_book_view \<Rightarrow> duration" where
  "quote_age tob = (case top_age tob of None \<Rightarrow> duration_max | Some a \<Rightarrow> a)"

definition leg_of :: "venue_id \<Rightarrow> 'd level \<Rightarrow> duration \<Rightarrow> integrity \<Rightarrow> 'd cross_leg" where
  "leg_of venue l age integ = \<lparr> cl_venue = venue, cl_price = lv_price l, cl_qty = lv_qty l,
     cl_age_ms = millis_u64 age, cl_integrity = integ \<rparr>"

definition higher_bid ::
  "('d, 'z) decimal_ops_scheme \<Rightarrow> 'd cross_leg option \<Rightarrow> 'd cross_leg \<Rightarrow> 'd cross_leg option" where
  "higher_bid D b leg = (case b of None \<Rightarrow> Some leg
     | Some b' \<Rightarrow> if d_lt D (cl_price b') (cl_price leg) then Some leg else Some b')"

definition lower_ask ::
  "('d, 'z) decimal_ops_scheme \<Rightarrow> 'd cross_leg option \<Rightarrow> 'd cross_leg \<Rightarrow> 'd cross_leg option" where
  "lower_ask D a leg = (case a of None \<Rightarrow> Some leg
     | Some a' \<Rightarrow> if d_lt D (cl_price leg) (cl_price a') then Some leg else Some a')"

type_synonym 'd cross_acc = "'d cross_leg option \<times> 'd cross_leg option \<times> exclusion list \<times> nat"

text \<open>The body of the loop over the quotes.\<close>

definition consolidate_quote ::
  "('d, 'z) decimal_ops_scheme \<Rightarrow> duration \<Rightarrow> 'd cross_acc \<Rightarrow> 'd quote_entry \<Rightarrow> 'd cross_acc" where
  "consolidate_quote D max_age acc q =
     (case acc of (best_bid, best_ask, excluded, used) \<Rightarrow> case q of (venue, tob) \<Rightarrow>
        (case top_state tob of
           Live integ _ _ \<Rightarrow>
             let age = quote_age tob in
             if max_age < age
             then (best_bid, best_ask, excluded @ [\<lparr> ex_venue = venue, ex_reason = Stale age \<rparr>], used)
             else if top_bid tob = None \<and> top_ask tob = None
             then (best_bid, best_ask, excluded @ [\<lparr> ex_venue = venue, ex_reason = NoQuote \<rparr>], used)
             else ((case top_bid tob of None \<Rightarrow> best_bid
                      | Some l \<Rightarrow> higher_bid D best_bid (leg_of venue l age integ)),
                   (case top_ask tob of None \<Rightarrow> best_ask
                      | Some l \<Rightarrow> lower_ask D best_ask (leg_of venue l age integ)),
                   excluded, used + 1)
         | _ \<Rightarrow> (best_bid, best_ask, excluded @ [\<lparr> ex_venue = venue, ex_reason = Untrusted \<rparr>], used)))"

definition consolidate ::
  "('d, 'z) decimal_ops_scheme \<Rightarrow> 'd quote_entry list \<Rightarrow> duration \<Rightarrow> 'd cross_venue" where
  "consolidate D quotes max_age =
     (case foldl (consolidate_quote D max_age) (None, None, [], 0) quotes of
        (best_bid, best_ask, excluded, used) \<Rightarrow>
          let out = (cross_venue_empty excluded)\<lparr> cv_bid := best_bid, cv_ask := best_ask,
                      cv_venues_used := used \<rparr>
          in case (best_bid, best_ask) of
               (Some bid, Some ask) \<Rightarrow>
                 let spread = d_sub D (cl_price ask) (cl_price bid);
                     mid = d_div D (d_add D (cl_price ask) (cl_price bid)) (d_two D)
                 in out\<lparr> cv_integrity_floor := Some (min (cl_integrity bid) (cl_integrity ask)),
                         cv_oldest_leg_ms := Some (max (cl_age_ms bid) (cl_age_ms ask)),
                         cv_spread := Some spread, cv_mid := Some mid,
                         cv_spread_bps := (if \<not> d_is_zero D mid
                            then Some (d_round_dp D bps_scale
                              (d_div D (d_mul D spread (d_of_nat D 10000)) mid)) else None) \<rparr>
             | (bid, ask) \<Rightarrow>
                 out\<lparr> cv_integrity_floor :=
                         opt_or (map_option cl_integrity bid) (map_option cl_integrity ask),
                      cv_oldest_leg_ms :=
                         opt_or (map_option cl_age_ms bid) (map_option cl_age_ms ask) \<rparr>)"

section \<open>The first maximal element\<close>

text \<open>Both sides pick the first strictly better leg, in the order given by a rank.\<close>

definition pick_first :: "('a \<Rightarrow> rat) \<Rightarrow> 'a option \<Rightarrow> 'a \<Rightarrow> 'a option" where
  "pick_first rank b x = (case b of None \<Rightarrow> Some x | Some y \<Rightarrow> if rank y < rank x then Some x else Some y)"

definition first_max :: "('a \<Rightarrow> rat) \<Rightarrow> 'a \<Rightarrow> 'a list \<Rightarrow> bool" where
  "first_max rank x xs \<longleftrightarrow> (\<exists>us vs. xs = us @ x # vs \<and> (\<forall>u \<in> set us. rank u < rank x)
     \<and> (\<forall>v \<in> set vs. rank v \<le> rank x))"

lemma first_max_ge: "first_max rank x xs \<Longrightarrow> x \<in> set xs \<and> (\<forall>y \<in> set xs. rank y \<le> rank x)"
  by (fastforce simp: first_max_def)

lemma foldl_pick_first:
  "case foldl (pick_first rank) None xs of None \<Rightarrow> xs = [] | Some x \<Rightarrow> first_max rank x xs"
proof (induction xs rule: rev_induct)
  case Nil
  then show ?case by simp
next
  case (snoc y xs)
  show ?case
  proof (cases "foldl (pick_first rank) None xs")
    case None
    with snoc have "xs = []" by simp
    then show ?thesis by (auto simp: pick_first_def first_max_def intro!: exI [of _ "[]"])
  next
    case (Some x)
    with snoc obtain us vs where x: "xs = us @ x # vs" "\<forall>u \<in> set us. rank u < rank x"
      "\<forall>v \<in> set vs. rank v \<le> rank x"
      by (auto simp: first_max_def)
    show ?thesis
    proof (cases "rank x < rank y")
      case True
      then have "\<forall>u \<in> set xs. rank u < rank y" using x by fastforce
      then have "first_max rank y (xs @ [y])"
        unfolding first_max_def by (intro exI [of _ xs] exI [of _ "[]"]) simp
      moreover have "pick_first rank (Some x) y = Some y" using True by (simp add: pick_first_def)
      ultimately show ?thesis using Some by simp
    next
      case False
      then have "first_max rank x (xs @ [y])"
        unfolding first_max_def using x by (intro exI [of _ us] exI [of _ "vs @ [y]"]) auto
      moreover have "pick_first rank (Some x) y = Some x" using False by (simp add: pick_first_def)
      ultimately show ?thesis using Some by simp
    qed
  qed
qed

lemma higher_bid_pick: "higher_bid D = pick_first (\<lambda>l. dval D (cl_price l))"
  by (intro ext) (simp add: higher_bid_def pick_first_def)

lemma lower_ask_pick: "lower_ask D = pick_first (\<lambda>l. - dval D (cl_price l))"
  by (intro ext) (simp add: lower_ask_def pick_first_def split: option.splits)

section \<open>Who participates\<close>

definition excluded_for :: "duration \<Rightarrow> 'd quote_entry \<Rightarrow> exclusion_reason option" where
  "excluded_for max_age q = (let tob = snd q in
     if \<not> is_live (top_state tob) then Some Untrusted
     else if max_age < quote_age tob then Some (Stale (quote_age tob))
     else if top_bid tob = None \<and> top_ask tob = None then Some NoQuote else None)"

definition leg_from :: "('d top_of_book_view \<Rightarrow> 'd level option) \<Rightarrow> 'd quote_entry \<Rightarrow> 'd cross_leg option" where
  "leg_from pick_side q = (case (pick_side (snd q), state_integrity (top_state (snd q))) of
     (Some l, Some i) \<Rightarrow> Some (leg_of (fst q) l (quote_age (snd q)) i) | _ \<Rightarrow> None)"

text \<open>The legs the participating venues offer on a side, in the order of the quotes.\<close>

definition legs_offered ::
  "('d top_of_book_view \<Rightarrow> 'd level option) \<Rightarrow> duration \<Rightarrow> 'd quote_entry list \<Rightarrow> 'd cross_leg list" where
  "legs_offered pick_side max_age qs =
     List.map_filter (leg_from pick_side) (filter (\<lambda>q. excluded_for max_age q = None) qs)"

definition exclusions :: "duration \<Rightarrow> 'd quote_entry list \<Rightarrow> exclusion list" where
  "exclusions max_age qs = List.map_filter
     (\<lambda>q. map_option (\<lambda>r. \<lparr> ex_venue = fst q, ex_reason = r \<rparr>) (excluded_for max_age q)) qs"

lemma map_filter_append: "List.map_filter f (xs @ ys) = List.map_filter f xs @ List.map_filter f ys"
  by (simp add: List.map_filter_def)

lemma consolidate_step:
  "consolidate_quote D max_age (b, a, ex, n) q =
     (foldl (higher_bid D) b (legs_offered top_bid max_age [q]),
      foldl (lower_ask D) a (legs_offered top_ask max_age [q]),
      ex @ exclusions max_age [q], n + length (filter (\<lambda>q. excluded_for max_age q = None) [q]))"
  by (cases q; cases "top_state (snd q)"; cases "top_bid (snd q)"; cases "top_ask (snd q)")
    (simp_all add: consolidate_quote_def legs_offered_def exclusions_def excluded_for_def
      leg_from_def List.map_filter_def Let_def)

lemma legs_offered_append:
  "legs_offered p max_age (xs @ ys) = legs_offered p max_age xs @ legs_offered p max_age ys"
  by (simp add: legs_offered_def map_filter_append)

lemma consolidate_fold:
  "foldl (consolidate_quote D max_age) (None, None, [], 0) qs =
     (foldl (higher_bid D) None (legs_offered top_bid max_age qs),
      foldl (lower_ask D) None (legs_offered top_ask max_age qs),
      exclusions max_age qs, length (filter (\<lambda>q. excluded_for max_age q = None) qs))"
proof (induction qs rule: rev_induct)
  case Nil
  then show ?case by (simp add: legs_offered_def exclusions_def List.map_filter_def)
next
  case (snoc q qs)
  show ?case
    unfolding foldl_append foldl.simps snoc consolidate_step legs_offered_append filter_append length_append
    by (simp add: exclusions_def map_filter_append)
qed

section \<open>Properties\<close>

lemma consolidate_fields:
  "cv_bid (consolidate D qs max_age) = foldl (higher_bid D) None (legs_offered top_bid max_age qs)"
  "cv_ask (consolidate D qs max_age) = foldl (lower_ask D) None (legs_offered top_ask max_age qs)"
  "cv_excluded (consolidate D qs max_age) = exclusions max_age qs"
  "cv_venues_used (consolidate D qs max_age) = length (filter (\<lambda>q. excluded_for max_age q = None) qs)"
  by (simp_all add: consolidate_def consolidate_fold cross_venue_empty_def Let_def split: option.splits)

lemma leg_offered_from:
  assumes "leg \<in> set (legs_offered pick_side max_age qs)"
  shows "\<exists>v tob l i s u. (v, tob) \<in> set qs \<and> top_state tob = Live i s u \<and> quote_age tob \<le> max_age
    \<and> pick_side tob = Some l \<and> leg = leg_of v l (quote_age tob) i"
proof -
  from assms obtain v tob where q: "(v, tob) \<in> set qs" "excluded_for max_age (v, tob) = None"
    and leg: "leg_from pick_side (v, tob) = Some leg"
    by (auto simp: legs_offered_def List.map_filter_def)
  from q(2) have "is_live (top_state tob)" "quote_age tob \<le> max_age"
    by (auto simp: excluded_for_def Let_def split: if_splits)
  with leg q(1) show ?thesis
    by (cases "top_state tob"; cases "pick_side tob") (simp_all add: leg_from_def, blast)
qed

lemma exclusions_length:
  "length (exclusions max_age qs) + length (filter (\<lambda>q. excluded_for max_age q = None) qs) = length qs"
  by (induction qs) (auto simp: exclusions_def List.map_filter_def split: option.splits)

text \<open>
  C10. The consolidated touch is the first highest bid and the first lowest ask among the legs
  of the participating venues, in the order the quotes come; every leg comes from a live book
  not older than the policy allows; every other venue is listed with its reason, and the
  participants and the exclusions together are all the venues.
\<close>

theorem consolidated_touch_is_best:
  shows "(case cv_bid (consolidate D qs max_age) of None \<Rightarrow> legs_offered top_bid max_age qs = []
       | Some l \<Rightarrow> first_max (\<lambda>l. dval D (cl_price l)) l (legs_offered top_bid max_age qs))
    \<and> (case cv_ask (consolidate D qs max_age) of None \<Rightarrow> legs_offered top_ask max_age qs = []
       | Some l \<Rightarrow> first_max (\<lambda>l. - dval D (cl_price l)) l (legs_offered top_ask max_age qs))
    \<and> (\<forall>leg \<in> set (legs_offered top_bid max_age qs) \<union> set (legs_offered top_ask max_age qs).
         \<exists>v tob l i s u. (v, tob) \<in> set qs \<and> top_state tob = Live i s u \<and> quote_age tob \<le> max_age
           \<and> leg = leg_of v l (quote_age tob) i)
    \<and> cv_excluded (consolidate D qs max_age) = exclusions max_age qs
    \<and> cv_venues_used (consolidate D qs max_age) + length (cv_excluded (consolidate D qs max_age)) = length qs"
proof (intro conjI)
  show "\<forall>leg \<in> set (legs_offered top_bid max_age qs) \<union> set (legs_offered top_ask max_age qs).
      \<exists>v tob l i s u. (v, tob) \<in> set qs \<and> top_state tob = Live i s u \<and> quote_age tob \<le> max_age
        \<and> leg = leg_of v l (quote_age tob) i"
    by (blast dest: leg_offered_from)
qed (use foldl_pick_first [where rank = "\<lambda>l. dval D (cl_price l)" and xs = "legs_offered top_bid max_age qs"]
    foldl_pick_first [where rank = "\<lambda>l. - dval D (cl_price l)" and xs = "legs_offered top_ask max_age qs"]
    exclusions_length [of max_age qs]
  in \<open>simp_all add: consolidate_fields higher_bid_pick lower_ask_pick\<close>)

lemma consolidated_touch_is_best_witness:
  "cv_venues_used (consolidate rat_decimals [(Bitstamp, top_of_book sample_book (sample_time 5)),
      (Kraken, top_of_book (new_book Kraken ''BTC-USD'') (sample_time 5))] 10) + 1 = 2"
proof -
  let ?qs = "[(Bitstamp, top_of_book sample_book (sample_time 5)),
      (Kraken, top_of_book (new_book Kraken ''BTC-USD'') (sample_time 5))]"
  have "cv_excluded (consolidate rat_decimals ?qs 10) = [\<lparr> ex_venue = Kraken, ex_reason = Untrusted \<rparr>]"
    by (simp add: consolidate_fields exclusions_def List.map_filter_def excluded_for_def top_of_book_def
        sample_book_eq new_book_def quote_age_def since_def sample_time_def best.simps Let_def)
  moreover have "cv_venues_used (consolidate rat_decimals ?qs 10)
      + length (cv_excluded (consolidate rat_decimals ?qs 10)) = length ?qs"
    using consolidated_touch_is_best by blast
  ultimately show ?thesis by simp
qed

lemma cross_spread:
  "cv_spread (consolidate D qs max_age) =
     (case (cv_bid (consolidate D qs max_age), cv_ask (consolidate D qs max_age)) of
        (Some bid, Some ask) \<Rightarrow> Some (d_sub D (cl_price ask) (cl_price bid)) | _ \<Rightarrow> None)"
  unfolding consolidate_fields
  by (simp add: consolidate_def consolidate_fold cross_venue_empty_def Let_def split: option.splits)

text \<open>
  C11. A crossing is read exactly when some participating bid meets some participating ask, and
  over well-formed books, one per venue, it always joins two different venues: a book that
  crosses itself is desynced and takes no part.
\<close>

theorem crossing_joins_two_venues:
  assumes "d_exact_sums D" and "d_constants D" and "\<forall>b \<in> set books. book_wf D b"
    and "distinct (map bk_venue books)"
    and "qs = map (\<lambda>b. (bk_venue b, top_of_book b now)) books"
  shows "(is_crossed D (consolidate D qs max_age) \<longleftrightarrow>
      (\<exists>bid \<in> set (legs_offered top_bid max_age qs). \<exists>ask \<in> set (legs_offered top_ask max_age qs).
         d_le D (cl_price ask) (cl_price bid)))
    \<and> (is_crossed D (consolidate D qs max_age) \<longrightarrow> \<not> is_single_venue (consolidate D qs max_age))"
proof -
  let ?c = "consolidate D qs max_age" and ?bids = "legs_offered top_bid max_age qs"
    and ?asks = "legs_offered top_ask max_age qs"
  note best = consolidated_touch_is_best [where D = D and qs = qs and max_age = max_age]
  have none: "(cv_bid ?c = None \<longleftrightarrow> ?bids = []) \<and> (cv_ask ?c = None \<longleftrightarrow> ?asks = [])"
    using best by (auto simp: first_max_def split: option.splits)
  have crossed: "is_crossed D ?c \<longleftrightarrow>
      (\<exists>bid ask. cv_bid ?c = Some bid \<and> cv_ask ?c = Some ask \<and> d_le D (cl_price ask) (cl_price bid))"
    using assms(1,2) by (auto simp: is_crossed_def cross_spread d_exact_sums_def d_constants_def
      split: option.splits)
  have bid: "bid \<in> set ?bids \<and> (\<forall>x \<in> set ?bids. d_le D (cl_price x) (cl_price bid))"
    if "cv_bid ?c = Some bid" for bid
  proof -
    from best that have "first_max (\<lambda>l. dval D (cl_price l)) bid ?bids" by simp
    from first_max_ge [OF this] show ?thesis .
  qed
  have ask: "ask \<in> set ?asks \<and> (\<forall>x \<in> set ?asks. d_le D (cl_price ask) (cl_price x))"
    if "cv_ask ?c = Some ask" for ask
  proof -
    from best that have "first_max (\<lambda>l. - dval D (cl_price l)) ask ?asks" by simp
    from first_max_ge [OF this] show ?thesis by simp
  qed
  have "is_crossed D ?c \<longleftrightarrow> (\<exists>bid \<in> set ?bids. \<exists>ask \<in> set ?asks. d_le D (cl_price ask) (cl_price bid))"
  proof
    assume "\<exists>bid \<in> set ?bids. \<exists>ask \<in> set ?asks. d_le D (cl_price ask) (cl_price bid)"
    then obtain b a where "b \<in> set ?bids" "a \<in> set ?asks" "d_le D (cl_price a) (cl_price b)" by blast
    moreover from this none obtain bid' ask' where "cv_bid ?c = Some bid'" "cv_ask ?c = Some ask'"
      by (metis empty_iff empty_set not_None_eq)
    ultimately show "is_crossed D ?c" using bid ask crossed by (meson order_trans)
  qed (use bid ask crossed in blast)
  moreover have "\<not> is_single_venue ?c" if "is_crossed D ?c"
  proof
    assume "is_single_venue ?c"
    with that crossed obtain x y where x: "cv_bid ?c = Some x" and y: "cv_ask ?c = Some y"
      and le: "d_le D (cl_price y) (cl_price x)" and same: "cl_venue x = cl_venue y"
      by (auto simp: is_single_venue_def split: option.splits)
    from leg_offered_from [of x top_bid] bid [OF x] assms(5) obtain b l where
      b: "b \<in> set books" "is_live (bk_state b)" "best b Bid = Some l" "cl_price x = lv_price l" "cl_venue x = bk_venue b"
      by (fastforce simp: top_of_book_def leg_of_def)
    from leg_offered_from [of y top_ask] ask [OF y] assms(5) obtain b' l' where
      b': "b' \<in> set books" "best b' Ask = Some l'" "cl_price y = lv_price l'" "cl_venue y = bk_venue b'"
      by (fastforce simp: top_of_book_def leg_of_def)
    have "b' = b" using assms(4) b b' same by (metis distinct_map inj_onD)
    then have "d_lt D (lv_price l) (lv_price l')"
      using assms(3) b b' best_mem [of b] by (fastforce simp: book_wf_def uncrossed_def)
    with le b(4) b'(3) show False by simp
  qed
  ultimately show ?thesis by blast
qed

lemma crossing_joins_two_venues_witness:
  "\<not> is_crossed rat_decimals (consolidate rat_decimals [(Bitstamp, top_of_book sample_book (sample_time 5))] 10)"
proof -
  have "\<forall>b \<in> set [sample_book]. book_wf rat_decimals b" using sample_book_wf by simp
  from crossing_joins_two_venues [OF _ _ this _ refl, of "sample_time 5" 10]
  show ?thesis
    by (auto simp: legs_offered_def List.map_filter_def leg_from_def leg_of_def top_of_book_def
        sample_book_eq best.simps split: if_splits)
qed

end
