(* ===== verification/Cross_Windows.thy ===== *)
theory Cross_Windows
  imports Cross
begin

text \<open>
  Windows consolidated across venues (\<open>ma-core/src/cross_windows.rs\<close>): for every span any leg
  publishes, the order-free statistics of the legs that hold data, the least coverage, the
  stalest delivery, and the legs left out with the reason.
\<close>

section \<open>Data\<close>

record 'd window_leg =
  wl_venue :: venue_id
  wl_lag_ms :: nat
  wl_windows :: "'d window_reading list"

datatype window_exclusion_reason = SpanNotPublished | NoData

record window_exclusion =
  we_venue :: venue_id
  we_reason :: window_exclusion_reason

record 'd cross_window_reading =
  cw_span_ms :: nat
  cw_trusted_ms_floor :: nat
  cw_integrity_floor :: "integrity option"
  cw_max_lag_ms :: nat
  cw_venues_used :: nat
  cw_samples :: nat
  cw_high :: "'d option"
  cw_low :: "'d option"
  cw_mean :: "'d option"
  cw_range_bps :: "'d option"
  cw_trades :: nat
  cw_volume :: "'d option"
  cw_vwap :: "'d option"
  cw_excluded :: "window_exclusion list"

section \<open>One span\<close>

definition cross_window_empty :: "nat \<Rightarrow> 'd cross_window_reading" where
  "cross_window_empty span_ms = \<lparr> cw_span_ms = span_ms, cw_trusted_ms_floor = 0,
     cw_integrity_floor = None, cw_max_lag_ms = 0, cw_venues_used = 0, cw_samples = 0,
     cw_high = None, cw_low = None, cw_mean = None, cw_range_bps = None, cw_trades = 0,
     cw_volume = None, cw_vwap = None, cw_excluded = [] \<rparr>"

text \<open>The reading, the coverage floor, and the weighted sums of means, vwaps and volumes.\<close>

type_synonym 'd cross_span_acc = "'d cross_window_reading \<times> nat option \<times> 'd \<times> 'd \<times> 'd"

definition merge_samples ::
  "('d, 'z) decimal_ops_scheme \<Rightarrow> 'd cross_window_reading \<Rightarrow> 'd window_reading \<Rightarrow> 'd cross_window_reading" where
  "merge_samples D out w = (if 0 < wr_samples w
     then out\<lparr> cw_integrity_floor := opt_join min (cw_integrity_floor out) (wr_integrity_floor w),
               cw_high := opt_join (d_max D) (cw_high out) (wr_high w),
               cw_low := opt_join (d_min D) (cw_low out) (wr_low w) \<rparr>
     else out)"

definition consolidate_leg ::
  "('d, 'z) decimal_ops_scheme \<Rightarrow> nat \<Rightarrow> 'd cross_span_acc \<Rightarrow> 'd window_leg \<Rightarrow> 'd cross_span_acc" where
  "consolidate_leg D span_ms acc leg =
     (case acc of (out, floor_ms, sum_mean, sum_vwap, sum_volume) \<Rightarrow>
        case find (\<lambda>w. wr_span_ms w = span_ms) (wl_windows leg) of
          None \<Rightarrow> (out\<lparr> cw_excluded := cw_excluded out
                     @ [\<lparr> we_venue = wl_venue leg, we_reason = SpanNotPublished \<rparr>] \<rparr>,
                   floor_ms, sum_mean, sum_vwap, sum_volume)
        | Some w \<Rightarrow>
            if wr_samples w = 0 \<and> wr_trades w = 0
            then (out\<lparr> cw_excluded := cw_excluded out
                     @ [\<lparr> we_venue = wl_venue leg, we_reason = NoData \<rparr>] \<rparr>,
                  floor_ms, sum_mean, sum_vwap, sum_volume)
            else
              let out = merge_samples D (out\<lparr> cw_venues_used := cw_venues_used out + 1,
                          cw_max_lag_ms := max (cw_max_lag_ms out) (wl_lag_ms leg),
                          cw_samples := cw_samples out + wr_samples w \<rparr>) w
              in (out\<lparr> cw_trades := cw_trades out + wr_trades w \<rparr>,
                  Some (case floor_ms of None \<Rightarrow> wr_trusted_ms w | Some f \<Rightarrow> min f (wr_trusted_ms w)),
                  (case wr_mean w of
                     Some mean \<Rightarrow> if 0 < wr_samples w
                       then d_add D sum_mean (d_mul D mean (d_of_nat D (wr_samples w))) else sum_mean
                   | None \<Rightarrow> sum_mean),
                  (case (wr_volume w, wr_vwap w) of
                     (Some volume, Some vwap) \<Rightarrow> d_add D sum_vwap (d_mul D vwap volume)
                   | _ \<Rightarrow> sum_vwap),
                  (case (wr_volume w, wr_vwap w) of
                     (Some volume, Some vwap) \<Rightarrow> d_add D sum_volume volume
                   | _ \<Rightarrow> sum_volume)))"

definition finish_span :: "('d, 'z) decimal_ops_scheme \<Rightarrow> 'd cross_span_acc \<Rightarrow> 'd cross_window_reading" where
  "finish_span D acc =
     (case acc of (out, floor_ms, sum_mean, sum_vwap, sum_volume) \<Rightarrow>
        let out = out\<lparr> cw_trusted_ms_floor := (case floor_ms of None \<Rightarrow> 0 | Some f \<Rightarrow> f) \<rparr>;
            out = (if 0 < cw_samples out
                   then let mean = d_round_dp D mid_scale (d_div D sum_mean (d_of_nat D (cw_samples out)))
                        in out\<lparr> cw_mean := Some mean,
                                cw_range_bps := (case (cw_high out, cw_low out) of
                                   (Some high, Some low) \<Rightarrow>
                                     if \<not> d_is_zero D mean then Some (bps D (d_sub D high low) mean)
                                     else cw_range_bps out
                                 | _ \<Rightarrow> cw_range_bps out) \<rparr>
                   else out)
        in if 0 < cw_trades out
           then out\<lparr> cw_volume := Some sum_volume,
                     cw_vwap := (if \<not> d_is_zero D sum_volume
                       then Some (d_round_dp D mid_scale (d_div D sum_vwap sum_volume))
                       else cw_vwap out) \<rparr>
           else out)"

definition consolidate_span ::
  "('d, 'z) decimal_ops_scheme \<Rightarrow> nat \<Rightarrow> 'd window_leg list \<Rightarrow> 'd cross_window_reading" where
  "consolidate_span D span_ms legs = finish_span D
     (foldl (consolidate_leg D span_ms) (cross_window_empty span_ms, None, d_zero D, d_zero D, d_zero D) legs)"

definition published_spans :: "'d window_leg list \<Rightarrow> nat list" where
  "published_spans legs =
     remdups_adj (sort (concat (map (\<lambda>leg. map wr_span_ms (wl_windows leg)) legs)))"

definition consolidate_windows ::
  "('d, 'z) decimal_ops_scheme \<Rightarrow> 'd window_leg list \<Rightarrow> 'd cross_window_reading list" where
  "consolidate_windows D legs = map (\<lambda>s. consolidate_span D s legs) (published_spans legs)"

section \<open>Who contributes\<close>

text \<open>The windows that contribute to a span, each with the delivery lag of its leg.\<close>

definition contribution :: "nat \<Rightarrow> 'd window_leg \<Rightarrow> ('d window_reading \<times> nat) option" where
  "contribution span_ms leg = (case find (\<lambda>w. wr_span_ms w = span_ms) (wl_windows leg) of
     None \<Rightarrow> None
   | Some w \<Rightarrow> if wr_samples w = 0 \<and> wr_trades w = 0 then None else Some (w, wl_lag_ms leg))"

definition contributions :: "nat \<Rightarrow> 'd window_leg list \<Rightarrow> ('d window_reading \<times> nat) list" where
  "contributions span_ms legs = List.map_filter (contribution span_ms) legs"

lemma merge_samples_fields [simp]:
  "cw_venues_used (merge_samples D out w) = cw_venues_used out"
  "cw_max_lag_ms (merge_samples D out w) = cw_max_lag_ms out"
  "cw_samples (merge_samples D out w) = cw_samples out"
  "cw_trades (merge_samples D out w) = cw_trades out"
  "cw_excluded (merge_samples D out w) = cw_excluded out"
  "cw_span_ms (merge_samples D out w) = cw_span_ms out"
  by (simp_all add: merge_samples_def)

lemma finish_span_fields [simp]:
  "cw_venues_used (finish_span D acc) = cw_venues_used (fst acc)"
  "cw_max_lag_ms (finish_span D acc) = cw_max_lag_ms (fst acc)"
  "cw_samples (finish_span D acc) = cw_samples (fst acc)"
  "cw_trades (finish_span D acc) = cw_trades (fst acc)"
  "cw_excluded (finish_span D acc) = cw_excluded (fst acc)"
  "cw_high (finish_span D acc) = cw_high (fst acc)" "cw_low (finish_span D acc) = cw_low (fst acc)"
  "cw_integrity_floor (finish_span D acc) = cw_integrity_floor (fst acc)"
  "cw_span_ms (finish_span D acc) = cw_span_ms (fst acc)"
  "cw_trusted_ms_floor (finish_span D acc) = (case fst (snd acc) of None \<Rightarrow> 0 | Some f \<Rightarrow> f)"
  by (cases acc; simp add: finish_span_def Let_def)+

text \<open>One contributing leg, seen as an update of the accumulated reading.\<close>

definition count_in :: "'d cross_window_reading \<Rightarrow> 'd window_reading \<times> nat \<Rightarrow> 'd cross_window_reading" where
  "count_in out c = out\<lparr> cw_venues_used := cw_venues_used out + 1,
     cw_max_lag_ms := max (cw_max_lag_ms out) (snd c), cw_samples := cw_samples out + wr_samples (fst c),
     cw_trades := cw_trades out + wr_trades (fst c) \<rparr>"

lemma consolidate_leg_counts:
  assumes "acc' = consolidate_leg D s acc leg"
  shows "case contribution s leg of
      None \<Rightarrow> snd acc' = snd acc \<and> length (cw_excluded (fst acc')) = Suc (length (cw_excluded (fst acc)))
        \<and> (fst acc')\<lparr> cw_excluded := [] \<rparr> = (fst acc)\<lparr> cw_excluded := [] \<rparr>
    | Some (w, lag) \<Rightarrow> cw_excluded (fst acc') = cw_excluded (fst acc)
        \<and> cw_venues_used (fst acc') = cw_venues_used (fst acc) + 1
        \<and> cw_max_lag_ms (fst acc') = max (cw_max_lag_ms (fst acc)) lag
        \<and> cw_samples (fst acc') = cw_samples (fst acc) + wr_samples w
        \<and> cw_trades (fst acc') = cw_trades (fst acc) + wr_trades w
        \<and> fst (snd acc') = Some (case fst (snd acc) of None \<Rightarrow> wr_trusted_ms w | Some f \<Rightarrow> min f (wr_trusted_ms w))"
  unfolding assms
  by (cases acc) (simp add: contribution_def consolidate_leg_def Let_def split: option.splits)

lemma fold_counts:
  assumes "acc = foldl (consolidate_leg D s) (cross_window_empty s, None, z1, z2, z3) legs"
  shows "cw_venues_used (fst acc) = length (contributions s legs)
    \<and> length (cw_excluded (fst acc)) + length (contributions s legs) = length legs
    \<and> cw_max_lag_ms (fst acc) = Max (insert 0 (set (map snd (contributions s legs))))
    \<and> cw_samples (fst acc) = (\<Sum>c\<leftarrow>contributions s legs. wr_samples (fst c))
    \<and> cw_trades (fst acc) = (\<Sum>c\<leftarrow>contributions s legs. wr_trades (fst c))
    \<and> fst (snd acc) = (if contributions s legs = [] then None
        else Some (Min (set (map (\<lambda>c. wr_trusted_ms (fst c)) (contributions s legs)))))"
  using assms
proof (induction legs arbitrary: acc rule: rev_induct)
  case Nil
  then show ?case by (simp add: contributions_def List.map_filter_def cross_window_empty_def)
next
  case (snoc leg legs)
  let ?acc = "foldl (consolidate_leg D s) (cross_window_empty s, None, z1, z2, z3) legs"
  have acc: "acc = consolidate_leg D s ?acc leg" using snoc.prems by simp
  note IH = snoc.IH [OF refl] and step = consolidate_leg_counts [OF acc]
  show ?case
  proof (cases "contribution s leg")
    case None
    then have same: "contributions s (legs @ [leg]) = contributions s legs"
      by (simp add: contributions_def List.map_filter_def)
    from step None have "cw_venues_used (fst acc) = cw_venues_used (fst ?acc)
        \<and> cw_max_lag_ms (fst acc) = cw_max_lag_ms (fst ?acc) \<and> cw_samples (fst acc) = cw_samples (fst ?acc)
        \<and> cw_trades (fst acc) = cw_trades (fst ?acc) \<and> snd acc = snd ?acc
        \<and> length (cw_excluded (fst acc)) = Suc (length (cw_excluded (fst ?acc)))"
      by (cases "fst acc"; cases "fst ?acc") simp
    with IH show ?thesis by (simp add: same)
  next
    case (Some c)
    then have more: "contributions s (legs @ [leg]) = contributions s legs @ [c]"
      by (simp add: contributions_def List.map_filter_def)
    obtain w lag where c: "c = (w, lag)" by (cases c)
    from step Some IH show ?thesis
      by (simp add: more c) (auto simp: max.commute min.commute Max_insert Min_insert)
  qed
qed

section \<open>Extremes of the sampled legs\<close>

definition opt_Max :: "'a::linorder set \<Rightarrow> 'a option" where
  "opt_Max S = (if S = {} then None else Some (Max S))"

definition opt_Min :: "'a::linorder set \<Rightarrow> 'a option" where
  "opt_Min S = (if S = {} then None else Some (Min S))"

lemma opt_Max_Un: "finite S \<Longrightarrow> finite T \<Longrightarrow> opt_Max (S \<union> T) = opt_join max (opt_Max S) (opt_Max T)"
  by (auto simp: opt_Max_def Max_Un)

lemma opt_Min_Un: "finite S \<Longrightarrow> finite T \<Longrightarrow> opt_Min (S \<union> T) = opt_join min (opt_Min S) (opt_Min T)"
  by (auto simp: opt_Min_def Min_Un)

lemma opt_of_set_option [simp]: "opt_Max (set_option a) = a" "opt_Min (set_option a) = a"
  by (cases a; simp add: opt_Max_def opt_Min_def)+

lemma map_option_join:
  "map_option (dval D) (opt_join (d_max D) a b) = opt_join max (map_option (dval D) a) (map_option (dval D) b)"
  "map_option (dval D) (opt_join (d_min D) a b) = opt_join min (map_option (dval D) a) (map_option (dval D) b)"
  by (cases a; cases b; simp)+

definition sampled :: "nat \<Rightarrow> 'd window_leg list \<Rightarrow> 'd window_reading set" where
  "sampled s legs = {w \<in> fst ` set (contributions s legs). 0 < wr_samples w}"

definition sampled_values :: "('d window_reading \<Rightarrow> 'x option) \<Rightarrow> nat \<Rightarrow> 'd window_leg list \<Rightarrow> 'x set" where
  "sampled_values g s legs = (\<Union>w \<in> sampled s legs. set_option (g w))"

lemma finite_sampled [simp]: "finite (sampled_values g s legs)"
  by (simp add: sampled_values_def sampled_def)

lemma contributions_snoc:
  "contributions s (legs @ [leg]) = contributions s legs @ (case contribution s leg of None \<Rightarrow> [] | Some c \<Rightarrow> [c])"
  by (simp add: contributions_def List.map_filter_def split: option.splits)

lemma sampled_snoc:
  "sampled s (legs @ [leg]) = sampled s legs \<union>
     (case contribution s leg of Some (w, _) \<Rightarrow> if 0 < wr_samples w then {w} else {} | None \<Rightarrow> {})"
  unfolding sampled_def contributions_snoc by (auto split: option.splits prod.splits)

lemma sampled_values_snoc:
  "sampled_values g s (legs @ [leg]) = sampled_values g s legs \<union>
     (case contribution s leg of Some (w, _) \<Rightarrow> if 0 < wr_samples w then set_option (g w) else {} | None \<Rightarrow> {})"
  unfolding sampled_values_def sampled_snoc by (simp split: option.splits prod.splits)

lemma consolidate_leg_extremes:
  assumes "acc' = consolidate_leg D s acc leg"
  shows "case contribution s leg of
      Some (w, _) \<Rightarrow>
        (if 0 < wr_samples w then
           cw_high (fst acc') = opt_join (d_max D) (cw_high (fst acc)) (wr_high w)
           \<and> cw_low (fst acc') = opt_join (d_min D) (cw_low (fst acc)) (wr_low w)
           \<and> cw_integrity_floor (fst acc') = opt_join min (cw_integrity_floor (fst acc)) (wr_integrity_floor w)
         else cw_high (fst acc') = cw_high (fst acc) \<and> cw_low (fst acc') = cw_low (fst acc)
           \<and> cw_integrity_floor (fst acc') = cw_integrity_floor (fst acc))
    | None \<Rightarrow> cw_high (fst acc') = cw_high (fst acc) \<and> cw_low (fst acc') = cw_low (fst acc)
           \<and> cw_integrity_floor (fst acc') = cw_integrity_floor (fst acc)"
  unfolding assms
  by (cases acc) (simp add: contribution_def consolidate_leg_def merge_samples_def Let_def split: option.splits)

lemma fold_extremes:
  assumes "acc = foldl (consolidate_leg D s) (cross_window_empty s, None, z1, z2, z3) legs"
  shows "map_option (dval D) (cw_high (fst acc)) = opt_Max (sampled_values (\<lambda>w. map_option (dval D) (wr_high w)) s legs)
    \<and> map_option (dval D) (cw_low (fst acc)) = opt_Min (sampled_values (\<lambda>w. map_option (dval D) (wr_low w)) s legs)
    \<and> cw_integrity_floor (fst acc) = opt_Min (sampled_values wr_integrity_floor s legs)"
  using assms
proof (induction legs arbitrary: acc rule: rev_induct)
  case Nil
  then show ?case
    by (simp add: sampled_values_def sampled_def contributions_def List.map_filter_def cross_window_empty_def
        opt_Max_def opt_Min_def)
next
  case (snoc leg legs)
  let ?acc = "foldl (consolidate_leg D s) (cross_window_empty s, None, z1, z2, z3) legs"
  have acc: "acc = consolidate_leg D s ?acc leg" using snoc.prems by simp
  note IH = snoc.IH [OF refl] and step = consolidate_leg_extremes [OF acc]
  show ?case
  proof (cases "contribution s leg")
    case None
    with IH step show ?thesis by (simp add: sampled_values_snoc)
  next
    case (Some c)
    obtain w lag where c: "c = (w, lag)" by (cases c)
    show ?thesis
    proof (cases "0 < wr_samples w")
      case True
      with IH step Some c show ?thesis
        by (simp add: sampled_values_snoc opt_Max_Un opt_Min_Un map_option_join)
    next
      case False
      with IH step Some c show ?thesis by (simp add: sampled_values_snoc)
    qed
  qed
qed

section \<open>Properties\<close>


definition busy_window :: "rat window_reading" where
  "busy_window = (window_reading_empty 1000)\<lparr> wr_samples := 3, wr_trusted_ms := 750, wr_high := Some 7 \<rparr>"

definition two_legs :: "rat window_leg list" where
  "two_legs = [\<lparr> wl_venue = Kraken, wl_lag_ms = 5, wl_windows = [busy_window] \<rparr>,
     \<lparr> wl_venue = Coinbase, wl_lag_ms = 9, wl_windows = [window_reading_empty 1000] \<rparr>]"


end
