(* ===== verification/Assign.thy ===== *)
theory Assign
  imports Events
begin

text \<open>
  Rendezvous assignment (\<open>ma-coord/src/assign.rs\<close>): the owner of a stream is the live node
  with the highest weight, a hash written out over 64-bit words. Everything the coordination
  layer relies on follows from the owner being a function of the set of members.
\<close>

unbundle bit_operations_syntax

section \<open>Weights\<close>

type_synonym node_id = string

definition fnv_offset :: u64 where "fnv_offset = 0xcbf29ce484222325"
definition fnv_prime :: u64 where "fnv_prime = 0x00000100000001b3"

definition fnv :: "u64 \<Rightarrow> string \<Rightarrow> u64" where
  "fnv h bytes = foldl (\<lambda>h b. (h XOR of_char b) * fnv_prime) h bytes"

definition splitmix64_finalise :: "u64 \<Rightarrow> u64" where
  "splitmix64_finalise z =
     (let z = (z XOR drop_bit 30 z) * 0xbf58476d1ce4e5b9;
          z = (z XOR drop_bit 27 z) * 0x94d049bb133111eb
      in z XOR drop_bit 31 z)"

definition weight :: "stream_id \<Rightarrow> node_id \<Rightarrow> u64" where
  "weight stream node =
     (let h = fnv_offset;
          h = fnv h node;
          h = fnv h [CHR 0x00];
          h = fnv h (venue_as_str (sid_venue stream));
          h = fnv h [CHR 0x00];
          h = fnv h (sid_symbol stream)
      in splitmix64_finalise h)"

section \<open>Owners\<close>

text \<open>The comparison of \<open>owner\<close> answers \<open>Greater\<close>: a higher weight, or the smaller name on a tie.\<close>

definition prefers :: "stream_id \<Rightarrow> node_id \<Rightarrow> node_id \<Rightarrow> bool" where
  "prefers stream a b \<longleftrightarrow> weight stream b < weight stream a \<or> weight stream a = weight stream b \<and> a < b"

text \<open>\<open>max_by\<close> keeps the last of several maximal elements.\<close>

definition owner :: "stream_id \<Rightarrow> node_id list \<Rightarrow> node_id option" where
  "owner stream nodes = (case nodes of [] \<Rightarrow> None
     | n # ns \<Rightarrow> Some (foldl (\<lambda>x y. if prefers stream x y then x else y) n ns))"

definition assigned_to :: "node_id \<Rightarrow> stream_id list \<Rightarrow> node_id list \<Rightarrow> stream_id list" where
  "assigned_to node streams nodes =
     btree_set (filter (\<lambda>stream. owner stream nodes = Some node) streams)"

section \<open>The owner is a maximum\<close>

lemma prefers_total: "a = b \<or> prefers s a b \<or> prefers s b a"
  using less_linear [of "weight s a" "weight s b"] less_linear [of a b]
  unfolding prefers_def by argo

lemma prefers_asym: "prefers s a b \<Longrightarrow> \<not> prefers s b a"
  unfolding prefers_def by (metis order_less_asym order_less_irrefl)

lemma prefers_trans: "prefers s a b \<Longrightarrow> prefers s b c \<Longrightarrow> prefers s a c"
  unfolding prefers_def by (metis order_less_trans)

lemma prefers_irrefl [simp]: "\<not> prefers s a a"
  unfolding prefers_def by blast

text \<open>The maximum of a set of nodes, and the fact that the fold computes it.\<close>

definition is_owner :: "stream_id \<Rightarrow> node_id set \<Rightarrow> node_id \<Rightarrow> bool" where
  "is_owner s S n \<longleftrightarrow> n \<in> S \<and> (\<forall>m \<in> S. m \<noteq> n \<longrightarrow> prefers s n m)"

lemma is_owner_unique: "is_owner s S n \<Longrightarrow> is_owner s S m \<Longrightarrow> n = m"
  unfolding is_owner_def by (metis prefers_asym)

lemma foldl_owner:
  "is_owner s (insert n (set ns)) (foldl (\<lambda>x y. if prefers s x y then x else y) n ns)"
proof (induction ns rule: rev_induct)
  case Nil
  then show ?case by (simp add: is_owner_def)
next
  case (snoc y ns)
  let ?x = "foldl (\<lambda>x y. if prefers s x y then x else y) n ns"
  show ?case
  proof (cases "prefers s ?x y")
    case True
    with snoc show ?thesis by (auto simp: is_owner_def)
  next
    case False
    have "prefers s y m" if "m \<in> insert n (set ns)" "m \<noteq> y" for m
    proof (cases "?x = y")
      case True
      with snoc that show ?thesis by (auto simp: is_owner_def)
    next
      case neq: False
      then have yx: "prefers s y ?x" using False prefers_total by blast
      show ?thesis
      proof (cases "m = ?x")
        case True
        with yx show ?thesis by simp
      next
        case False
        with snoc that(1) have "prefers s ?x m" by (auto simp: is_owner_def)
        with yx show ?thesis by (rule prefers_trans)
      qed
    qed
    with False show ?thesis by (auto simp: is_owner_def)
  qed
qed

lemma owner_iff: "owner s nodes = Some n \<longleftrightarrow> is_owner s (set nodes) n"
proof (cases nodes)
  case Nil
  then show ?thesis by (simp add: owner_def is_owner_def)
next
  case (Cons m ms)
  let ?x = "foldl (\<lambda>x y. if prefers s x y then x else y) m ms"
  have x: "is_owner s (set nodes) ?x" using foldl_owner [of s m ms] unfolding Cons list.set .
  have "owner s nodes = Some ?x" unfolding owner_def Cons list.case by (rule refl)
  moreover have "?x = n \<longleftrightarrow> is_owner s (set nodes) n"
    using x is_owner_unique [OF x, of n] by blast
  ultimately show ?thesis by simp
qed

lemma owner_None [simp]: "owner s nodes = None \<longleftrightarrow> nodes = []"
  by (simp add: owner_def split: list.splits)

lemma owner_mem: "owner s nodes = Some n \<Longrightarrow> n \<in> set nodes"
  by (simp add: owner_iff is_owner_def)

lemma owner_cong: "set xs = set ys \<Longrightarrow> owner s xs = owner s ys"
proof (cases "owner s xs")
  case None
  moreover assume "set xs = set ys"
  ultimately have "ys = []" by simp
  with None show ?thesis by simp
next
  case (Some n)
  moreover assume "set xs = set ys"
  ultimately have "owner s ys = Some n" unfolding owner_iff by simp
  with Some show ?thesis by simp
qed

text \<open>Two nodes that each see the other cannot both be the owner.\<close>

lemma owner_exclusive:
  assumes "owner s xs = Some a" and "owner s ys = Some b" and "b \<in> set xs" and "a \<in> set ys"
  shows "a = b"
  using assms unfolding owner_iff is_owner_def by (metis prefers_asym)

lemma set_assigned_to [simp]:
  "set (assigned_to n streams nodes) = {s \<in> set streams. owner s nodes = Some n}"
  by (auto simp: assigned_to_def)

section \<open>Properties\<close>

text \<open>
  C13. Given any live member at all, every stream has exactly one owner, a live member, and the
  per-node assignments partition the configured streams; the owner depends on the set of
  members only, not on the order or the repetitions in which they were read.
\<close>

theorem assignment_partitions_streams:
  assumes "nodes \<noteq> []"
  shows "(\<forall>s \<in> set streams. \<exists>!n. s \<in> set (assigned_to n streams nodes))
    \<and> (\<forall>n s. s \<in> set (assigned_to n streams nodes) \<longrightarrow> n \<in> set nodes)
    \<and> (\<forall>nodes'. set nodes' = set nodes \<longrightarrow> assigned_to n streams nodes' = assigned_to n streams nodes)"
proof (intro conjI ballI allI impI)
  fix s assume "s \<in> set streams"
  moreover obtain n where "owner s nodes = Some n" using assms owner_None by blast
  ultimately show "\<exists>!n. s \<in> set (assigned_to n streams nodes)" by simp
next
  fix n s assume "s \<in> set (assigned_to n streams nodes)"
  then have "owner s nodes = Some n" by simp
  then show "n \<in> set nodes" by (rule owner_mem)
next
  fix nodes' assume "set nodes' = set nodes"
  then have "owner s nodes' = owner s nodes" for s by (rule owner_cong)
  then show "assigned_to n streams nodes' = assigned_to n streams nodes" by (simp add: assigned_to_def)
qed

lemma assignment_partitions_streams_witness:
  "\<exists>!n. StreamId Kraken ''BTC-USD'' \<in> set (assigned_to n [StreamId Kraken ''BTC-USD''] [''a'', ''b''])"
proof -
  have "[''a'', ''b''] \<noteq> []" by simp
  from assignment_partitions_streams [OF this, THEN conjunct1]
  show ?thesis by (rule bspec [OF _ list.set_intros(1)])
qed

text \<open>
  C14. Membership changes move as little as possible: removing a node moves only the streams it
  owned, and adding one moves streams to the new node only.
\<close>

theorem minimal_disruption:
  assumes "owner s nodes = Some n"
  shows "(gone \<noteq> n \<longrightarrow> owner s (filter (\<lambda>m. m \<noteq> gone) nodes) = Some n)
    \<and> owner s (joined # nodes) \<in> {Some n, Some joined}"
proof (intro conjI impI)
  assume "gone \<noteq> n"
  with assms show "owner s (filter (\<lambda>m. m \<noteq> gone) nodes) = Some n"
    unfolding owner_iff is_owner_def by simp
next
  obtain w where w: "owner s (joined # nodes) = Some w" using owner_None by blast
  have "w = n" if "w \<noteq> joined"
  proof -
    have "w \<in> set nodes" using owner_mem [OF w] that by simp
    then show ?thesis using owner_exclusive [OF w assms] owner_mem [OF assms] by simp
  qed
  with w show "owner s (joined # nodes) \<in> {Some n, Some joined}" by auto
qed

lemma minimal_disruption_witness:
  "owner (StreamId Kraken ''BTC-USD'') [''c'', ''a''] \<in> {Some ''a'', Some ''c''}"
proof -
  have "owner (StreamId Kraken ''BTC-USD'') [''a''] = Some ''a''"
    unfolding owner_def list.case foldl.simps by (rule refl)
  from minimal_disruption [OF this] show ?thesis by blast
qed

end
