(* ===== verification/Lease.thy ===== *)
theory Lease
  imports Assign Ordered_Map
begin

text \<open>
  Membership by lease (\<open>ma-coord/src/lease.rs\<close>) and the registries that hold the records
  (\<open>ma-coord/src/registry.rs\<close>): the record and its expiry, the state a node keeps, one pass of
  its loop, and the interface \<open>lease_store\<close> every registry provides.
\<close>

section \<open>Records and configuration\<close>

definition unix_millis :: "system_time \<Rightarrow> nat" where
  "unix_millis t = (if 0 \<le> t then millis_u64 (nat t) else 0)"

record lease =
  le_node :: node_id
  le_written_at_unix_ms :: nat
  le_ttl_ms :: nat

text \<open>A reader whose clock is before the epoch cannot judge, and keeps the record alive.\<close>

definition expired_at :: "lease \<Rightarrow> system_time \<Rightarrow> bool" where
  "expired_at l now = (if 0 \<le> now
     then min (le_written_at_unix_ms l + le_ttl_ms l) u64_max < millis_u64 (nat now) else False)"

record lease_config =
  lc_ttl :: duration
  lc_renew :: duration
  lc_guard :: duration

definition lease_config_default :: lease_config where
  "lease_config_default = \<lparr> lc_ttl = from_secs 15, lc_renew = from_secs 3, lc_guard = from_secs 2 \<rparr>"

definition hold_for :: "lease_config \<Rightarrow> duration" where
  "hold_for cfg = lc_ttl cfg - lc_guard cfg"

definition settle_for :: "lease_config \<Rightarrow> duration" where
  "settle_for cfg = min (lc_ttl cfg + lc_guard cfg) duration_max"

record cluster_view =
  vw_node :: node_id
  vw_members :: "node_id list"
  vw_owned :: "string list"
  vw_elsewhere :: "string list"
  vw_settling :: bool
  vw_stood_down :: bool
  vw_last_contact_ms :: "nat option"

section \<open>The state of a node\<close>

record lease_state =
  ls_members :: "node_id list"
  ls_last_contact :: "ingest_time option"
  ls_settled_at :: ingest_time
  ls_stood_down :: bool
  ls_settling :: bool
  ls_owned :: "stream_id list"

definition lease_state_new :: "ingest_time \<Rightarrow> lease_state" where
  "lease_state_new now = \<lparr> ls_members = [], ls_last_contact = None, ls_settled_at = now,
     ls_stood_down = True, ls_settling = False, ls_owned = [] \<rparr>"

definition note_contact :: "ingest_time \<Rightarrow> lease_state \<Rightarrow> lease_state" where
  "note_contact now st =
     (let st = (if ls_last_contact st = None then st\<lparr> ls_settled_at := now \<rparr> else st)
      in st\<lparr> ls_last_contact := Some now \<rparr>)"

definition stand_down :: "ingest_time \<Rightarrow> lease_state \<Rightarrow> lease_state" where
  "stand_down now st = st\<lparr> ls_owned := [], ls_stood_down := True, ls_settling := False,
     ls_last_contact := None, ls_settled_at := now \<rparr>"

definition reconcile ::
  "ingest_time \<Rightarrow> lease_config \<Rightarrow> node_id \<Rightarrow> stream_id list \<Rightarrow> lease_state \<Rightarrow> lease_state" where
  "reconcile now cfg node streams st =
     (let held = (case ls_last_contact st of None \<Rightarrow> False | Some t \<Rightarrow> since now t < hold_for cfg)
      in if \<not> held then stand_down now st
         else if since now (ls_settled_at st) < settle_for cfg
              then st\<lparr> ls_settling := True, ls_owned := [] \<rparr>
              else let st = st\<lparr> ls_settling := False \<rparr>;
                       st = (if ls_stood_down st then st\<lparr> ls_stood_down := False \<rparr> else st);
                       assigned = assigned_to node streams (ls_members st)
                   in if assigned \<noteq> ls_owned st then st\<lparr> ls_owned := assigned \<rparr> else st)"

definition view_of :: "node_id \<Rightarrow> stream_id list \<Rightarrow> ingest_time \<Rightarrow> lease_state \<Rightarrow> cluster_view" where
  "view_of node streams now st = \<lparr> vw_node = node, vw_members = ls_members st,
     vw_owned = map stream_key (ls_owned st),
     vw_elsewhere = map stream_key (filter (\<lambda>s. s \<notin> set (ls_owned st)) streams),
     vw_settling = ls_settling st, vw_stood_down = ls_stood_down st,
     vw_last_contact_ms = map_option (\<lambda>t. millis_u64 (since now t)) (ls_last_contact st) \<rparr>"

definition live_members :: "lease list \<Rightarrow> system_time \<Rightarrow> node_id list" where
  "live_members leases now = btree_set (map le_node (filter (\<lambda>l. \<not> expired_at l now) leases))"

section \<open>Registries\<close>

text \<open>
  What a pass relies on: an announcement replaces this node's own record and no other, a read
  returns the records that are present, a withdrawal removes this node's.
\<close>

locale lease_store =
  fixes announce :: "lease \<Rightarrow> 'r \<Rightarrow> 'r"
    and members :: "'r \<Rightarrow> lease list"
    and withdraw :: "node_id \<Rightarrow> 'r \<Rightarrow> 'r"
    and rec_of :: "'r \<Rightarrow> node_id \<Rightarrow> lease option"
    and ok :: "'r \<Rightarrow> bool"
  assumes rec_announce: "ok r \<Longrightarrow> rec_of (announce l r) = (rec_of r)(le_node l := Some l)"
    and rec_withdraw: "ok r \<Longrightarrow> rec_of (withdraw n r) = (rec_of r)(n := None)"
    and members_recs: "ok r \<Longrightarrow> set (members r) = {l. \<exists>n. rec_of r n = Some l}"
    and rec_node: "ok r \<Longrightarrow> rec_of r n = Some l \<Longrightarrow> le_node l = n"
    and ok_announce: "ok r \<Longrightarrow> ok (announce l r)"
    and ok_withdraw: "ok r \<Longrightarrow> ok (withdraw n r)"
begin

text \<open>A node is read as live exactly when its own record is present and has not expired.\<close>

lemma live_iff:
  assumes "ok r"
  shows "n \<in> set (live_members (members r) now) \<longleftrightarrow> (\<exists>l. rec_of r n = Some l \<and> \<not> expired_at l now)"
proof -
  have "n \<in> set (live_members (members r) now) \<longleftrightarrow>
      (\<exists>l \<in> set (members r). \<not> expired_at l now \<and> le_node l = n)"
    by (auto simp: live_members_def)
  also have "\<dots> \<longleftrightarrow> (\<exists>l. rec_of r n = Some l \<and> \<not> expired_at l now)"
    unfolding members_recs [OF assms] using rec_node [OF assms] by blast
  finally show ?thesis .
qed

text \<open>What one node writes changes nobody else's liveness.\<close>

lemma live_frame:
  assumes "ok r" and "m \<noteq> le_node l"
  shows "m \<in> set (live_members (members (announce l r)) now) \<longleftrightarrow> m \<in> set (live_members (members r) now)"
  using live_iff [OF assms(1)] live_iff [OF ok_announce [OF assms(1)]] rec_announce [OF assms(1), of l] assms(2)
  by simp

end

text \<open>\<open>MemoryRegistry\<close>: the shared store of records, keyed by node.\<close>

type_synonym memory_registry = "(node_id \<times> lease) list"

definition memory_announce :: "lease \<Rightarrow> memory_registry \<Rightarrow> memory_registry" where
  "memory_announce l r = om_insert id (le_node l) l r"

definition memory_members :: "memory_registry \<Rightarrow> lease list" where
  "memory_members r = map snd r"

definition memory_withdraw :: "node_id \<Rightarrow> memory_registry \<Rightarrow> memory_registry" where
  "memory_withdraw n r = om_remove id n r"

definition memory_ok :: "memory_registry \<Rightarrow> bool" where
  "memory_ok r \<longleftrightarrow> om_sorted id r \<and> (\<forall>(n, l) \<in> set r. le_node l = n)"

definition memory_record :: "memory_registry \<Rightarrow> node_id \<Rightarrow> lease option" where
  "memory_record r n = om_get id n r"

lemma memory_ok_announce: "memory_ok r \<Longrightarrow> memory_ok (memory_announce l r)"
proof -
  assume ok: "memory_ok r"
  have "le_node l' = n" if "(n, l') \<in> set (om_insert id (le_node l) l r)" for n l'
  proof -
    have sorted: "om_sorted id (om_insert id (le_node l) l r)" using ok by (simp add: memory_ok_def)
    from om_get_in [OF this that] have "om_get id n (om_insert id (le_node l) l r) = Some l'" by simp
    then show ?thesis
      using ok by (auto simp: memory_ok_def split: if_splits dest!: om_get_mem)
  qed
  with ok show ?thesis by (auto simp: memory_ok_def memory_announce_def)
qed

lemma memory_ok_withdraw: "memory_ok r \<Longrightarrow> memory_ok (memory_withdraw n r)"
  using set_om_remove [of id n r] by (auto simp: memory_ok_def memory_withdraw_def)

interpretation mem: lease_store memory_announce memory_members memory_withdraw memory_record memory_ok
proof
  fix r l n assume ok: "memory_ok r"
  show "memory_record (memory_announce l r) = (memory_record r)(le_node l := Some l)"
    by (auto simp: memory_record_def memory_announce_def)
  show "memory_record (memory_withdraw n r) = (memory_record r)(n := None)"
    using ok by (auto simp: memory_record_def memory_withdraw_def memory_ok_def)
  show "set (memory_members r) = {l. \<exists>n. memory_record r n = Some l}"
  proof (intro set_eqI iffI)
    fix x assume "x \<in> set (memory_members r)"
    then obtain k where "(k, x) \<in> set r" by (auto simp: memory_members_def)
    moreover have "om_sorted id r" using ok by (simp add: memory_ok_def)
    ultimately have "om_get id (id k) r = Some x" by (intro om_get_in)
    then show "x \<in> {l. \<exists>n. memory_record r n = Some l}" unfolding memory_record_def by blast
  next
    fix x assume "x \<in> {l. \<exists>n. memory_record r n = Some l}"
    then obtain n where "om_get id n r = Some x" by (auto simp: memory_record_def)
    then obtain k where "(k, x) \<in> set r" by (blast dest: om_get_mem)
    then show "x \<in> set (memory_members r)" by (force simp: memory_members_def)
  qed
  show "memory_record r n = Some l \<Longrightarrow> le_node l = n"
    using ok by (auto simp: memory_record_def memory_ok_def dest!: om_get_mem)
qed (simp_all add: memory_ok_announce memory_ok_withdraw)

section \<open>One pass\<close>

text \<open>
  One pass of \<open>Coordinator::step\<close>. Three flags say what the registry did: whether the write
  took effect, whether it was acknowledged, and whether the read succeeded.
\<close>

definition coordinator_step ::
  "lease_config \<Rightarrow> stream_id list \<Rightarrow> node_id \<Rightarrow> bool \<Rightarrow> bool \<Rightarrow> bool \<Rightarrow> ingest_time
     \<Rightarrow> lease_state \<times> memory_registry \<Rightarrow> cluster_view \<times> lease_state \<times> memory_registry" where
  "coordinator_step cfg streams node written acked readable now sr =
     (let (st, reg) = sr;
          l = \<lparr> le_node = node, le_written_at_unix_ms = unix_millis (wall_t now),
                le_ttl_ms = millis_u64 (lc_ttl cfg) \<rparr>;
          reg = (if written then memory_announce l reg else reg);
          round_trip = (if acked then (if readable then Some (memory_members reg) else None) else None);
          st = (case round_trip of
                  None \<Rightarrow> st
                | Some ms \<Rightarrow> (note_contact now st)\<lparr> ls_members := live_members ms (wall_t now) \<rparr>);
          st = reconcile now cfg node streams st
      in (view_of node streams now st, st, reg))"

section \<open>Directories\<close>

text \<open>
  The file name of a node's record: anything unusual becomes an underscore. Node ids are read
  as single-byte characters here, as a command line in ASCII gives them.
\<close>

definition is_ascii_alphanumeric :: "char \<Rightarrow> bool" where
  "is_ascii_alphanumeric c \<longleftrightarrow> (CHR ''0'' \<le> c \<and> c \<le> CHR ''9'')
     \<or> (CHR ''A'' \<le> c \<and> c \<le> CHR ''Z'') \<or> (CHR ''a'' \<le> c \<and> c \<le> CHR ''z'')"

definition record_name :: "node_id \<Rightarrow> string" where
  "record_name node = map (\<lambda>c. if is_ascii_alphanumeric c \<or> c = CHR ''-'' \<or> c = CHR ''_'' then c else CHR ''_'') node
     @ ''.json''"

text \<open>
  \<open>DirRegistry\<close>: the directory maps file names to records, each written whole by the rename;
  a record reads back as it was written.
\<close>

type_synonym dir_registry = "(string \<times> lease) list"

definition dir_announce :: "lease \<Rightarrow> dir_registry \<Rightarrow> dir_registry" where
  "dir_announce l d = om_insert id (record_name (le_node l)) l d"

definition dir_members :: "dir_registry \<Rightarrow> lease list" where
  "dir_members d = map snd d"

definition dir_withdraw :: "node_id \<Rightarrow> dir_registry \<Rightarrow> dir_registry" where
  "dir_withdraw n d = om_remove id (record_name n) d"

section \<open>Properties\<close>

text \<open>
  What a node holds after a pass is decided by its last contact alone: nothing without a
  complete round trip within \<open>ttl - guard\<close>, nothing while it settles, and otherwise exactly its
  share of the members it read. Standing down forgets the contact, so coming back is joining.
\<close>

theorem reconcile_outcome:
  "let st' = reconcile now cfg n streams st;
       held = (\<exists>t. ls_last_contact st = Some t \<and> since now t < hold_for cfg);
       settled = (settle_for cfg \<le> since now (ls_settled_at st))
   in ls_owned st' = (if held \<and> settled then assigned_to n streams (ls_members st) else [])
      \<and> ls_last_contact st' = (if held then ls_last_contact st else None)
      \<and> ls_settled_at st' = (if held then ls_settled_at st else now)
      \<and> ls_settling st' = (held \<and> \<not> settled)
      \<and> ls_stood_down st' = (if held \<and> settled then False else if held then ls_stood_down st else True)"
  by (cases "ls_last_contact st") (auto simp: reconcile_def stand_down_def Let_def)

lemma record_name_plain:
  assumes "\<forall>c \<in> set n. is_ascii_alphanumeric c \<or> c = CHR ''-'' \<or> c = CHR ''_''"
  shows "record_name n = n @ ''.json''"
  using assms by (auto simp: record_name_def intro!: map_idI)

text \<open>
  In a directory, nodes whose names are plain (letters, digits, dash and underscore) write
  different files: what one announces or withdraws leaves the record of every other untouched.
\<close>

theorem dir_records_separate:
  assumes "\<forall>c \<in> set n \<union> set m. is_ascii_alphanumeric c \<or> c = CHR ''-'' \<or> c = CHR ''_''"
    and "n \<noteq> m" and "le_node l = n" and "om_sorted id d"
  shows "om_get id (record_name m) (dir_announce l d) = om_get id (record_name m) d
    \<and> om_get id (record_name n) (dir_announce l d) = Some l
    \<and> om_get id (record_name m) (dir_withdraw n d) = om_get id (record_name m) d
    \<and> om_get id (record_name n) (dir_withdraw n d) = None"
proof -
  have "record_name n \<noteq> record_name m" using assms(1,2) by (simp add: record_name_plain)
  then show ?thesis using assms(3,4) by (auto simp: dir_announce_def dir_withdraw_def)
qed

lemma dir_records_separate_witness:
  "let l = \<lparr> le_node = ''a'', le_written_at_unix_ms = 5, le_ttl_ms = 7 \<rparr>
   in om_get id (record_name ''b-1'') (dir_announce l []) = None"
  using dir_records_separate [of "''a''" "''b-1''" "\<lparr> le_node = ''a'', le_written_at_unix_ms = 5, le_ttl_ms = 7 \<rparr>" "[]"]
  by (simp add: is_ascii_alphanumeric_def)

text \<open>
  Names that are not plain can share a file: the announcement of one node replaces the
  record of another, which then counts as dead however recently it was written.
\<close>

theorem record_name_collides:
  "let a = \<lparr> le_node = ''eu_1'', le_written_at_unix_ms = 5, le_ttl_ms = 7 \<rparr>;
       b = \<lparr> le_node = ''eu.1'', le_written_at_unix_ms = 6, le_ttl_ms = 7 \<rparr>
   in dir_members (dir_announce b (dir_announce a [])) = [b]
      \<and> le_node a \<notin> set (live_members (dir_members (dir_announce b (dir_announce a []))) now)"
proof -
  have "record_name ''eu_1'' = ''eu_1.json''" "record_name ''eu.1'' = ''eu_1.json''"
    by (simp_all add: record_name_def is_ascii_alphanumeric_def)
  then show ?thesis
    by (auto simp: dir_announce_def dir_members_def live_members_def btree_set_def)
qed

end
