(* ===== verification/Cluster.thy ===== *)
theory Cluster
  imports Lease
begin

text \<open>
  A whole cluster: nodes that start, crash, leave and run passes of
  \<open>Coordinator::run\<close> against one shared registry, interleaved in any order with the passage
  of time, with writes that may be lost or unacknowledged and reads that may fail. Clocks tick
  at the same rate; wall clocks may disagree by a fixed offset per node. The one timing
  assumption is an upper bound on the gap between two passes of a running node.

  The central theorem is the promise of the module documentation: at most one node holds a
  stream at a time. It needs the gap plus the wall-clock disagreement to fit in the guard.
\<close>

section \<open>The transition system\<close>

record node_run =
  nr_state :: lease_state
  nr_last_pass :: nat

record cluster =
  cs_now :: nat
  cs_nodes :: "(node_id \<times> node_run) list"
  cs_registry :: memory_registry

record cluster_params =
  cp_config :: lease_config
  cp_streams :: "stream_id list"
  cp_max_gap :: duration
  cp_offset :: "node_id \<Rightarrow> nat"

datatype cluster_event =
    Tick duration
  | Start node_id
  | Crash node_id
  | Leave node_id bool
  | Pass node_id bool bool bool

definition clock_of :: "cluster_params \<Rightarrow> node_id \<Rightarrow> nat \<Rightarrow> ingest_time" where
  "clock_of p n t = \<lparr> mono_t = t, wall_t = int (t + cp_offset p n) \<rparr>"

definition running :: "cluster \<Rightarrow> node_id \<Rightarrow> node_run option" where
  "running c n = om_get id n (cs_nodes c)"

fun cluster_step :: "cluster_params \<Rightarrow> cluster_event \<Rightarrow> cluster \<Rightarrow> cluster option" where
  "cluster_step p (Tick d) c =
     (if list_all (\<lambda>(_, r). cs_now c + d \<le> nr_last_pass r + cp_max_gap p) (cs_nodes c)
      then Some (c\<lparr> cs_now := cs_now c + d \<rparr>) else None)"
| "cluster_step p (Start n) c =
     (if running c n = None
      then Some (c\<lparr> cs_nodes := om_insert id n
             \<lparr> nr_state = lease_state_new (clock_of p n (cs_now c)), nr_last_pass = cs_now c \<rparr> (cs_nodes c) \<rparr>)
      else None)"
| "cluster_step p (Crash n) c = Some (c\<lparr> cs_nodes := om_remove id n (cs_nodes c) \<rparr>)"
| "cluster_step p (Leave n withdrawn) c =
     Some (c\<lparr> cs_nodes := om_remove id n (cs_nodes c),
              cs_registry := (if withdrawn then memory_withdraw n (cs_registry c) else cs_registry c) \<rparr>)"
| "cluster_step p (Pass n written acked readable) c =
     (case running c n of
        None \<Rightarrow> None
      | Some r \<Rightarrow>
          if acked \<and> \<not> written then None
          else (case coordinator_step (cp_config p) (cp_streams p) n written acked readable
                       (clock_of p n (cs_now c)) (nr_state r, cs_registry c) of
                  (_, st, reg) \<Rightarrow>
                    Some (c\<lparr> cs_nodes := om_insert id n \<lparr> nr_state = st, nr_last_pass = cs_now c \<rparr> (cs_nodes c),
                             cs_registry := reg \<rparr>)))"

inductive reachable :: "cluster_params \<Rightarrow> cluster \<Rightarrow> bool" for p where
  init: "memory_ok reg \<Longrightarrow> reachable p \<lparr> cs_now = t, cs_nodes = [], cs_registry = reg \<rparr>"
| step: "reachable p c \<Longrightarrow> cluster_step p e c = Some c' \<Longrightarrow> reachable p c'"

primrec cluster_run :: "cluster_params \<Rightarrow> cluster_event list \<Rightarrow> cluster \<Rightarrow> cluster option" where
  "cluster_run p [] c = Some c"
| "cluster_run p (e # es) c = (case cluster_step p e c of None \<Rightarrow> None | Some c' \<Rightarrow> cluster_run p es c')"

lemma reachable_run: "reachable p c \<Longrightarrow> cluster_run p es c = Some c' \<Longrightarrow> reachable p c'"
  by (induction es arbitrary: c) (auto split: option.splits intro: reachable.step)

definition owned_by :: "cluster \<Rightarrow> node_id \<Rightarrow> stream_id set" where
  "owned_by c n = (case running c n of None \<Rightarrow> {} | Some r \<Rightarrow> set (ls_owned (nr_state r)))"

section \<open>Expiry seen from another machine\<close>

definition ms :: nat where "ms = 1000000"

lemma unix_millis_nat: "unix_millis (int t) = sat_u64 (t div ms)"
  by (simp add: unix_millis_def millis_u64_def ms_def)

text \<open>
  A record whose holder had contact at \<open>c\<close> is not expired for a reader at \<open>t\<close>, as long as less
  than the time to live has passed, allowing for the disagreement of the two wall clocks.
\<close>

lemma not_expired:
  assumes w: "unix_millis (int (c + o1)) \<le> le_written_at_unix_ms l" and ttl: "le_ttl_ms l = millis_u64 ttl"
    and whole: "ms dvd ttl" and age: "t + o2 < c + o1 + ttl"
  shows "\<not> expired_at l (int (t + o2))"
proof
  assume "expired_at l (int (t + o2))"
  then have ex: "min (le_written_at_unix_ms l + le_ttl_ms l) u64_max < sat_u64 ((t + o2) div ms)"
    by (simp add: expired_at_def millis_u64_def ms_def del: of_nat_add)
  then have sum: "le_written_at_unix_ms l + le_ttl_ms l < (t + o2) div ms"
    and small: "le_written_at_unix_ms l + le_ttl_ms l < u64_max"
    by (auto simp: sat_u64_def min_def split: if_splits)
  have "le_ttl_ms l = ttl div ms"
    using small ttl by (simp add: millis_u64_def sat_u64_def ms_def min_def split: if_splits)
  moreover have "(c + o1) div ms \<le> le_written_at_unix_ms l"
    using w small by (simp add: unix_millis_nat sat_u64_def min_def del: of_nat_add split: if_splits)
  ultimately have "(c + o1) div ms + ttl div ms < (t + o2) div ms" using sum by linarith
  moreover have "(c + o1) div ms + ttl div ms = (c + o1 + ttl) div ms"
    using whole by (auto simp: dvd_def ms_def)
  ultimately have "(c + o1 + ttl) div ms < (t + o2) div ms" by simp
  moreover have "(t + o2) div ms \<le> (c + o1 + ttl) div ms"
    using age by (intro div_le_mono) simp
  ultimately show False by simp
qed

section \<open>What one pass does to a node\<close>

lemma coordinator_step_eq:
  "coordinator_step cfg streams n written acked readable now (st, reg) = (v, st', reg') \<longleftrightarrow>
     (let l = \<lparr> le_node = n, le_written_at_unix_ms = unix_millis (wall_t now),
                le_ttl_ms = millis_u64 (lc_ttl cfg) \<rparr>;
          reg1 = (if written then memory_announce l reg else reg);
          st1 = (if acked \<and> readable
                 then (note_contact now st)\<lparr> ls_members := live_members (memory_members reg1) (wall_t now) \<rparr>
                 else st)
      in reg' = reg1 \<and> st' = reconcile now cfg n streams st1 \<and> v = view_of n streams now st')"
  by (auto simp: coordinator_step_def Let_def)

text \<open>What holds of a node's own state after any of its passes.\<close>

definition self_ok :: "lease_config \<Rightarrow> node_id \<Rightarrow> nat \<Rightarrow> lease_state \<Rightarrow> bool" where
  "self_ok cfg n a st \<longleftrightarrow>
     (case ls_last_contact st of
        None \<Rightarrow> ls_owned st = []
      | Some t \<Rightarrow> mono_t (ls_settled_at st) \<le> mono_t t \<and> mono_t t \<le> a \<and> a - mono_t t < hold_for cfg
          \<and> (ls_owned st \<noteq> [] \<longrightarrow> settle_for cfg \<le> a - mono_t (ls_settled_at st)
               \<and> (\<forall>s \<in> set (ls_owned st). owner s (ls_members st) = Some n)))"

lemma reconcile_self_ok:
  assumes "case ls_last_contact st of None \<Rightarrow> True
      | Some t \<Rightarrow> mono_t (ls_settled_at st) \<le> mono_t t \<and> mono_t t \<le> mono_t now"
  shows "self_ok cfg n (mono_t now) (reconcile now cfg n streams st)"
proof (cases "ls_last_contact st")
  case None
  then show ?thesis by (simp add: reconcile_def stand_down_def self_ok_def)
next
  case (Some t)
  have owned: "\<forall>s \<in> set (assigned_to n streams (ls_members st)). owner s (ls_members st) = Some n"
    by (simp add: set_assigned_to)
  from Some assms owned show ?thesis
    by (cases "assigned_to n streams (ls_members st) = ls_owned st")
      (auto simp: reconcile_def stand_down_def self_ok_def since_def Let_def)
qed

lemma reconcile_contact:
  "ls_last_contact (reconcile now cfg n streams st) \<in> {ls_last_contact st, None}"
  "ls_last_contact (reconcile now cfg n streams st) = Some t \<Longrightarrow>
     ls_settled_at (reconcile now cfg n streams st) = ls_settled_at st
     \<and> ls_members (reconcile now cfg n streams st) = ls_members st"
  by (auto simp: reconcile_def stand_down_def Let_def split: option.splits if_splits)

section \<open>The invariant\<close>

text \<open>A node that has contact has a record at least as young as that contact.\<close>

definition recorded :: "cluster_params \<Rightarrow> memory_registry \<Rightarrow> node_id \<Rightarrow> lease_state \<Rightarrow> bool" where
  "recorded p reg n st \<longleftrightarrow>
     (case ls_last_contact st of
        None \<Rightarrow> True
      | Some t \<Rightarrow> (\<exists>l. memory_record reg n = Some l
          \<and> unix_millis (int (mono_t t + cp_offset p n)) \<le> le_written_at_unix_ms l
          \<and> le_ttl_ms l = millis_u64 (lc_ttl (cp_config p))))"

text \<open>
  Of two nodes with contact, the second saw the first in its last read, unless that read came
  before the first had joined.
\<close>

definition aware :: "node_id \<Rightarrow> lease_state \<Rightarrow> lease_state \<Rightarrow> bool" where
  "aware n st other \<longleftrightarrow>
     (case (ls_last_contact st, ls_last_contact other) of
        (Some _, Some t) \<Rightarrow> n \<in> set (ls_members other) \<or> mono_t t \<le> mono_t (ls_settled_at st)
      | _ \<Rightarrow> True)"

definition cluster_inv :: "cluster_params \<Rightarrow> cluster \<Rightarrow> bool" where
  "cluster_inv p c \<longleftrightarrow> memory_ok (cs_registry c) \<and> om_sorted id (cs_nodes c)
     \<and> (\<forall>n r. running c n = Some r \<longrightarrow> nr_last_pass r \<le> cs_now c
          \<and> cs_now c \<le> nr_last_pass r + cp_max_gap p
          \<and> self_ok (cp_config p) n (nr_last_pass r) (nr_state r)
          \<and> recorded p (cs_registry c) n (nr_state r))
     \<and> (\<forall>n r m r'. n \<noteq> m \<longrightarrow> running c n = Some r \<longrightarrow> running c m = Some r'
          \<longrightarrow> aware n (nr_state r) (nr_state r'))"

lemma inv_pair:
  assumes "cluster_inv p c" and "running c n = Some r" and "running c m = Some r'" and "n \<noteq> m"
  shows "aware n (nr_state r) (nr_state r')"
  using assms unfolding cluster_inv_def by presburger

lemma inv_node:
  assumes "cluster_inv p c" and "running c n = Some r"
  shows "nr_last_pass r \<le> cs_now c" and "cs_now c \<le> nr_last_pass r + cp_max_gap p"
    and "self_ok (cp_config p) n (nr_last_pass r) (nr_state r)" and "recorded p (cs_registry c) n (nr_state r)"
  using assms unfolding cluster_inv_def by presburger+

text \<open>The timing assumption: pass gap and clock disagreement fit in the guard.\<close>

definition timely :: "cluster_params \<Rightarrow> duration \<Rightarrow> bool" where
  "timely p eps \<longleftrightarrow> cp_max_gap p + eps \<le> lc_guard (cp_config p)
     \<and> (\<forall>n m. cp_offset p n \<le> cp_offset p m + eps)
     \<and> ms dvd lc_ttl (cp_config p) \<and> lc_ttl (cp_config p) \<le> duration_max"

text \<open>Everyone with contact is live to whoever reads now.\<close>

lemma contact_is_live:
  assumes inv: "cluster_inv p c" and time: "timely p eps"
    and n: "running c n = Some r" "ls_last_contact (nr_state r) = Some t"
  shows "\<exists>l. memory_record (cs_registry c) n = Some l
    \<and> \<not> expired_at l (wall_t (clock_of p m (cs_now c)))"
proof -
  have r: "cs_now c \<le> nr_last_pass r + cp_max_gap p" "self_ok (cp_config p) n (nr_last_pass r) (nr_state r)"
    "recorded p (cs_registry c) n (nr_state r)"
    using inv n(1) unfolding cluster_inv_def by blast+
  obtain l where l: "memory_record (cs_registry c) n = Some l"
    and w: "unix_millis (int (mono_t t + cp_offset p n)) \<le> le_written_at_unix_ms l"
    and ttl: "le_ttl_ms l = millis_u64 (lc_ttl (cp_config p))"
    using r(3) n(2) by (auto simp: recorded_def)
  have held: "nr_last_pass r - mono_t t < hold_for (cp_config p)"
    using r(2) n(2) by (simp add: self_ok_def)
  have off: "cp_offset p m \<le> cp_offset p n + eps" and gap: "cp_max_gap p + eps \<le> lc_guard (cp_config p)"
    and whole: "ms dvd lc_ttl (cp_config p)"
    using time unfolding timely_def by blast+
  have "cs_now c + cp_offset p m < mono_t t + cp_offset p n + lc_ttl (cp_config p)"
    using held off gap r(1) unfolding hold_for_def by linarith
  from not_expired [OF w ttl whole this] l show ?thesis
    by (simp add: clock_of_def del: of_nat_add)
qed

section \<open>Every step keeps the invariant\<close>

lemma unix_millis_mono: "a \<le> b \<Longrightarrow> unix_millis (int a) \<le> unix_millis (int b)"
  using div_le_mono [of a b ms] unfolding unix_millis_nat sat_u64_def by linarith

lemma running_insert:
  "running (c\<lparr> cs_nodes := om_insert id n r (cs_nodes c), cs_registry := reg \<rparr>) m
     = (if m = n then Some r else running c m)"
  "running (c\<lparr> cs_nodes := om_insert id n r (cs_nodes c) \<rparr>) m = (if m = n then Some r else running c m)"
  by (simp_all add: running_def)

lemma running_remove:
  "om_sorted id (cs_nodes c) \<Longrightarrow>
   running (c\<lparr> cs_nodes := om_remove id n (cs_nodes c) \<rparr>) m = (if m = n then None else running c m)"
  "om_sorted id (cs_nodes c) \<Longrightarrow>
   running (c\<lparr> cs_nodes := om_remove id n (cs_nodes c), cs_registry := reg \<rparr>) m
     = (if m = n then None else running c m)"
  by (simp_all add: running_def)

lemma recorded_frame:
  "memory_record reg' n = memory_record reg n \<Longrightarrow> recorded p reg n st \<Longrightarrow> recorded p reg' n st"
  by (auto simp: recorded_def split: option.splits)

lemma recorded_no_contact [simp]: "ls_last_contact st = None \<Longrightarrow> recorded p reg n st"
  by (simp add: recorded_def)

lemma aware_no_contact [simp]:
  "ls_last_contact st = None \<Longrightarrow> aware n st other" "ls_last_contact other = None \<Longrightarrow> aware n st other"
  by (auto simp: aware_def split: option.splits)

lemma inv_tick:
  assumes inv: "cluster_inv p c" and step: "cluster_step p (Tick d) c = Some c'"
  shows "cluster_inv p c'"
proof -
  have all: "list_all (\<lambda>(_, r). cs_now c + d \<le> nr_last_pass r + cp_max_gap p) (cs_nodes c)"
    and c': "c' = c\<lparr> cs_now := cs_now c + d \<rparr>"
    using step by (auto split: if_splits)
  have "cs_now c + d \<le> nr_last_pass r + cp_max_gap p" if "running c n = Some r" for n r
  proof -
    from om_get_mem [of id n "cs_nodes c" r] that obtain k where "(k, r) \<in> set (cs_nodes c)"
      unfolding running_def by blast
    with all show ?thesis by (auto simp: list_all_iff)
  qed
  moreover have "running c' n = running c n" for n by (simp add: c' running_def)
  moreover have "cs_nodes c' = cs_nodes c" "cs_registry c' = cs_registry c" "cs_now c \<le> cs_now c'"
    "cs_now c' = cs_now c + d" by (simp_all add: c')
  ultimately show ?thesis using inv unfolding cluster_inv_def by (metis le_trans)
qed

lemma inv_start:
  assumes inv: "cluster_inv p c" and step: "cluster_step p (Start n) c = Some c'"
  shows "cluster_inv p c'"
proof -
  let ?st = "lease_state_new (clock_of p n (cs_now c))"
  have c': "c' = c\<lparr> cs_nodes := om_insert id n \<lparr> nr_state = ?st, nr_last_pass = cs_now c \<rparr> (cs_nodes c) \<rparr>"
    using step by (auto split: if_splits)
  have new: "ls_last_contact ?st = None" "self_ok (cp_config p) n (cs_now c) ?st"
    by (simp_all add: lease_state_new_def self_ok_def)
  show ?thesis
    using inv new unfolding cluster_inv_def c' running_insert by auto
qed

lemma inv_crash:
  assumes inv: "cluster_inv p c" and step: "cluster_step p (Crash n) c = Some c'"
  shows "cluster_inv p c'"
proof -
  have sorted: "om_sorted id (cs_nodes c)" using inv by (simp add: cluster_inv_def)
  have c': "c' = c\<lparr> cs_nodes := om_remove id n (cs_nodes c) \<rparr>" using step by simp
  show ?thesis
    using inv sorted unfolding cluster_inv_def c' running_remove(1) [OF sorted] by auto
qed

lemma inv_leave:
  assumes inv: "cluster_inv p c" and step: "cluster_step p (Leave n w) c = Some c'"
  shows "cluster_inv p c'"
proof -
  let ?reg = "if w then memory_withdraw n (cs_registry c) else cs_registry c"
  have sorted: "om_sorted id (cs_nodes c)" and ok: "memory_ok (cs_registry c)"
    using inv by (simp_all add: cluster_inv_def)
  have c': "c' = c\<lparr> cs_nodes := om_remove id n (cs_nodes c), cs_registry := ?reg \<rparr>" using step by simp
  have "recorded p ?reg m st" if "recorded p (cs_registry c) m st" "m \<noteq> n" for m st
    using that mem.rec_withdraw [OF ok, of n] by (auto intro: recorded_frame)
  moreover have "memory_ok ?reg" using ok by (simp add: mem.ok_withdraw)
  ultimately show ?thesis
    using inv sorted unfolding cluster_inv_def c' running_remove(2) [OF sorted] by auto
qed

text \<open>A pass, seen from the node that makes it.\<close>

lemma inv_pass_own:
  assumes inv: "cluster_inv p c" and r: "running c n = Some r"
    and reg: "reg = (if written then memory_announce \<lparr> le_node = n,
          le_written_at_unix_ms = unix_millis (wall_t (clock_of p n (cs_now c))),
          le_ttl_ms = millis_u64 (lc_ttl (cp_config p)) \<rparr> (cs_registry c) else cs_registry c)"
    and st1: "st1 = (if acked \<and> readable
          then (note_contact (clock_of p n (cs_now c)) (nr_state r))\<lparr> ls_members := ms' \<rparr> else nr_state r)"
    and ack: "acked \<Longrightarrow> written"
  shows "case ls_last_contact st1 of None \<Rightarrow> True
      | Some t \<Rightarrow> mono_t (ls_settled_at st1) \<le> mono_t t \<and> mono_t t \<le> cs_now c"
    and "recorded p reg n st1"
proof -
  have ok: "memory_ok (cs_registry c)" and past: "nr_last_pass r \<le> cs_now c"
    and self: "self_ok (cp_config p) n (nr_last_pass r) (nr_state r)"
    and rec: "recorded p (cs_registry c) n (nr_state r)"
    using inv r unfolding cluster_inv_def by blast+
  show "case ls_last_contact st1 of None \<Rightarrow> True
      | Some t \<Rightarrow> mono_t (ls_settled_at st1) \<le> mono_t t \<and> mono_t t \<le> cs_now c"
    using self past
    by (auto simp: st1 note_contact_def self_ok_def Let_def clock_of_def split: option.splits)
  show "recorded p reg n st1"
  proof (cases written)
    case False
    moreover have "\<not> acked" using False ack by blast
    ultimately show ?thesis using rec by (simp add: st1 reg)
  next
    case True
    have own: "memory_record reg n = Some \<lparr> le_node = n,
          le_written_at_unix_ms = unix_millis (int (cs_now c + cp_offset p n)),
          le_ttl_ms = millis_u64 (lc_ttl (cp_config p)) \<rparr>"
      using True by (simp add: reg mem.rec_announce [OF ok] clock_of_def del: of_nat_add)
    have "mono_t t \<le> cs_now c" if "ls_last_contact st1 = Some t" for t
      using that self past
      by (auto simp: st1 note_contact_def self_ok_def Let_def clock_of_def split: option.splits if_splits)
    then have "unix_millis (int (mono_t t + cp_offset p n)) \<le> unix_millis (int (cs_now c + cp_offset p n))"
      if "ls_last_contact st1 = Some t" for t
      using that by (intro unix_millis_mono) auto
    then show ?thesis
      by (auto simp: recorded_def own simp del: of_nat_add split: option.splits)
  qed
qed

lemma inv_pass:
  assumes inv: "cluster_inv p c" and time: "timely p eps"
    and step: "cluster_step p (Pass n written acked readable) c = Some c'"
  shows "cluster_inv p c'"
proof -
  let ?now = "clock_of p n (cs_now c)"
  obtain r where r: "running c n = Some r" and ack: "acked \<Longrightarrow> written"
    using step by (cases "running c n") (auto split: if_splits)
  obtain v st reg where pass: "coordinator_step (cp_config p) (cp_streams p) n written acked readable ?now
      (nr_state r, cs_registry c) = (v, st, reg)"
    by (metis prod_cases3)
  have c': "c' = c\<lparr> cs_nodes := om_insert id n \<lparr> nr_state = st, nr_last_pass = cs_now c \<rparr> (cs_nodes c),
      cs_registry := reg \<rparr>"
    using step r ack pass by (auto split: if_splits)
  define l where "l = \<lparr> le_node = n, le_written_at_unix_ms = unix_millis (wall_t ?now),
      le_ttl_ms = millis_u64 (lc_ttl (cp_config p)) \<rparr>"
  have reg: "reg = (if written then memory_announce l (cs_registry c) else cs_registry c)"
    using pass unfolding coordinator_step_eq Let_def l_def by blast
  define st1 where "st1 = (if acked \<and> readable
      then (note_contact ?now (nr_state r))\<lparr> ls_members := live_members (memory_members reg) (wall_t ?now) \<rparr>
      else nr_state r)"
  have st: "st = reconcile ?now (cp_config p) n (cp_streams p) st1"
    using pass unfolding coordinator_step_eq Let_def st1_def reg l_def by blast
  have ok: "memory_ok (cs_registry c)" and sorted: "om_sorted id (cs_nodes c)"
    using inv by (simp_all add: cluster_inv_def)
  note own = inv_pass_own [OF inv r reg [unfolded l_def] st1_def ack]
  have self: "self_ok (cp_config p) n (cs_now c) st"
  proof -
    have "mono_t ?now = cs_now c" by (simp add: clock_of_def)
    with reconcile_self_ok [of st1 ?now "cp_config p" n "cp_streams p"] own(1) st show ?thesis by metis
  qed
  have kept: "ls_last_contact st = None \<or> ls_last_contact st = ls_last_contact st1
      \<and> ls_settled_at st = ls_settled_at st1 \<and> ls_members st = ls_members st1"
    using reconcile_contact [of ?now "cp_config p" n "cp_streams p" st1] unfolding st [symmetric]
    by (cases "ls_last_contact st") auto
  have rec: "recorded p reg n st"
    using own(2) kept by (auto simp: recorded_def split: option.splits)
  have others: "recorded p reg m (nr_state r')" if "running c m = Some r'" "m \<noteq> n" for m r'
  proof -
    have "recorded p (cs_registry c) m (nr_state r')" using inv that(1) unfolding cluster_inv_def by blast
    moreover have "memory_record reg m = memory_record (cs_registry c) m"
      using that(2) by (simp add: reg mem.rec_announce [OF ok] l_def)
    ultimately show ?thesis by (rule recorded_frame [rotated])
  qed
  have here: "ls_last_contact st1 = Some ?now" if "acked" "readable"
    using that by (simp add: st1_def note_contact_def Let_def)
  have sees: "aware m (nr_state r') st" if m: "running c m = Some r'" "m \<noteq> n" for m r'
  proof (cases "ls_last_contact st = None \<or> ls_last_contact (nr_state r') = None")
    case False
    then obtain t where t: "ls_last_contact (nr_state r') = Some t" and st': "ls_members st = ls_members st1"
      "ls_last_contact st = ls_last_contact st1" using kept by auto
    show ?thesis
    proof (cases "acked \<and> readable")
      case True
      from contact_is_live [OF inv time m(1) t, of n] obtain lm where
        lm: "memory_record (cs_registry c) m = Some lm" "\<not> expired_at lm (wall_t ?now)" by blast
      have "memory_ok reg" using ok by (simp add: reg mem.ok_announce)
      moreover have "memory_record reg m = Some lm"
        using lm(1) m(2) by (simp add: reg mem.rec_announce [OF ok] l_def)
      ultimately have "m \<in> set (live_members (memory_members reg) (wall_t ?now))"
        using lm(2) by (auto simp: mem.live_iff)
      then show ?thesis using True st' by (auto simp: aware_def st1_def split: option.splits)
    next
      case no: False
      from inv_pair [OF inv m(1) r m(2)] show ?thesis using no st' by (auto simp: aware_def st1_def split: option.splits)
    qed
  qed auto
  have seen: "aware n st (nr_state r')" if m: "running c m = Some r'" "m \<noteq> n" for m r'
  proof (cases "ls_last_contact st = None")
    case False
    note a = inv_pair [OF inv r m(1) m(2) [symmetric]]
    note self' = inv_node(3) [OF inv m(1)] and past = inv_node(1) [OF inv m(1)]
    have before: "mono_t t \<le> cs_now c" if "ls_last_contact (nr_state r') = Some t" for t
      using self' past that by (simp add: self_ok_def)
    have "ls_settled_at st1 = (if acked \<and> readable \<and> ls_last_contact (nr_state r) = None
        then ?now else ls_settled_at (nr_state r))"
      by (simp add: st1_def note_contact_def Let_def)
    moreover have "ls_settled_at st = ls_settled_at st1" "ls_last_contact st = ls_last_contact st1"
      using kept False by auto
    moreover have "ls_last_contact (nr_state r) = None \<Longrightarrow> acked \<and> readable"
      using False kept by (auto simp: st1_def split: if_splits)
    ultimately show ?thesis
      using a before by (auto simp: aware_def clock_of_def split: option.splits if_splits)
  qed auto
  have at_n: "r' = \<lparr> nr_state = st, nr_last_pass = cs_now c \<rparr>" if "running c' n = Some r'" for r'
    using that by (simp add: c' running_insert)
  have not_n: "running c m = Some r'" if "running c' m = Some r'" "m \<noteq> n" for m r'
    using that by (simp add: c' running_insert)
  have node: "nr_last_pass r' \<le> cs_now c \<and> cs_now c \<le> nr_last_pass r' + cp_max_gap p
      \<and> self_ok (cp_config p) m (nr_last_pass r') (nr_state r') \<and> recorded p reg m (nr_state r')"
    if m: "running c' m = Some r'" for m r'
  proof (cases "m = n")
    case True
    with m at_n self rec show ?thesis by simp
  next
    case False
    have "recorded p reg m (nr_state r')" using others not_n [OF m False] False by blast
    with inv_node [OF inv not_n [OF m False]] show ?thesis by blast
  qed
  have pair: "aware m (nr_state r') (nr_state r'')"
    if mk: "m \<noteq> k" "running c' m = Some r'" "running c' k = Some r''" for m k r' r''
  proof (cases "m = n \<or> k = n")
    case True
    show ?thesis
    proof (cases "m = n")
      case True
      with mk have k: "k \<noteq> n" and r': "r' = \<lparr> nr_state = st, nr_last_pass = cs_now c \<rparr>" using at_n by blast+
      from seen [OF not_n [OF mk(3) k] k] show ?thesis by (simp add: True r')
    next
      case m: False
      with True have k: "k = n" by blast
      with mk have r'': "r'' = \<lparr> nr_state = st, nr_last_pass = cs_now c \<rparr>" using at_n by blast
      from sees [OF not_n [OF mk(2) m] m] show ?thesis by (simp add: r'')
    qed
  next
    case False
    then have "running c m = Some r'" "running c k = Some r''" using mk not_n by blast+
    then show ?thesis using inv_pair [OF inv _ _ mk(1)] by blast
  qed
  have "memory_ok reg" "om_sorted id (cs_nodes c')" using ok sorted by (simp_all add: c' reg mem.ok_announce)
  moreover have "cs_registry c' = reg" "cs_now c' = cs_now c" by (simp_all add: c')
  ultimately show ?thesis unfolding cluster_inv_def using node pair by simp
qed

lemma cluster_step_inv:
  assumes "cluster_inv p c" and "timely p eps" and "cluster_step p e c = Some c'"
  shows "cluster_inv p c'"
proof (cases e)
  case (Tick d)
  show ?thesis by (rule inv_tick [OF assms(1) assms(3) [unfolded Tick]])
next
  case (Start n)
  show ?thesis by (rule inv_start [OF assms(1) assms(3) [unfolded Start]])
next
  case (Crash n)
  show ?thesis by (rule inv_crash [OF assms(1) assms(3) [unfolded Crash]])
next
  case (Leave n w)
  show ?thesis by (rule inv_leave [OF assms(1) assms(3) [unfolded Leave]])
next
  case (Pass n w a r)
  show ?thesis by (rule inv_pass [OF assms(1,2) assms(3) [unfolded Pass]])
qed

lemma reachable_inv:
  assumes "reachable p c" and "timely p eps"
  shows "cluster_inv p c"
  using assms
proof (induction rule: reachable.induct)
  case init
  then show ?case by (simp add: cluster_inv_def running_def)
next
  case step
  then show ?case using cluster_step_inv by blast
qed

text \<open>Someone who holds a stream is known to everyone else who does.\<close>

lemma holder_is_known:
  assumes inv: "cluster_inv p c" and time: "timely p eps" and nm: "n \<noteq> m"
    and n: "running c n = Some r" "ls_owned (nr_state r) \<noteq> []"
    and m: "running c m = Some r'" "ls_owned (nr_state r') \<noteq> []"
  shows "n \<in> set (ls_members (nr_state r'))"
proof (rule ccontr)
  assume unknown: "n \<notin> set (ls_members (nr_state r'))"
  have sn: "self_ok (cp_config p) n (nr_last_pass r) (nr_state r)" "nr_last_pass r \<le> cs_now c"
    and sm: "self_ok (cp_config p) m (nr_last_pass r') (nr_state r')" "cs_now c \<le> nr_last_pass r' + cp_max_gap p"
    and aw: "aware n (nr_state r) (nr_state r')"
    using inv_node [OF inv n(1)] inv_node [OF inv m(1)] inv_pair [OF inv n(1) m(1) nm] by blast+
  obtain tn where tn: "ls_last_contact (nr_state r) = Some tn"
    "settle_for (cp_config p) \<le> nr_last_pass r - mono_t (ls_settled_at (nr_state r))"
    using sn n(2) by (auto simp: self_ok_def split: option.splits)
  obtain tm where tm: "ls_last_contact (nr_state r') = Some tm"
    "nr_last_pass r' - mono_t tm < hold_for (cp_config p)"
    using sm m(2) by (auto simp: self_ok_def split: option.splits)
  have "mono_t tm \<le> mono_t (ls_settled_at (nr_state r))"
    using aw tn(1) tm(1) unknown by (simp add: aware_def)
  moreover have "cp_max_gap p \<le> lc_guard (cp_config p)" "lc_ttl (cp_config p) \<le> duration_max"
    using time unfolding timely_def by linarith+
  ultimately show False
    using tn(2) tm(2) sn(2) sm(2) unfolding settle_for_def hold_for_def by linarith
qed

section \<open>A trace of two nodes\<close>

text \<open>
  Two nodes, perfect clocks, a pass at least every 3.2 seconds: the default period of 3 seconds
  and 0.2 seconds for the round trip that precedes each sleep. The guard is a parameter.
\<close>

definition trace_streams :: "stream_id list" where "trace_streams = [StreamId Kraken ''BTC-USD'']"

definition trace_params :: "duration \<Rightarrow> cluster_params" where
  "trace_params g = \<lparr> cp_config = lease_config_default\<lparr> lc_guard := g \<rparr>, cp_streams = trace_streams,
     cp_max_gap = from_millis 3200, cp_offset = (\<lambda>_. 0) \<rparr>"

definition empty_cluster :: cluster where
  "empty_cluster = \<lparr> cs_now = 0, cs_nodes = [], cs_registry = [] \<rparr>"

abbreviation good :: "node_id \<Rightarrow> cluster_event" where "good n \<equiv> Pass n True True True"
abbreviation blind :: "node_id \<Rightarrow> cluster_event" where "blind n \<equiv> Pass n False False False"
abbreviation wait :: "nat \<Rightarrow> cluster_event" where "wait k \<equiv> Tick (from_millis k)"

definition node_at where
  "node_at c se mb ow sd sg = \<lparr> ls_members = mb,
     ls_last_contact = map_option (\<lambda>t. \<lparr> mono_t = t, wall_t = int t \<rparr>) c,
     ls_settled_at = \<lparr> mono_t = se, wall_t = int se \<rparr>, ls_stood_down = sd, ls_settling = sg, ls_owned = ow \<rparr>"

definition record_at where
  "record_at n t = \<lparr> le_node = n, le_written_at_unix_ms = t, le_ttl_ms = 15000 \<rparr>"

definition two_nodes where
  "two_nodes t na ta nb tb ra rb = \<lparr> cs_now = t,
     cs_nodes = [(''a'', \<lparr> nr_state = na, nr_last_pass = ta \<rparr>), (''b'', \<lparr> nr_state = nb, nr_last_pass = tb \<rparr>)],
     cs_registry = [(''a'', record_at ''a'' ra), (''b'', record_at ''b'' rb)] \<rparr>"

lemma owner_ab: "owner (StreamId Kraken ''BTC-USD'') [''a'', ''b''] = Some ''a''" by code_simp

lemma owner_single: "owner s [n] = Some n" by (simp add: owner_def)

lemma assigned_ab:
  "assigned_to ''a'' trace_streams [''a'', ''b''] = trace_streams"
  "assigned_to ''b'' trace_streams [''a'', ''b''] = []"
  "assigned_to ''b'' trace_streams [''b''] = trace_streams"
  by (simp_all add: assigned_to_def owner_ab owner_single btree_set_def trace_streams_def)

lemmas pass_defs = two_nodes_def running_def coordinator_step_def Let_def reconcile_def node_at_def clock_of_def
  since_def note_contact_def hold_for_def settle_for_def trace_params_def lease_config_default_def
  from_secs_def from_millis_def nanos_per_sec_def duration_max_def u64_max_def

lemma live_ab:
  "ra + 15000 < u64_max \<Longrightarrow> rb + 15000 < u64_max \<Longrightarrow>
   live_members [record_at ''a'' ra, record_at ''b'' rb] (int t)
     = (if t div 1000000 \<le> ra + 15000 then [''a''] else []) @ (if t div 1000000 \<le> rb + 15000 then [''b''] else [])"
  by (simp add: live_members_def expired_at_def record_at_def millis_u64_def sat_u64_def btree_set_def)

lemma own_record:
  "t div 1000000 < 18446744073709551615 \<Longrightarrow>
   \<lparr> le_node = n, le_written_at_unix_ms = unix_millis (int t), le_ttl_ms = millis_u64 15000000000 \<rparr>
     = record_at n (t div 1000000)"
  by (simp add: record_at_def unix_millis_def millis_u64_def sat_u64_def u64_max_def)

lemma announce_ab:
  "memory_announce (record_at ''a'' r) [(''a'', x), (''b'', y)] = [(''a'', record_at ''a'' r), (''b'', y)]"
  "memory_announce (record_at ''b'' r) [(''a'', x), (''b'', y)] = [(''a'', x), (''b'', record_at ''b'' r)]"
  by (simp_all add: memory_announce_def record_at_def)

lemma tick_ab:
  "t + d \<le> ta + from_millis 3200 \<Longrightarrow> t + d \<le> tb + from_millis 3200 \<Longrightarrow>
   cluster_step (trace_params g) (Tick d) (two_nodes t na ta nb tb ra rb)
     = Some (two_nodes (t + d) na ta nb tb ra rb)"
  by (simp add: two_nodes_def trace_params_def)

lemma blind_a:
  "g \<le> from_secs 15 \<Longrightarrow> t - c < from_secs 15 - g \<Longrightarrow> from_secs 15 + g \<le> t - se \<Longrightarrow>
   cluster_step (trace_params g) (blind ''a'') (two_nodes t (node_at (Some c) se mb ow sd sg) ta nb tb ra rb)
     = Some (two_nodes t (node_at (Some c) se mb (assigned_to ''a'' trace_streams mb) False False) t nb tb ra rb)"
  by (simp add: pass_defs)

lemma good_a_settling:
  "g < from_secs 15 \<Longrightarrow> t div 1000000 < u64_max \<Longrightarrow> t - se < from_secs 15 + g \<Longrightarrow>
   cluster_step (trace_params g) (good ''a'') (two_nodes t (node_at (Some c) se mb ow sd sg) tx no to rx ro)
     = Some (two_nodes t (node_at (Some t) se (live_members [record_at ''a'' (t div 1000000), record_at ''b'' ro] (int t)) [] sd True) t no to (t div 1000000) ro)"
  by (simp add: pass_defs) (simp add: own_record announce_ab memory_members_def)

lemma good_a_settled:
  "g < from_secs 15 \<Longrightarrow> t div 1000000 < u64_max \<Longrightarrow> from_secs 15 + g \<le> t - se \<Longrightarrow>
   cluster_step (trace_params g) (good ''a'') (two_nodes t (node_at (Some c) se mb ow sd sg) tx no to rx ro)
     = Some (two_nodes t (node_at (Some t) se (live_members [record_at ''a'' (t div 1000000), record_at ''b'' ro] (int t))
         (assigned_to ''a'' trace_streams (live_members [record_at ''a'' (t div 1000000), record_at ''b'' ro] (int t))) False False) t no to (t div 1000000) ro)"
  by (simp add: pass_defs) (simp add: own_record announce_ab memory_members_def)

lemma good_b_settling:
  "g < from_secs 15 \<Longrightarrow> t div 1000000 < u64_max \<Longrightarrow> t - se < from_secs 15 + g \<Longrightarrow>
   cluster_step (trace_params g) (good ''b'') (two_nodes t no to (node_at (Some c) se mb ow sd sg) tx ro rx)
     = Some (two_nodes t no to (node_at (Some t) se (live_members [record_at ''a'' ro, record_at ''b'' (t div 1000000)] (int t)) [] sd True) t ro (t div 1000000))"
  by (simp add: pass_defs) (simp add: own_record announce_ab memory_members_def)

lemma good_b_settled:
  "g < from_secs 15 \<Longrightarrow> t div 1000000 < u64_max \<Longrightarrow> from_secs 15 + g \<le> t - se \<Longrightarrow>
   cluster_step (trace_params g) (good ''b'') (two_nodes t no to (node_at (Some c) se mb ow sd sg) tx ro rx)
     = Some (two_nodes t no to (node_at (Some t) se (live_members [record_at ''a'' ro, record_at ''b'' (t div 1000000)] (int t))
         (assigned_to ''b'' trace_streams (live_members [record_at ''a'' ro, record_at ''b'' (t div 1000000)] (int t))) False False) t ro (t div 1000000))"
  by (simp add: pass_defs) (simp add: own_record announce_ab memory_members_def)

definition joined :: cluster where
  "joined = two_nodes 0 (node_at (Some 0) 0 [''a''] [] True True) 0 (node_at (Some 0) 0 [''a'', ''b''] [] True True) 0 0 0"

lemma run_join:
  assumes "0 < g" and "g < from_secs 15"
  shows "cluster_run (trace_params g) [Start ''a'', Start ''b'', good ''a'', good ''b''] empty_cluster = Some joined"
  using assms
  by (simp add: joined_def empty_cluster_def lease_state_new_def pass_defs stand_down_def view_of_def
      memory_announce_def memory_members_def live_members_def expired_at_def unix_millis_def millis_u64_def
      sat_u64_def btree_set_def record_at_def)

lemmas live_ab_numeral = live_ab [where t = "numeral k" for k, unfolded of_nat_numeral]

lemmas drive = live_ab_numeral tick_ab good_a_settling good_a_settled good_b_settling good_b_settled blind_a live_ab
  assigned_ab from_millis_def from_secs_def nanos_per_sec_def u64_max_def

lemma run_default:
  "cluster_run (trace_params (from_secs 2))
    [wait 3000, good ''a'', good ''b'',
     wait 3000, good ''a'', good ''b'',
     wait 3000, good ''a'', good ''b'',
     wait 3000, good ''a'', good ''b'',
     wait 3000, good ''a'', good ''b'',
     wait 3000, good ''a'', good ''b'',
     wait 3200, blind ''a'', good ''b'',
     wait 3200, blind ''a'', good ''b'',
     wait 3200, blind ''a'', good ''b'',
     wait 3200, blind ''a'', good ''b'',
     wait 2500, good ''b''] joined
   = Some (two_nodes 33300000000
       (node_at (Some 18000000000) 0 [''a'', ''b''] trace_streams False False) 30800000000
       (node_at (Some 33300000000) 0 [''b''] trace_streams False False) 33300000000 18000 33300)"
  by (simp add: drive joined_def del: cluster_step.simps)

lemma run_guarded:
  "cluster_run (trace_params (from_secs 4))
    [wait 3000, good ''a'', good ''b'',
     wait 3000, good ''a'', good ''b'',
     wait 3000, good ''a'', good ''b'',
     wait 3000, good ''a'', good ''b'',
     wait 3000, good ''a'', good ''b'',
     wait 3000, good ''a'', good ''b'',
     wait 3000, good ''a'', good ''b''] joined
   = Some (two_nodes 21000000000
       (node_at (Some 21000000000) 0 [''a'', ''b''] trace_streams False False) 21000000000
       (node_at (Some 21000000000) 0 [''a'', ''b''] [] False False) 21000000000 21000 21000)"
  by (simp add: drive joined_def del: cluster_step.simps)

lemma joined_reachable:
  assumes "0 < g" and "g < from_secs 15"
  shows "reachable (trace_params g) joined"
proof -
  have "reachable (trace_params g) empty_cluster"
    unfolding empty_cluster_def by (rule reachable.init) (simp add: memory_ok_def)
  from reachable_run [OF this run_join [OF assms]] show ?thesis .
qed

lemma trace_owned:
  "owned_by (two_nodes t (node_at c se mb ow sd sg) ta nb tb ra rb) ''a'' = set ow"
  "owned_by (two_nodes t na ta (node_at c se mb ow sd sg) tb ra rb) ''b'' = set ow"
  by (simp_all add: owned_by_def running_def two_nodes_def node_at_def)

section \<open>Properties\<close>

text \<open>
  C15. At most one node runs a stream at any moment of any interleaving: nodes may start, crash,
  leave and rejoin, writes may be lost or unacknowledged and reads may fail, as long as the gap
  between two passes of a running node plus the disagreement of the wall clocks fits in the
  guard.
\<close>
theorem at_most_one_owner:
  assumes "reachable p c" and "timely p eps" and "n \<noteq> m"
  shows "owned_by c n \<inter> owned_by c m = {}"
proof (rule ccontr)
  assume "owned_by c n \<inter> owned_by c m \<noteq> {}"
  then obtain s r r' where s: "running c n = Some r" "s \<in> set (ls_owned (nr_state r))"
    "running c m = Some r'" "s \<in> set (ls_owned (nr_state r'))"
    by (auto simp: owned_by_def split: option.splits)
  have inv: "cluster_inv p c" by (rule reachable_inv [OF assms(1,2)])
  have "n \<in> set (ls_members (nr_state r'))" "m \<in> set (ls_members (nr_state r))"
    using holder_is_known [OF inv assms(2,3) s(1) _ s(3)]
      holder_is_known [OF inv assms(2) assms(3) [symmetric] s(3) _ s(1)] s(2,4) by force+
  moreover have "owner s (ls_members (nr_state r)) = Some n" "owner s (ls_members (nr_state r')) = Some m"
  proof -
    have "self_ok (cp_config p) n (nr_last_pass r) (nr_state r)"
      "self_ok (cp_config p) m (nr_last_pass r') (nr_state r')"
      using inv s unfolding cluster_inv_def by blast+
    then show "owner s (ls_members (nr_state r)) = Some n" "owner s (ls_members (nr_state r')) = Some m"
      using s by (auto simp: self_ok_def split: option.splits)
  qed
  ultimately show False using owner_exclusive assms(3) by metis
qed

lemma at_most_one_owner_witness:
  "\<exists>c. owned_by c ''a'' = set trace_streams \<and> owned_by c ''a'' \<inter> owned_by c ''b'' = {}"
proof -
  let ?c = "two_nodes 21000000000
       (node_at (Some 21000000000) 0 [''a'', ''b''] trace_streams False False) 21000000000
       (node_at (Some 21000000000) 0 [''a'', ''b''] [] False False) 21000000000 21000 21000"
  have "reachable (trace_params (from_secs 4)) ?c"
    by (rule reachable_run [OF joined_reachable run_guarded]) (simp_all add: from_secs_def nanos_per_sec_def)
  moreover have "timely (trace_params (from_secs 4)) 0"
    by (simp add: timely_def trace_params_def lease_config_default_def from_secs_def from_millis_def
        nanos_per_sec_def duration_max_def u64_max_def ms_def)
  moreover have "''a'' \<noteq> ''b''" by simp
  ultimately have "owned_by ?c ''a'' \<inter> owned_by ?c ''b'' = {}" by (rule at_most_one_owner)
  moreover have "owned_by ?c ''a'' = set trace_streams" by (rule trace_owned)
  ultimately show ?thesis by blast
qed

text \<open>
  C16. The default configuration does not meet that bound, and the promise is broken there: with
  perfect clocks and a pass every 3.2 seconds, a node that cannot reach the registry still runs
  its stream when another, which reads the expired record, has taken it over. Its guard of two
  seconds is shorter than the time to its next pass, the only moment it can release anything.
\<close>
theorem default_guard_too_short:
  "\<exists>c. reachable (trace_params (lc_guard lease_config_default)) c
     \<and> cp_config (trace_params (lc_guard lease_config_default)) = lease_config_default
     \<and> owned_by c ''a'' \<inter> owned_by c ''b'' = set trace_streams \<and> trace_streams \<noteq> []"
proof -
  let ?c = "two_nodes 33300000000
       (node_at (Some 18000000000) 0 [''a'', ''b''] trace_streams False False) 30800000000
       (node_at (Some 33300000000) 0 [''b''] trace_streams False False) 33300000000 18000 33300"
  have g: "lc_guard lease_config_default = from_secs 2" by (simp add: lease_config_default_def)
  have "reachable (trace_params (from_secs 2)) ?c"
    by (rule reachable_run [OF joined_reachable run_default]) (simp_all add: from_secs_def nanos_per_sec_def)
  moreover have "cp_config (trace_params (from_secs 2)) = lease_config_default"
    by (simp add: trace_params_def lease_config_default_def)
  moreover have "owned_by ?c ''a'' \<inter> owned_by ?c ''b'' = set trace_streams"
    unfolding trace_owned by simp
  ultimately show ?thesis unfolding g by (auto simp: trace_streams_def)
qed

end
