(* ===== verification/Channel.thy ===== *)
theory Channel
  imports Prelude
begin

text \<open>
  The bounded, drop-oldest channel (\<open>ma-pipeline/src/channel.rs\<close>): its operations, each a
  critical section of the lock over the queue, and the interleavings of several senders, whose
  check of the closed flag, push and count of a drop are separate atomic steps.
\<close>

section \<open>State and operations\<close>

record 'a channel =
  ch_capacity :: nat
  ch_queue :: "'a list"
  ch_dropped :: u64
  ch_senders :: u64
  ch_closed :: bool

record channel_metrics =
  cm_len :: nat
  cm_capacity :: nat
  cm_dropped :: u64

definition bounded :: "nat \<Rightarrow> 'a channel rust" where
  "bounded capacity = (if capacity = 0 then Panicked
     else Returned \<lparr> ch_capacity = capacity, ch_queue = [], ch_dropped = 0, ch_senders = 1,
                     ch_closed = False \<rparr>)"

datatype 'a send_outcome = Sent | DroppedOldest 'a | Closed 'a

text \<open>What \<open>send\<close> does while it holds the lock.\<close>

definition push_section :: "'a \<Rightarrow> 'a channel \<Rightarrow> 'a option \<times> 'a channel" where
  "push_section x c =
     (let (evicted, q) = (if ch_capacity c \<le> length (ch_queue c)
                          then (case ch_queue c of [] \<Rightarrow> (None, []) | old # q \<Rightarrow> (Some old, q))
                          else (None, ch_queue c))
      in (evicted, c\<lparr> ch_queue := q @ [x] \<rparr>))"

definition send :: "'a \<Rightarrow> 'a channel \<Rightarrow> 'a send_outcome \<times> 'a channel" where
  "send x c = (if ch_closed c then (Closed x, c)
     else case push_section x c of
            (Some old, c) \<Rightarrow> (DroppedOldest old, c\<lparr> ch_dropped := ch_dropped c + 1 \<rparr>)
          | (None, c) \<Rightarrow> (Sent, c))"

text \<open>One turn of the loop of \<open>send_lossless\<close>; without a result it waits for room.\<close>

definition send_lossless_turn :: "'a \<Rightarrow> 'a channel \<Rightarrow> ('a + unit) option \<times> 'a channel" where
  "send_lossless_turn x c =
     (if ch_closed c then (Some (Inl x), c)
      else if length (ch_queue c) < ch_capacity c
           then (case send x c of
                   (Closed x, c) \<Rightarrow> (Some (Inl x), c)
                 | (_, c) \<Rightarrow> (Some (Inr ()), c))
           else (None, c))"

definition close :: "'a channel \<Rightarrow> 'a channel" where
  "close c = c\<lparr> ch_closed := True \<rparr>"

definition clone_sender :: "'a channel \<Rightarrow> 'a channel" where
  "clone_sender c = c\<lparr> ch_senders := ch_senders c + 1 \<rparr>"

definition drop_sender :: "'a channel \<Rightarrow> 'a channel" where
  "drop_sender c =
     (let was = ch_senders c; c = c\<lparr> ch_senders := ch_senders c - 1 \<rparr>
      in if was = 1 then c\<lparr> ch_closed := True \<rparr> else c)"

definition pop :: "'a channel \<Rightarrow> 'a option \<times> 'a channel" where
  "pop c = (case ch_queue c of [] \<Rightarrow> (None, c) | x # q \<Rightarrow> (Some x, c\<lparr> ch_queue := q \<rparr>))"

definition try_recv :: "'a channel \<Rightarrow> 'a option \<times> 'a channel" where
  "try_recv c = pop c"

text \<open>One turn of the loop of \<open>recv\<close>: an item, the end, or a wait.\<close>

datatype 'a received = Item 'a | Ended | Waiting

definition recv_turn :: "'a channel \<Rightarrow> 'a received \<times> 'a channel" where
  "recv_turn c =
     (case pop c of
        (Some x, c) \<Rightarrow> (Item x, c)
      | (None, c) \<Rightarrow>
          if ch_closed c
          then (case pop c of (Some x, c) \<Rightarrow> (Item x, c) | (None, c) \<Rightarrow> (Ended, c))
          else (Waiting, c))"

definition metrics_of :: "'a channel \<Rightarrow> channel_metrics" where
  "metrics_of c = \<lparr> cm_len = length (ch_queue c), cm_capacity = ch_capacity c, cm_dropped = ch_dropped c \<rparr>"

section \<open>The interface\<close>

text \<open>
  What the pipeline relies on: a send on an open queue appends, at the price of the oldest item
  when the queue is full, and a receive takes the oldest item. Everything below follows.
\<close>

locale drop_oldest_queue =
  fixes put :: "'a \<Rightarrow> 'q \<Rightarrow> 'q"
    and take_one :: "'q \<Rightarrow> 'a option \<times> 'q"
    and items :: "'q \<Rightarrow> 'a list"
    and capacity :: "'q \<Rightarrow> nat"
    and ok :: "'q \<Rightarrow> bool"
  assumes items_put: "ok q \<Longrightarrow> items (put x q)
      = (if length (items q) < capacity q then items q else tl (items q)) @ [x]"
    and take_none: "items q = [] \<Longrightarrow> take_one q = (None, q)"
    and take_some: "items q = x # xs \<Longrightarrow> \<exists>q'. take_one q = (Some x, q') \<and> items q' = xs
      \<and> capacity q' = capacity q \<and> (ok q \<longrightarrow> ok q')"
    and ok_put: "ok q \<Longrightarrow> ok (put x q)"
    and capacity_put: "capacity (put x q) = capacity q"
    and ok_bound: "ok q \<Longrightarrow> length (items q) \<le> capacity q \<and> 0 < capacity q"
begin

text \<open>After any number of sends the queue holds the newest items, as many as fit.\<close>

lemma capacity_puts: "capacity (foldl (\<lambda>q x. put x q) q xs) = capacity q"
  by (induction xs arbitrary: q) (simp_all add: capacity_put)

lemma ok_puts: "ok q \<Longrightarrow> ok (foldl (\<lambda>q x. put x q) q xs)"
  by (induction xs arbitrary: q) (simp_all add: ok_put)

lemma newest_kept:
  assumes "ok q"
  shows "items (foldl (\<lambda>q x. put x q) q xs)
    = drop (length (items q @ xs) - capacity q) (items q @ xs)"
proof (induction xs rule: rev_induct)
  case Nil
  then show ?case using ok_bound [OF assms] by simp
next
  case (snoc x xs)
  let ?q = "foldl (\<lambda>q x. put x q) q xs"
  define sent where "sent = items q @ xs"
  have ok: "ok ?q" and cap: "capacity ?q = capacity q"
    using assms by (simp_all add: ok_puts capacity_puts)
  have IH: "items ?q = drop (length sent - capacity q) sent" using snoc by (simp add: sent_def)
  have put: "items (put x ?q) = (if length (items ?q) < capacity q then items ?q else tl (items ?q)) @ [x]"
    using items_put [OF ok, of x] by (simp only: cap)
  have "items (put x ?q) = drop (length (sent @ [x]) - capacity q) (sent @ [x])"
  proof (cases "length sent < capacity q")
    case True
    then show ?thesis using put by (simp add: IH)
  next
    case False
    then have "tl (drop (length sent - capacity q) sent) = drop (length sent + 1 - capacity q) sent"
      by (simp add: tl_drop drop_Suc Suc_diff_le)
    with False ok_bound [OF assms] show ?thesis unfolding put IH by simp
  qed
  then show ?case by (simp add: sent_def)
qed

end

definition channel_ok :: "'a channel \<Rightarrow> bool" where
  "channel_ok c \<longleftrightarrow> \<not> ch_closed c \<and> 0 < ch_capacity c \<and> length (ch_queue c) \<le> ch_capacity c"

lemma push_section_queue:
  assumes "0 < ch_capacity c"
  shows "push_section x c =
    ((if length (ch_queue c) < ch_capacity c then None else Some (hd (ch_queue c))),
     c\<lparr> ch_queue := (if length (ch_queue c) < ch_capacity c then ch_queue c else tl (ch_queue c)) @ [x] \<rparr>)"
  using assms by (cases "ch_queue c") (auto simp: push_section_def)

lemma send_capacity [simp]: "ch_capacity (snd (send x c)) = ch_capacity c"
  by (auto simp: send_def push_section_def Let_def split: list.splits)

interpretation chan: drop_oldest_queue "\<lambda>x c. snd (send x c)" try_recv ch_queue ch_capacity channel_ok
  by (unfold_locales; (rule send_capacity)?)
    (auto simp: send_def push_section_queue try_recv_def pop_def channel_ok_def split: list.splits)

section \<open>Interleaved senders\<close>

text \<open>
  A send in progress is past its check of the closed flag, or past its push with a drop still
  to be counted. The logs record what entered the queue and what left it, and why.
\<close>

datatype 'a sending = Pushing 'a | Counting 'a

datatype 'a departure = Received 'a | Evicted 'a

fun departed :: "'a departure \<Rightarrow> 'a" where
  "departed (Received x) = x"
| "departed (Evicted x) = x"

record 'a channel_run =
  cr_channel :: "'a channel"
  cr_sending :: "nat \<Rightarrow> 'a sending option"
  cr_accepted :: "'a list"
  cr_gone :: "'a departure list"

datatype 'a channel_event =
    BeginSend nat 'a
  | PushItem nat
  | CountDrop nat
  | TryRecv
  | CloneSender
  | DropSender
  | CloseChannel

fun channel_step :: "'a channel_event \<Rightarrow> 'a channel_run \<Rightarrow> 'a channel_run option" where
  "channel_step (BeginSend i x) r =
     (case cr_sending r i of
        Some _ \<Rightarrow> None
      | None \<Rightarrow> Some (if ch_closed (cr_channel r) then r
                      else r\<lparr> cr_sending := (cr_sending r)(i \<mapsto> Pushing x) \<rparr>))"
| "channel_step (PushItem i) r =
     (case cr_sending r i of
        Some (Pushing x) \<Rightarrow>
          (case push_section x (cr_channel r) of
             (None, c) \<Rightarrow> Some (r\<lparr> cr_channel := c, cr_sending := (cr_sending r)(i := None),
                                   cr_accepted := cr_accepted r @ [x] \<rparr>)
           | (Some old, c) \<Rightarrow> Some (r\<lparr> cr_channel := c, cr_sending := (cr_sending r)(i \<mapsto> Counting old),
                                   cr_accepted := cr_accepted r @ [x],
                                   cr_gone := cr_gone r @ [Evicted old] \<rparr>))
      | _ \<Rightarrow> None)"
| "channel_step (CountDrop i) r =
     (case cr_sending r i of
        Some (Counting old) \<Rightarrow>
          Some (r\<lparr> cr_channel := (cr_channel r)\<lparr> ch_dropped := ch_dropped (cr_channel r) + 1 \<rparr>,
                   cr_sending := (cr_sending r)(i := None) \<rparr>)
      | _ \<Rightarrow> None)"
| "channel_step TryRecv r =
     (case try_recv (cr_channel r) of
        (None, c) \<Rightarrow> Some (r\<lparr> cr_channel := c \<rparr>)
      | (Some x, c) \<Rightarrow> Some (r\<lparr> cr_channel := c, cr_gone := cr_gone r @ [Received x] \<rparr>))"
| "channel_step CloneSender r = Some (r\<lparr> cr_channel := clone_sender (cr_channel r) \<rparr>)"
| "channel_step DropSender r = Some (r\<lparr> cr_channel := drop_sender (cr_channel r) \<rparr>)"
| "channel_step CloseChannel r = Some (r\<lparr> cr_channel := close (cr_channel r) \<rparr>)"

primrec channel_exec :: "'a channel_event list \<Rightarrow> 'a channel_run \<Rightarrow> 'a channel_run option" where
  "channel_exec [] r = Some r"
| "channel_exec (e # es) r = (case channel_step e r of None \<Rightarrow> None | Some r' \<Rightarrow> channel_exec es r')"

definition run_start :: "'a channel \<Rightarrow> 'a channel_run" where
  "run_start c = \<lparr> cr_channel = c, cr_sending = Map.empty, cr_accepted = [], cr_gone = [] \<rparr>"

definition evictions :: "'a departure list \<Rightarrow> nat" where
  "evictions gone = length (filter (\<lambda>d. case d of Evicted _ \<Rightarrow> True | Received _ \<Rightarrow> False) gone)"

definition uncounted :: "(nat \<Rightarrow> 'a sending option) \<Rightarrow> nat set" where
  "uncounted s = {i. \<exists>old. s i = Some (Counting old)}"

definition channel_inv :: "nat \<Rightarrow> 'a channel_run \<Rightarrow> bool" where
  "channel_inv n r \<longleftrightarrow> 0 < n \<and> ch_capacity (cr_channel r) = n \<and> length (ch_queue (cr_channel r)) \<le> n
     \<and> cr_accepted r = map departed (cr_gone r) @ ch_queue (cr_channel r)
     \<and> finite (dom (cr_sending r))
     \<and> ch_dropped (cr_channel r) + of_nat (card (uncounted (cr_sending r))) = of_nat (evictions (cr_gone r))"

lemma uncounted_upd [simp]:
  "uncounted (s(i := None)) = uncounted s - {i}"
  "uncounted (s(i \<mapsto> Pushing x)) = uncounted s - {i}"
  "uncounted (s(i \<mapsto> Counting x)) = insert i (uncounted s)"
  by (auto simp: uncounted_def)

lemma finite_uncounted: "finite (dom s) \<Longrightarrow> finite (uncounted s)"
  by (rule finite_subset [of _ "dom s"]) (auto simp: uncounted_def)

lemma evictions_simps [simp]:
  "evictions [] = 0" "evictions (gone @ [Evicted x]) = evictions gone + 1"
  "evictions (gone @ [Received x]) = evictions gone"
  by (simp_all add: evictions_def)

lemma channel_step_inv:
  assumes inv: "channel_inv n r" and step: "channel_step e r = Some r'"
  shows "channel_inv n r'"
proof (cases e)
  case (BeginSend i x)
  with step have free: "cr_sending r i = None" by (auto split: option.splits)
  then have "i \<notin> uncounted (cr_sending r)" by (simp add: uncounted_def)
  with inv step BeginSend free show ?thesis by (auto simp: channel_inv_def split: if_splits)
next
  case (PushItem i)
  with step obtain x where x: "cr_sending r i = Some (Pushing x)"
    by (auto split: option.splits sending.splits)
  then have out: "i \<notin> uncounted (cr_sending r)" by (simp add: uncounted_def)
  have fin: "finite (uncounted (cr_sending r))" using inv by (simp add: channel_inv_def finite_uncounted)
  have cap: "0 < ch_capacity (cr_channel r)" using inv by (simp add: channel_inv_def)
  show ?thesis
  proof (cases "length (ch_queue (cr_channel r)) < n")
    case True
    with inv step PushItem x out push_section_queue [OF cap, of x] show ?thesis
      by (auto simp: channel_inv_def)
  next
    case False
    then obtain old q where "ch_queue (cr_channel r) = old # q"
      using inv by (cases "ch_queue (cr_channel r)") (auto simp: channel_inv_def)
    with False inv step PushItem x out fin push_section_queue [OF cap, of x] show ?thesis
      by (auto simp: channel_inv_def)
  qed
next
  case (CountDrop i)
  with step obtain old where x: "cr_sending r i = Some (Counting old)"
    by (auto split: option.splits sending.splits)
  then have "i \<in> uncounted (cr_sending r)" by (simp add: uncounted_def)
  moreover have "finite (uncounted (cr_sending r))" using inv by (simp add: channel_inv_def finite_uncounted)
  ultimately have "card (uncounted (cr_sending r)) = card (uncounted (cr_sending r) - {i}) + 1"
    by (metis Suc_eq_plus1 card_Suc_Diff1)
  with inv step CountDrop x show ?thesis by (auto simp: channel_inv_def ac_simps)
next
  case TryRecv
  with inv step show ?thesis
    by (auto simp: channel_inv_def try_recv_def pop_def split: list.splits)
qed (use inv step in \<open>auto simp: channel_inv_def clone_sender_def drop_sender_def close_def Let_def\<close>)

lemma channel_exec_inv: "channel_inv n r \<Longrightarrow> channel_exec es r = Some r' \<Longrightarrow> channel_inv n r'"
  by (induction es arbitrary: r) (auto split: option.splits dest: channel_step_inv)

lemma run_start_inv: "bounded n = Returned c \<Longrightarrow> channel_inv n (run_start c)"
  by (auto simp: bounded_def channel_inv_def run_start_def uncounted_def split: if_splits)

section \<open>Replay\<close>

text \<open>
  A replay producer offers the items of a tape one by one, each until it is taken, while a
  consumer receives. A schedule says who runs next: the producer (\<open>True\<close>) or the consumer.
\<close>

record 'a replay_run =
  rr_channel :: "'a channel"
  rr_tape :: "'a list"
  rr_received :: "'a list"

definition replay_turn :: "'a replay_run \<Rightarrow> bool \<Rightarrow> 'a replay_run" where
  "replay_turn r producer =
     (if producer
      then (case rr_tape r of
              [] \<Rightarrow> r
            | x # tape \<Rightarrow>
                (case send_lossless_turn x (rr_channel r) of
                   (None, c) \<Rightarrow> r\<lparr> rr_channel := c \<rparr>
                 | (Some (Inl x), c) \<Rightarrow> r\<lparr> rr_channel := c, rr_tape := [] \<rparr>
                 | (Some (Inr _), c) \<Rightarrow> r\<lparr> rr_channel := c, rr_tape := tape \<rparr>))
      else (case try_recv (rr_channel r) of
              (None, c) \<Rightarrow> r\<lparr> rr_channel := c \<rparr>
            | (Some x, c) \<Rightarrow> r\<lparr> rr_channel := c, rr_received := rr_received r @ [x] \<rparr>))"

definition replay :: "'a list \<Rightarrow> 'a channel \<Rightarrow> bool list \<Rightarrow> 'a replay_run" where
  "replay tape c schedule =
     foldl replay_turn \<lparr> rr_channel = c, rr_tape = tape, rr_received = [] \<rparr> schedule"

definition replay_inv :: "'a list \<Rightarrow> nat \<Rightarrow> u64 \<Rightarrow> 'a replay_run \<Rightarrow> bool" where
  "replay_inv tape n d r \<longleftrightarrow> rr_received r @ ch_queue (rr_channel r) @ rr_tape r = tape
     \<and> channel_ok (rr_channel r) \<and> ch_capacity (rr_channel r) = n \<and> ch_dropped (rr_channel r) = d"

lemma send_lossless_room:
  "channel_ok c \<Longrightarrow> send_lossless_turn x c =
     (if length (ch_queue c) < ch_capacity c then (Some (Inr ()), c\<lparr> ch_queue := ch_queue c @ [x] \<rparr>)
      else (None, c))"
  by (auto simp: send_lossless_turn_def send_def push_section_def channel_ok_def)

lemma replay_turn_inv: "replay_inv tape n d r \<Longrightarrow> replay_inv tape n d (replay_turn r p)"
  by (auto simp: replay_turn_def replay_inv_def send_lossless_room try_recv_def pop_def channel_ok_def
      split: list.splits)

lemma replay_keeps:
  "channel_ok c \<Longrightarrow> ch_queue c = [] \<Longrightarrow>
   replay_inv tape (ch_capacity c) (ch_dropped c) (replay tape c schedule)"
  unfolding replay_def by (rule foldl_invariant, simp add: replay_inv_def, rule replay_turn_inv)

lemma alternate_delivers:
  assumes "channel_ok c" and "ch_queue c = []"
  shows "\<exists>c'. foldl replay_turn \<lparr> rr_channel = c, rr_tape = tape, rr_received = got \<rparr>
      (concat (replicate (length tape) [True, False]))
    = \<lparr> rr_channel = c', rr_tape = [], rr_received = got @ tape \<rparr>"
  using assms
proof (induction tape arbitrary: c got)
  case (Cons x tape)
  have "0 < ch_capacity c" using Cons.prems by (simp add: channel_ok_def)
  then have "replay_turn (replay_turn \<lparr> rr_channel = c, rr_tape = x # tape, rr_received = got \<rparr> True) False
      = \<lparr> rr_channel = c, rr_tape = tape, rr_received = got @ [x] \<rparr>"
    using Cons.prems by (simp add: replay_turn_def send_lossless_room try_recv_def pop_def)
  with Cons.IH [OF Cons.prems, of "got @ [x]"] show ?case by simp
qed auto

section \<open>Properties\<close>



text \<open>
  A send never blocks and never refuses on an open channel: after any burst of sends the
  queue holds exactly the newest items, as many as the capacity allows, in order; each send
  reports the item it evicted, and only a full queue evicts.
\<close>

theorem newest_items_kept:
  assumes "channel_ok c"
  shows "ch_queue (foldl (\<lambda>c x. snd (send x c)) c xs)
      = drop (length (ch_queue c @ xs) - ch_capacity c) (ch_queue c @ xs)
    \<and> fst (send x c) = (if length (ch_queue c) < ch_capacity c then Sent else DroppedOldest (hd (ch_queue c)))"
  using chan.newest_kept [OF assms, of xs] assms
  by (simp add: send_def push_section_queue channel_ok_def)

lemma newest_items_kept_witness:
  "ch_queue (foldl (\<lambda>c x. snd (send x c))
     \<lparr> ch_capacity = 2, ch_queue = [1::nat], ch_dropped = 0, ch_senders = 1, ch_closed = False \<rparr> [2, 3, 4]) = [3, 4]"
  using newest_items_kept [of "\<lparr> ch_capacity = 2, ch_queue = [1::nat], ch_dropped = 0, ch_senders = 1,
      ch_closed = False \<rparr>" "[2, 3, 4]"]
  by (simp add: channel_ok_def)



end
