(* ===== verification/Backoff.thy ===== *)
theory Backoff
  imports Times Events Ordered_Map
begin

text \<open>
  The reconnect schedule (\<open>ma-pipeline/src/backoff.rs\<close>) and the requests that make a healthy
  connection start over (\<open>ma-pipeline/src/resync.rs\<close>). A source of jitter is an interface with
  two implementations: the bare schedule and a 64-bit generator.
\<close>

unbundle bit_operations_syntax

section \<open>Jitter\<close>

text \<open>
  \<open>Jitter::sample\<close> draws a delay from a ceiling and changes its own state; it may panic. The
  contract asks for a delay within the ceiling, wherever the source answers (\<open>usable\<close>).
\<close>

locale jitter =
  fixes sample :: "duration \<Rightarrow> 'j \<Rightarrow> (duration \<times> 'j) rust"
    and usable :: "duration \<Rightarrow> bool"
    and lowest :: "duration \<Rightarrow> duration"
  assumes answers: "usable limit \<Longrightarrow> \<exists>d j'. sample limit j = Returned (d, j')"
    and within: "sample limit j = Returned (d, j') \<Longrightarrow> lowest limit \<le> d \<and> d \<le> limit"
    and usable_le: "a \<le> b \<Longrightarrow> usable b \<Longrightarrow> usable a"

definition no_jitter_sample :: "duration \<Rightarrow> unit \<Rightarrow> (duration \<times> unit) rust" where
  "no_jitter_sample limit j = Returned (limit, j)"

text \<open>\<open>EqualJitter\<close>: SplitMix64 over the state.\<close>

definition next_u64 :: "u64 \<Rightarrow> u64 \<times> u64" where
  "next_u64 state =
     (let state = state + 0x9E3779B97F4A7C15;
          z = state;
          z = (z XOR drop_bit 30 z) * 0xBF58476D1CE4E5B9;
          z = (z XOR drop_bit 27 z) * 0x94D049BB133111EB
      in (z XOR drop_bit 31 z, state))"

text \<open>
  The delay is drawn modulo \<open>span + 1\<close>, in 64 bits: the addition overflows for a span of
  \<open>u64::MAX\<close> nanoseconds, which panics (checked by the compiler's overflow test or, where that
  is off, by the division).
\<close>

definition equal_jitter_sample :: "duration \<Rightarrow> u64 \<Rightarrow> (duration \<times> u64) rust" where
  "equal_jitter_sample limit state =
     (let low = limit div 2;
          spn = nanos_u64 (limit - low)
      in if spn = 0 then Returned (limit, state)
         else if spn = u64_max then Panicked
         else case next_u64 state of
                (r, state) \<Rightarrow> Returned (low + unat r mod (spn + 1), state))"

interpretation none: jitter no_jitter_sample "\<lambda>_. True" "\<lambda>c. c"
  by unfold_locales (auto simp: no_jitter_sample_def)

lemma equal_jitter_within:
  assumes "equal_jitter_sample limit j = Returned (d, j')"
  shows "limit div 2 \<le> d \<and> d \<le> limit"
proof (cases "nanos_u64 (limit - limit div 2) = 0")
  case True
  then have "d = limit" using assms by (simp add: equal_jitter_sample_def)
  then show ?thesis by simp
next
  case False
  obtain r s where r: "next_u64 j = (r, s)" by (cases "next_u64 j")
  have "d = limit div 2 + unat r mod (nanos_u64 (limit - limit div 2) + 1)"
    using assms False r by (simp add: equal_jitter_sample_def Let_def split: if_splits)
  moreover have "unat r mod (nanos_u64 (limit - limit div 2) + 1) \<le> nanos_u64 (limit - limit div 2)"
    by (simp add: mod_Suc_le_divisor)
  moreover have "nanos_u64 (limit - limit div 2) \<le> limit - limit div 2"
    by (simp add: nanos_u64_def)
  moreover have "limit div 2 \<le> limit" by simp
  ultimately show ?thesis by linarith
qed

interpretation equal: jitter equal_jitter_sample "\<lambda>c. c - c div 2 < u64_max" "\<lambda>c. c div 2"
proof
  fix limit :: duration and j :: u64
  assume "limit - limit div 2 < u64_max"
  then have "nanos_u64 (limit - limit div 2) \<noteq> u64_max" by (simp add: nanos_u64_def sat_u64_def)
  then show "\<exists>d j'. equal_jitter_sample limit j = Returned (d, j')"
    by (auto simp: equal_jitter_sample_def Let_def split: prod.splits)
qed (auto dest: equal_jitter_within)

section \<open>The schedule\<close>

record backoff_policy =
  bp_base :: duration
  bp_cap :: duration
  bp_min_stable :: duration

definition backoff_policy_default :: backoff_policy where
  "backoff_policy_default = \<lparr> bp_base = from_millis 500, bp_cap = from_secs 60, bp_min_stable = from_secs 30 \<rparr>"

text \<open>The boxed jitter is a function and its state.\<close>

record 'j backoff =
  bo_policy :: backoff_policy
  bo_jitter :: 'j
  bo_attempt :: nat

definition backoff_new :: "backoff_policy \<Rightarrow> 'j \<Rightarrow> 'j backoff" where
  "backoff_new policy j = \<lparr> bo_policy = policy, bo_jitter = j, bo_attempt = 0 \<rparr>"

text \<open>\<open>1u32.checked_shl(attempt)\<close>, saturating.\<close>

definition backoff_factor :: "nat \<Rightarrow> nat" where
  "backoff_factor attempt = (if attempt < 32 then 2 ^ attempt else u32_max)"

definition ceiling_of :: "'j backoff \<Rightarrow> duration" where
  "ceiling_of b =
     (let product = bp_base (bo_policy b) * backoff_factor (bo_attempt b)
      in min (if product \<le> duration_max then product else bp_cap (bo_policy b)) (bp_cap (bo_policy b)))"

definition next_delay ::
  "(duration \<Rightarrow> 'j \<Rightarrow> (duration \<times> 'j) rust) \<Rightarrow> 'j backoff \<Rightarrow> (duration \<times> 'j backoff) rust" where
  "next_delay sample b =
     (case sample (ceiling_of b) (bo_jitter b) of
        Panicked \<Rightarrow> Panicked
      | Returned (delay, j) \<Rightarrow>
          Returned (delay, b\<lparr> bo_jitter := j, bo_attempt := min (bo_attempt b + 1) u32_max \<rparr>))"

definition reset :: "'j backoff \<Rightarrow> 'j backoff" where
  "reset b = b\<lparr> bo_attempt := 0 \<rparr>"

definition note_session :: "'j backoff \<Rightarrow> duration \<Rightarrow> bool \<times> 'j backoff" where
  "note_session b lasted =
     (let stable = (bp_min_stable (bo_policy b) \<le> lasted)
      in (stable, if stable then reset b else b))"

text \<open>A reconnect loop: each session's duration is noted, then the next delay is taken.\<close>

primrec reconnects ::
  "(duration \<Rightarrow> 'j \<Rightarrow> (duration \<times> 'j) rust) \<Rightarrow> 'j backoff \<Rightarrow> duration list
     \<Rightarrow> (duration list \<times> 'j backoff) rust" where
  "reconnects sample b [] = Returned ([], b)"
| "reconnects sample b (lasted # sessions) =
     (case next_delay sample (snd (note_session b lasted)) of
        Panicked \<Rightarrow> Panicked
      | Returned (delay, b) \<Rightarrow>
          (case reconnects sample b sessions of
             Panicked \<Rightarrow> Panicked
           | Returned (delays, b) \<Rightarrow> Returned (delay # delays, b)))"

section \<open>The ceiling\<close>

lemma backoff_factor_mono: "a \<le> b \<Longrightarrow> backoff_factor a \<le> backoff_factor b"
proof -
  assume ab: "a \<le> b"
  have small: "(2::nat) ^ k \<le> u32_max" if "k < 32" for k
  proof -
    have "(2::nat) ^ k \<le> 2 ^ 31" using that by (intro power_increasing) auto
    then show ?thesis by (simp add: u32_max_def)
  qed
  show ?thesis using ab small [of a] by (auto simp: backoff_factor_def intro: power_increasing)
qed

lemma ceiling_le_cap: "ceiling_of b \<le> bp_cap (bo_policy b)"
  by (simp add: ceiling_of_def Let_def)

lemma ceiling_mono:
  assumes "bo_policy a = bo_policy b" and "bo_attempt a \<le> bo_attempt b"
  shows "ceiling_of a \<le> ceiling_of b"
proof -
  have less: "bp_base (bo_policy b) * backoff_factor (bo_attempt a) \<le> bp_base (bo_policy b) * backoff_factor (bo_attempt b)"
    by (intro mult_left_mono backoff_factor_mono assms) simp
  have capped: "min (if p \<le> m then p else cap) cap \<le> min (if q \<le> m then q else cap) cap"
    if "p \<le> q" for p q m cap :: nat using that by (auto simp: min_def)
  show ?thesis unfolding ceiling_of_def Let_def assms(1) by (rule capped [OF less])
qed

section \<open>A venue that flaps\<close>

text \<open>The schedule \<open>k\<close> failures further on.\<close>

definition failed :: "nat \<Rightarrow> 'j backoff \<Rightarrow> 'j backoff" where
  "failed k b = b\<lparr> bo_attempt := min (bo_attempt b + k) u32_max \<rparr>"

lemma ceiling_cong: "bo_policy a = bo_policy b \<Longrightarrow> bo_attempt a = bo_attempt b \<Longrightarrow> ceiling_of a = ceiling_of b"
  by (simp add: ceiling_of_def Let_def)

lemma ceiling_failed_Suc [simp]:
  "ceiling_of (failed k (b\<lparr> bo_jitter := j, bo_attempt := min (Suc (bo_attempt b)) u32_max \<rparr>))
     = ceiling_of (failed (Suc k) b)"
  by (rule ceiling_cong) (auto simp: failed_def u32_max_def)

context jitter
begin

lemma flapping_delays:
  assumes "reconnects sample b sessions = Returned (delays, b')"
    and "\<forall>lasted \<in> set sessions. lasted < bp_min_stable (bo_policy b)" and "bo_attempt b \<le> u32_max"
  shows "length delays = length sessions
    \<and> (\<forall>k < length delays. lowest (ceiling_of (failed k b)) \<le> delays ! k \<and> delays ! k \<le> ceiling_of (failed k b))"
  using assms
proof (induction sessions arbitrary: b delays)
  case (Cons lasted sessions)
  have note_it: "snd (note_session b lasted) = b" using Cons.prems(2) by (simp add: note_session_def)
  obtain d j where d: "sample (ceiling_of b) (bo_jitter b) = Returned (d, j)"
    using Cons.prems(1) note_it by (auto simp: next_delay_def split: rust.splits prod.splits)
  let ?b = "b\<lparr> bo_jitter := j, bo_attempt := min (bo_attempt b + 1) u32_max \<rparr>"
  obtain rest where rest: "reconnects sample ?b sessions = Returned (rest, b')" and delays: "delays = d # rest"
    using Cons.prems(1) note_it d by (auto simp: next_delay_def split: rust.splits prod.splits)
  have IH: "length rest = length sessions
    \<and> (\<forall>k < length rest. lowest (ceiling_of (failed k ?b)) \<le> rest ! k \<and> rest ! k \<le> ceiling_of (failed k ?b))"
    by (rule Cons.IH [OF rest]) (use Cons.prems in auto)
  have "failed 0 b = b" using Cons.prems(3) by (simp add: failed_def)
  then have "lowest (ceiling_of (failed 0 b)) \<le> d \<and> d \<le> ceiling_of (failed 0 b)"
    using within [OF d] by simp
  with IH show ?case
    unfolding delays by (auto simp: nth_Cons less_Suc_eq_0_disj split: nat.splits)
qed simp

lemma reconnects_answer:
  assumes "usable (bp_cap (bo_policy b))"
  shows "\<exists>delays b'. reconnects sample b sessions = Returned (delays, b')"
  using assms
proof (induction sessions arbitrary: b)
  case (Cons lasted sessions)
  let ?b = "snd (note_session b lasted)"
  have pol: "bo_policy ?b = bo_policy b" by (simp add: note_session_def reset_def Let_def)
  then have "usable (ceiling_of ?b)" using Cons.prems usable_le [OF ceiling_le_cap [of ?b]] by simp
  then obtain d j where d: "sample (ceiling_of ?b) (bo_jitter ?b) = Returned (d, j)" using answers by blast
  have "usable (bp_cap (bo_policy (?b\<lparr> bo_jitter := j, bo_attempt := min (bo_attempt ?b + 1) u32_max \<rparr>)))"
    using Cons.prems pol by simp
  from Cons.IH [OF this] d show ?case by (auto simp: next_delay_def)
qed simp

end

section \<open>Asking a connection to start over\<close>

text \<open>
  Each stream has a counter of the requests made and a number of listeners; the wake-up of the
  listeners is the watch channel's.
\<close>

record resync_counter =
  rq_count :: nat
  rq_listeners :: nat

type_synonym resync_requests = "(stream_id \<times> resync_counter) list"

definition resync_new :: "stream_id list \<Rightarrow> resync_requests" where
  "resync_new streams = om_collect id (map (\<lambda>s. (s, \<lparr> rq_count = 0, rq_listeners = 0 \<rparr>)) streams)"

definition request :: "stream_id \<Rightarrow> resync_requests \<Rightarrow> bool \<times> resync_requests" where
  "request s r = (case om_get id s r of
      None \<Rightarrow> (False, r)
    | Some c \<Rightarrow> (0 < rq_listeners c, om_insert id s (c\<lparr> rq_count := sat_u64 (rq_count c + 1) \<rparr>) r))"

definition subscribe :: "stream_id \<Rightarrow> resync_requests \<Rightarrow> bool \<times> resync_requests" where
  "subscribe s r = (case om_get id s r of
      None \<Rightarrow> (False, r)
    | Some c \<Rightarrow> (True, om_insert id s (c\<lparr> rq_listeners := rq_listeners c + 1 \<rparr>) r))"

definition requested :: "stream_id \<Rightarrow> resync_requests \<Rightarrow> nat" where
  "requested s r = (case om_get id s r of None \<Rightarrow> 0 | Some c \<Rightarrow> rq_count c)"

section \<open>Properties\<close>

text \<open>
  A venue that accepts connections and drops them keeps being waited for: while no session
  lasts long enough to count, every delay of the live schedule is between half and all of a
  ceiling that doubles with each failure and never shrinks below it; and with a representable
  cap the schedule always answers.
\<close>

theorem flapping_escalates:
  assumes "\<forall>lasted \<in> set sessions. lasted < bp_min_stable (bo_policy b)" and "bo_attempt b \<le> u32_max"
    and "bp_cap (bo_policy b) - bp_cap (bo_policy b) div 2 < u64_max"
  shows "\<exists>delays b'. reconnects equal_jitter_sample b sessions = Returned (delays, b')
    \<and> length delays = length sessions
    \<and> (\<forall>k < length delays. ceiling_of (failed k b) div 2 \<le> delays ! k \<and> delays ! k \<le> ceiling_of (failed k b)
        \<and> delays ! k \<le> bp_cap (bo_policy b))
    \<and> (\<forall>k. ceiling_of (failed k b) \<le> ceiling_of (failed (Suc k) b))"
proof -
  obtain delays b' where r: "reconnects equal_jitter_sample b sessions = Returned (delays, b')"
    using equal.reconnects_answer [OF assms(3)] by blast
  have "ceiling_of (failed k b) \<le> bp_cap (bo_policy b)" for k
    using ceiling_le_cap [of "failed k b"] by (simp add: failed_def)
  moreover have "ceiling_of (failed k b) \<le> ceiling_of (failed (Suc k) b)" for k
    by (rule ceiling_mono) (auto simp: failed_def)
  ultimately show ?thesis
    using equal.flapping_delays [OF r assms(1,2)] r by (meson order_trans)
qed

lemma flapping_escalates_witness:
  "\<exists>delays b'. reconnects equal_jitter_sample (backoff_new backoff_policy_default 42)
      (replicate 8 (from_secs 1)) = Returned (delays, b')
    \<and> from_secs 30 \<le> delays ! 7 \<and> delays ! 7 \<le> from_secs 60"
proof -
  let ?b = "backoff_new backoff_policy_default 42 :: u64 backoff"
  have c: "ceiling_of (failed 7 ?b) = from_secs 60"
    by (simp add: ceiling_of_def failed_def backoff_new_def backoff_policy_default_def backoff_factor_def
        u32_max_def from_secs_def from_millis_def nanos_per_sec_def duration_max_def u64_max_def)
  obtain delays b' where r: "reconnects equal_jitter_sample ?b (replicate 8 (from_secs 1)) = Returned (delays, b')"
    and n: "length delays = 8" and within: "\<And>k. k < 8 \<Longrightarrow> ceiling_of (failed k ?b) div 2 \<le> delays ! k
      \<and> delays ! k \<le> ceiling_of (failed k ?b)"
    using flapping_escalates [of "replicate 8 (from_secs 1)" ?b]
    by (auto simp: backoff_new_def backoff_policy_default_def from_secs_def nanos_per_sec_def u64_max_def u32_max_def)
  from within [of 7] c have "from_secs 30 \<le> delays ! 7 \<and> delays ! 7 \<le> from_secs 60"
    by (simp add: from_secs_def)
  with r show ?thesis by blast
qed

text \<open>
  Asking one stream to resync counts up that stream's requests, up to the width of the
  counter, and no other's; a stream that is not registered is refused without effect.
\<close>

theorem resync_stays_local:
  "let (heard, r') = request s r
   in requested t r' = (if t = s \<and> om_get id s r \<noteq> None then sat_u64 (requested s r + 1) else requested t r)
      \<and> (om_get id s r = None \<longrightarrow> \<not> heard \<and> r' = r)"
  by (auto simp: request_def requested_def split: option.splits)

lemma resync_stays_local_witness:
  "requested (StreamId Kraken ''X'') (snd (request (StreamId Coinbase ''X'')
     (resync_new [StreamId Kraken ''X'', StreamId Coinbase ''X'']))) = 0"
  using resync_stays_local [of "StreamId Coinbase ''X''" "resync_new [StreamId Kraken ''X'', StreamId Coinbase ''X'']"
      "StreamId Kraken ''X''"]
  by (simp add: resync_new_def om_collect_def requested_def less_stream_id_def less_venue_id_def split: prod.splits)

end
