(* ===== verification/Sync.thy ===== *)
theory Sync
  imports Auditing
begin

text \<open>
  The venue boundary (\<open>ma-venues/src/sync.rs\<close>): frames, the actions a venue's state machine
  asks for, and the book driven by them. A venue (\<open>Box<dyn VenueSync>\<close>) is a record of its
  methods over a state of its own; a call may panic. Text is the list of its bytes.

  The locale \<open>venue_sync\<close> is the contract the book relies on; the venue theories interpret it.
\<close>

section \<open>Frames\<close>

datatype frame_source = WebSocket | RestSnapshotSource | RestAudit

record raw_frame =
  fr_stream :: stream_id
  fr_payload :: string
  fr_ingest_ts :: ingest_time
  fr_source :: frame_source

definition frame_new :: "stream_id \<Rightarrow> string \<Rightarrow> ingest_time \<Rightarrow> raw_frame" where
  "frame_new stream payload ingest_ts = \<lparr> fr_stream = stream, fr_payload = payload,
     fr_ingest_ts = ingest_ts, fr_source = WebSocket \<rparr>"

definition frame_rest_audit :: "stream_id \<Rightarrow> string \<Rightarrow> ingest_time \<Rightarrow> raw_frame" where
  "frame_rest_audit stream payload ingest_ts =
     (frame_new stream payload ingest_ts)\<lparr> fr_source := RestAudit \<rparr>"

definition frame_rest_snapshot :: "stream_id \<Rightarrow> string \<Rightarrow> ingest_time \<Rightarrow> raw_frame" where
  "frame_rest_snapshot stream payload ingest_ts =
     (frame_new stream payload ingest_ts)\<lparr> fr_source := RestSnapshotSource \<rparr>"

definition frame_venue :: "raw_frame \<Rightarrow> venue_id" where
  "frame_venue f = sid_venue (fr_stream f)"

definition frame_symbol :: "raw_frame \<Rightarrow> symbol" where
  "frame_symbol f = sid_symbol (fr_stream f)"

datatype venue_error =
    NotUtf8
  | Malformed
  | WrongVenue venue_id venue_id
  | NoEndpoint venue_id
  | NoRestSnapshot venue_id

text \<open>\<open>str::from_utf8\<close>: well-formed byte sequences of the Unicode standard.\<close>

definition utf8_tail :: "nat \<Rightarrow> bool" where
  "utf8_tail b \<longleftrightarrow> 0x80 \<le> b \<and> b \<le> 0xBF"

fun utf8_valid :: "nat list \<Rightarrow> bool" where
  "utf8_valid [] \<longleftrightarrow> True"
| "utf8_valid (a # r) \<longleftrightarrow>
     (if a < 0x80 then utf8_valid r
      else if 0xC2 \<le> a \<and> a \<le> 0xDF
        then (case r of b # r \<Rightarrow> utf8_tail b \<and> utf8_valid r | [] \<Rightarrow> False)
      else if 0xE0 \<le> a \<and> a \<le> 0xEF
        then (case r of b # c # r \<Rightarrow>
               (if a = 0xE0 then 0xA0 \<le> b \<and> b \<le> 0xBF
                else if a = 0xED then 0x80 \<le> b \<and> b \<le> 0x9F else utf8_tail b)
               \<and> utf8_tail c \<and> utf8_valid r
             | _ \<Rightarrow> False)
      else if 0xF0 \<le> a \<and> a \<le> 0xF4
        then (case r of b # c # d # r \<Rightarrow>
               (if a = 0xF0 then 0x90 \<le> b \<and> b \<le> 0xBF
                else if a = 0xF4 then 0x80 \<le> b \<and> b \<le> 0x8F else utf8_tail b)
               \<and> utf8_tail c \<and> utf8_tail d \<and> utf8_valid r
             | _ \<Rightarrow> False)
      else False)"

definition frame_as_str :: "raw_frame \<Rightarrow> venue_error + string" where
  "frame_as_str f = (if utf8_valid (map of_char (fr_payload f)) then Inr (fr_payload f) else Inl NotUtf8)"

section \<open>What a frame turns into\<close>

datatype 'd sync_action =
    Ignore
  | DoSnapshot "'d level list" "'d level list"
  | DoDelta "'d level list" "'d level list"
  | Verify u32
  | Forward "'d event_kind"
  | Desync "'d desync_reason"

record 'd ingested =
  ig_actions :: "'d sync_action list"
  ig_venue_ts :: "system_time option"

definition untimed :: "'d sync_action list \<Rightarrow> 'd ingested" where
  "untimed actions = \<lparr> ig_actions = actions, ig_venue_ts = None \<rparr>"

definition ignored :: "'d ingested" where
  "ignored = untimed [Ignore]"

definition timed_at :: "'d ingested \<Rightarrow> system_time option \<Rightarrow> 'd ingested" where
  "timed_at i venue_ts = i\<lparr> ig_venue_ts := venue_ts \<rparr>"

datatype recovery_strategy = Resubscribe | ByRestSnapshot

record 'd rest_snapshot =
  rs_bids :: "'d level list"
  rs_asks :: "'d level list"
  rs_as_of :: u64

text \<open>The methods of \<open>VenueSync\<close>, and the two that have default bodies.\<close>

record ('d, 's) venue_ops =
  vs_venue :: venue_id
  vs_integrity :: integrity
  vs_recovery :: recovery_strategy
  vs_ingest :: "raw_frame \<Rightarrow> 's \<Rightarrow> ((venue_error + 'd ingested) \<times> 's) rust"
  vs_checksum :: "'s \<Rightarrow> 'd book \<Rightarrow> u32 option"
  vs_reset :: "'s \<Rightarrow> 's"
  vs_parse_rest :: "'s \<Rightarrow> string \<Rightarrow> venue_error + 'd rest_snapshot"
  vs_apply_rest :: "'d rest_snapshot \<Rightarrow> 's \<Rightarrow> 'd sync_action list \<times> 's"

definition default_checksum :: "'s \<Rightarrow> 'd book \<Rightarrow> u32 option" where
  "default_checksum s b = None"

definition default_parse_rest :: "venue_id \<Rightarrow> 's \<Rightarrow> string \<Rightarrow> venue_error + 'd rest_snapshot" where
  "default_parse_rest venue s body = Inl (NoRestSnapshot venue)"

definition default_apply_rest :: "'d rest_snapshot \<Rightarrow> 's \<Rightarrow> 'd sync_action list \<times> 's" where
  "default_apply_rest snapshot s = ([], s)"

section \<open>A venue and its book\<close>

record ('d, 's) venue_book =
  vb_sync :: 's
  vb_book :: "'d book"
  vb_audit_policy :: audit_policy
  vb_audit_trail :: "'d audit_trail"

datatype 'd outcome =
    StateChanged "'d book_state" "'d book_state"
  | Event "'d market_event"

definition venue_book_new :: "('d, 's) venue_ops \<Rightarrow> 's \<Rightarrow> symbol \<Rightarrow> ('d, 's) venue_book" where
  "venue_book_new V s symbol = \<lparr> vb_sync = s, vb_book = new_book (vs_venue V) symbol,
     vb_audit_policy = audit_policy_default, vb_audit_trail = audit_trail_new \<rparr>"

definition with_audit_policy :: "('d, 's) venue_book \<Rightarrow> audit_policy \<Rightarrow> ('d, 's) venue_book" where
  "with_audit_policy vb policy = vb\<lparr> vb_audit_policy := policy \<rparr>"

definition venue_book_stream :: "('d, 's) venue_book \<Rightarrow> stream_id" where
  "venue_book_stream vb = StreamId (bk_venue (vb_book vb)) (bk_symbol (vb_book vb))"

definition venue_book_with_max_depth :: "('d, 's) venue_book \<Rightarrow> nat \<Rightarrow> ('d, 's) venue_book" where
  "venue_book_with_max_depth vb depth = vb\<lparr> vb_book := with_max_depth (vb_book vb) depth \<rparr>"

definition venue_book_reset ::
  "('d, 's) venue_ops \<Rightarrow> ('d, 's) venue_book \<Rightarrow> ingest_time \<Rightarrow> ('d, 's) venue_book" where
  "venue_book_reset V vb now = vb\<lparr> vb_sync := vs_reset V (vb_sync vb),
     vb_audit_trail := audit_trail_reset (vb_audit_trail vb),
     vb_book := mark_desynced (vb_book vb) ConnectionLost now \<rparr>"

text \<open>A change of state is reported once, comparing what was before with what is after.\<close>

definition state_changed ::
  "('d, 'z) decimal_ops_scheme \<Rightarrow> 'd book_state \<Rightarrow> 'd book_state \<Rightarrow> 'd outcome list" where
  "state_changed D before after = (if state_eq D before after then [] else [StateChanged before after])"

definition venue_book_audit ::
  "('d, 'z) decimal_ops_scheme \<Rightarrow> ('d, 's) venue_book \<Rightarrow> 'd rest_snapshot \<Rightarrow> ingest_time
     \<Rightarrow> 'd outcome list \<times> ('d, 's) venue_book" where
  "venue_book_audit D vb snapshot now =
     (if \<not> is_live (bk_state (vb_book vb)) then ([], vb)
      else let before = bk_state (vb_book vb);
               verdict = audit D (vb_book vb) (rs_bids snapshot) (rs_asks snapshot) (vb_audit_policy vb);
               (reason, trail) = observe D (vb_audit_trail vb) verdict (vb_audit_policy vb);
               vb = vb\<lparr> vb_audit_trail := trail \<rparr>;
               vb = (case reason of None \<Rightarrow> vb
                     | Some why \<Rightarrow> vb\<lparr> vb_book := mark_desynced (vb_book vb) why now \<rparr>)
           in (state_changed D before (bk_state (vb_book vb)), vb))"

definition verify ::
  "('d, 's) venue_ops \<Rightarrow> 's \<Rightarrow> 'd book \<Rightarrow> u32 \<Rightarrow> ingest_time \<Rightarrow> 'd book" where
  "verify V s b expected now =
     (if \<not> is_live (bk_state b) then b
      else case vs_checksum V s b of
             None \<Rightarrow> b
           | Some computed \<Rightarrow>
               if computed = expected then mark_verified b now
               else mark_desynced b (ChecksumMismatch expected computed) now)"

text \<open>The body of the loop over the actions: the book after it, and the event it emits.\<close>

fun apply_action ::
  "('d, 'z) decimal_ops_scheme \<Rightarrow> ('d, 's) venue_ops \<Rightarrow> 's \<Rightarrow> ingest_time \<Rightarrow> 'd book
     \<Rightarrow> 'd sync_action \<Rightarrow> 'd event_kind option \<times> 'd book" where
  "apply_action D V s now b Ignore = (None, b)"
| "apply_action D V s now b (Desync reason) = (None, mark_desynced b reason now)"
| "apply_action D V s now b (Verify checksum) = (Some (Checksum checksum), verify V s b checksum now)"
| "apply_action D V s now b (DoSnapshot bids asks) =
     (Some (Snapshot bids asks), snd (apply_snapshot D b bids asks (vs_integrity V) now))"
| "apply_action D V s now b (DoDelta bids asks) =
     (case apply_delta D b bids asks now of
        (Inl _, b) \<Rightarrow> (None, b)
      | (Inr _, b) \<Rightarrow> (Some (Delta bids asks), b))"
| "apply_action D V s now b (Forward kind) = (Some kind, b)"

definition event_of :: "'d book \<Rightarrow> system_time option \<Rightarrow> ingest_time \<Rightarrow> 'd event_kind \<Rightarrow> 'd market_event" where
  "event_of b venue_ts now kind = \<lparr> ev_venue = bk_venue b, ev_symbol = bk_symbol b,
     ev_venue_ts = venue_ts, ev_ingest_ts = now, ev_kind = kind \<rparr>"

fun apply_actions ::
  "('d, 'z) decimal_ops_scheme \<Rightarrow> ('d, 's) venue_ops \<Rightarrow> 's \<Rightarrow> system_time option \<Rightarrow> ingest_time
     \<Rightarrow> 'd book \<Rightarrow> 'd sync_action list \<Rightarrow> 'd market_event list \<times> 'd book" where
  "apply_actions D V s venue_ts now b [] = ([], b)"
| "apply_actions D V s venue_ts now b (a # actions) =
     (let (kind, b) = apply_action D V s now b a;
          (events, b') = apply_actions D V s venue_ts now b actions
      in ((case kind of None \<Rightarrow> events | Some k \<Rightarrow> event_of b venue_ts now k # events), b'))"

definition apply_ingested ::
  "('d, 'z) decimal_ops_scheme \<Rightarrow> ('d, 's) venue_ops \<Rightarrow> ('d, 's) venue_book \<Rightarrow> 'd ingested
     \<Rightarrow> ingest_time \<Rightarrow> 'd outcome list \<times> ('d, 's) venue_book" where
  "apply_ingested D V vb ingested now =
     (let before = bk_state (vb_book vb);
          (events, b) = apply_actions D V (vb_sync vb) (ig_venue_ts ingested) now (vb_book vb)
                          (ig_actions ingested)
      in (map Event events @ state_changed D before (bk_state b), vb\<lparr> vb_book := b \<rparr>))"

definition feed ::
  "('d, 'z) decimal_ops_scheme \<Rightarrow> ('d, 's) venue_ops \<Rightarrow> ('d, 's) venue_book \<Rightarrow> raw_frame
     \<Rightarrow> ((venue_error + 'd outcome list) \<times> ('d, 's) venue_book) rust" where
  "feed D V vb frame =
     (case fr_source frame of
        WebSocket \<Rightarrow>
          (case vs_ingest V frame (vb_sync vb) of
             Panicked \<Rightarrow> Panicked
           | Returned (Inl e, s) \<Rightarrow> Returned (Inl e, vb\<lparr> vb_sync := s \<rparr>)
           | Returned (Inr ingested, s) \<Rightarrow>
               (case apply_ingested D V (vb\<lparr> vb_sync := s \<rparr>) ingested (fr_ingest_ts frame) of
                  (outcomes, vb) \<Rightarrow> Returned (Inr outcomes, vb)))
      | RestSnapshotSource \<Rightarrow>
          (case frame_as_str frame of
             Inl e \<Rightarrow> Returned (Inl e, vb)
           | Inr body \<Rightarrow>
               (case vs_parse_rest V (vb_sync vb) body of
                  Inl e \<Rightarrow> Returned (Inl e, vb)
                | Inr snapshot \<Rightarrow>
                    (case vs_apply_rest V snapshot (vb_sync vb) of
                       (actions, s) \<Rightarrow>
                         (case apply_ingested D V (vb\<lparr> vb_sync := s \<rparr>) (untimed actions) (fr_ingest_ts frame) of
                            (outcomes, vb) \<Rightarrow> Returned (Inr outcomes, vb)))))
      | RestAudit \<Rightarrow>
          (case frame_as_str frame of
             Inl e \<Rightarrow> Returned (Inl e, vb)
           | Inr body \<Rightarrow>
               (case vs_parse_rest V (vb_sync vb) body of
                  Inl e \<Rightarrow> Returned (Inl e, vb)
                | Inr snapshot \<Rightarrow>
                    (case venue_book_audit D vb snapshot (fr_ingest_ts frame) of
                       (outcomes, vb) \<Rightarrow> Returned (Inr outcomes, vb)))))"

definition venue_book_apply_rest ::
  "('d, 'z) decimal_ops_scheme \<Rightarrow> ('d, 's) venue_ops \<Rightarrow> ('d, 's) venue_book \<Rightarrow> 'd rest_snapshot
     \<Rightarrow> ingest_time \<Rightarrow> 'd outcome list \<times> ('d, 's) venue_book" where
  "venue_book_apply_rest D V vb snapshot now =
     (case vs_apply_rest V snapshot (vb_sync vb) of
        (actions, s) \<Rightarrow> apply_ingested D V (vb\<lparr> vb_sync := s \<rparr>) (untimed actions) now)"

text \<open>Replaying a normalised event.\<close>

fun action_of_kind :: "'d event_kind \<Rightarrow> 'd sync_action" where
  "action_of_kind (Snapshot bids asks) = DoSnapshot bids asks"
| "action_of_kind (Delta bids asks) = DoDelta bids asks"
| "action_of_kind (Checksum v) = Verify v"
| "action_of_kind (Trade p q s) = Forward (Trade p q s)"
| "action_of_kind (Heartbeat c) = Forward (Heartbeat c)"

definition apply_event ::
  "('d, 'z) decimal_ops_scheme \<Rightarrow> ('d, 's) venue_ops \<Rightarrow> ('d, 's) venue_book \<Rightarrow> 'd market_event
     \<Rightarrow> ingest_time \<Rightarrow> 'd outcome list \<times> ('d, 's) venue_book" where
  "apply_event D V vb ev now =
     apply_ingested D V vb \<lparr> ig_actions = [action_of_kind (ev_kind ev)], ig_venue_ts = ev_venue_ts ev \<rparr> now"

section \<open>The contract of a venue\<close>

text \<open>
  What a venue may ask for, given what it can prove: checksums only where the protocol has
  them, gaps only where it counts messages, and no book content disguised as a forward.
\<close>

fun passes_through :: "'d event_kind \<Rightarrow> bool" where
  "passes_through (Trade _ _ _) = True"
| "passes_through (Heartbeat _) = True"
| "passes_through _ = False"

fun action_ok :: "integrity \<Rightarrow> 'd sync_action \<Rightarrow> bool" where
  "action_ok i (Verify _) = (i = Verified)"
| "action_ok i (Forward kind) = passes_through kind"
| "action_ok i (Desync reason) = (case reason of
      SequenceGap _ _ \<Rightarrow> i = GapDetectable
    | TimestampRegression _ _ \<Rightarrow> i = OrderOnly
    | AwaitingSnapshot \<Rightarrow> i = OrderOnly
    | _ \<Rightarrow> False)"
| "action_ok i _ = True"

locale venue_sync =
  fixes V :: "('d, 's) venue_ops"
  assumes checksum_iff: "vs_checksum V s b = None \<longleftrightarrow> vs_integrity V \<noteq> Verified"
    and ingest_ok: "vs_ingest V f s = Returned (Inr ig, s') \<Longrightarrow> a \<in> set (ig_actions ig)
      \<Longrightarrow> action_ok (vs_integrity V) a"
    and rest_ok: "vs_apply_rest V sn s = (actions, s') \<Longrightarrow> a \<in> set actions \<Longrightarrow> action_ok (vs_integrity V) a"
    and resubscribe_never_splices: "vs_recovery V = Resubscribe \<Longrightarrow> vs_apply_rest V sn s = ([], s)"
begin

text \<open>A checksum the venue sends is always compared: the silent branch of \<open>verify\<close> is dead.\<close>

lemma verify_compares:
  assumes "vs_ingest V f s = Returned (Inr ig, s')" and "Verify c \<in> set (ig_actions ig)"
    and "is_live (bk_state b)"
  shows "\<exists>computed. vs_checksum V t b = Some computed
    \<and> verify V t b c now = (if computed = c then mark_verified b now
        else mark_desynced b (ChecksumMismatch c computed) now)"
proof -
  have "vs_integrity V = Verified" using ingest_ok [OF assms(1,2)] by simp
  then obtain computed where "vs_checksum V t b = Some computed" using checksum_iff by fastforce
  with assms(3) show ?thesis by (simp add: verify_def)
qed

end

section \<open>What every venue's book keeps\<close>

definition venue_book_ok ::
  "('d, 'z) decimal_ops_scheme \<Rightarrow> ('d, 's) venue_ops \<Rightarrow> 'd book \<Rightarrow> bool" where
  "venue_book_ok D V b \<longleftrightarrow> book_wf D b \<and> (\<forall>i. state_integrity (bk_state b) = Some i \<longrightarrow> i = vs_integrity V)"

lemma guard_crossed_state:
  "bk_state (snd (guard_crossed D b now)) = bk_state b
   \<or> (\<exists>why. bk_state (snd (guard_crossed D b now)) = Desynced now why)"
  by (auto simp: guard_crossed_def mark_desynced_def Let_def split: option.splits)

lemma prune_state [simp]: "bk_state (prune D b) = bk_state b"
  by (simp add: prune_def split: option.splits)

lemma venue_book_ok_desynced [wf_intros]:
  "venue_book_ok D V b \<Longrightarrow> venue_book_ok D V (mark_desynced b why now)"
proof -
  have "state_integrity (bk_state (mark_desynced b why now)) = None" by (simp add: mark_desynced_def)
  then show "venue_book_ok D V b \<Longrightarrow> ?thesis" by (simp add: venue_book_ok_def)
qed

lemma mark_verified_integrity [simp]: "state_integrity (bk_state (mark_verified b now)) = state_integrity (bk_state b)"
  by (cases "bk_state b") (auto simp: mark_verified_def split: integrity.splits)

lemma venue_book_ok_verified [wf_intros]: "venue_book_ok D V b \<Longrightarrow> venue_book_ok D V (mark_verified b now)"
  by (simp add: venue_book_ok_def)

lemma venue_book_ok_verify [wf_intros]: "venue_book_ok D V b \<Longrightarrow> venue_book_ok D V (verify V s b c now)"
  by (auto simp: verify_def intro: wf_intros split: option.splits)

lemma venue_book_ok_snapshot [wf_intros]:
  "venue_book_ok D V (snd (apply_snapshot D b bids asks (vs_integrity V) now))"
proof -
  let ?b = "prune D (b\<lparr> bk_bids := fill_side D [] bids, bk_asks := fill_side D [] asks,
      bk_state := Live (vs_integrity V) now None, bk_last_update := Some now \<rparr>)"
  have "bk_state ?b = Live (vs_integrity V) now None" by simp
  with guard_crossed_state [of D ?b now] show ?thesis
    by (auto simp: venue_book_ok_def book_wf_apply_snapshot apply_snapshot_def
        intro: book_wf_apply_snapshot [unfolded apply_snapshot_def])
qed

lemma venue_book_ok_delta [wf_intros]:
  assumes "venue_book_ok D V b"
  shows "venue_book_ok D V (snd (apply_delta D b bids asks now))"
proof (cases "is_live (bk_state b)")
  case False
  with assms show ?thesis by (simp add: apply_delta_def)
next
  case True
  let ?b = "prune D (b\<lparr> bk_bids := apply_levels D (bk_bids b) bids,
      bk_asks := apply_levels D (bk_asks b) asks, bk_last_update := Some now \<rparr>)"
  have "bk_state ?b = bk_state b" by simp
  with guard_crossed_state [of D ?b now]
  have "state_integrity (bk_state (snd (apply_delta D b bids asks now))) = Some i
      \<Longrightarrow> state_integrity (bk_state b) = Some i" for i
    using True by (auto simp: apply_delta_def)
  with assms book_wf_apply_delta [of D b bids asks now] show ?thesis
    unfolding venue_book_ok_def by blast
qed

lemma venue_book_ok_action:
  "venue_book_ok D V b \<Longrightarrow> apply_action D V s now b a = (k, b') \<Longrightarrow> venue_book_ok D V b'"
proof (cases a)
  case (DoDelta bids asks)
  assume "venue_book_ok D V b" "apply_action D V s now b a = (k, b')"
  with DoDelta venue_book_ok_delta [of D V b bids asks now] show ?thesis
    by (auto split: prod.splits sum.splits)
qed (auto intro: wf_intros)

lemma venue_book_ok_actions:
  "venue_book_ok D V b \<Longrightarrow> apply_actions D V s ts now b actions = (evs, b') \<Longrightarrow> venue_book_ok D V b'"
  by (induction actions arbitrary: b evs) (auto simp: Let_def split: prod.splits dest: venue_book_ok_action)

text \<open>No operation moves a book to another venue or symbol.\<close>

definition same_stream :: "'d book \<Rightarrow> 'd book \<Rightarrow> bool" where
  "same_stream a b \<longleftrightarrow> bk_venue a = bk_venue b \<and> bk_symbol a = bk_symbol b"

lemma same_stream_refl [simp]: "same_stream b b"
  by (simp add: same_stream_def)

lemma same_stream_ops [simp]:
  "same_stream (mark_desynced b why now) c = same_stream b c"
  "same_stream (mark_verified b now) c = same_stream b c"
  "same_stream (prune D b) c = same_stream b c"
  "same_stream (snd (guard_crossed D b now)) c = same_stream b c"
  by (auto simp: same_stream_def mark_desynced_def mark_verified_def prune_def guard_crossed_def Let_def
      split: option.splits book_state.splits integrity.splits)

lemma same_stream_trans: "same_stream a b \<Longrightarrow> same_stream b c \<Longrightarrow> same_stream a c"
  by (simp add: same_stream_def)

lemma same_stream_action: "apply_action D V s now b a = (k, b') \<Longrightarrow> same_stream b' b"
proof (cases a)
  case (DoDelta bids asks)
  assume act: "apply_action D V s now b a = (k, b')"
  have "same_stream (snd (apply_delta D b bids asks now)) b"
    by (simp add: apply_delta_def) (simp add: same_stream_def)
  with act DoDelta show ?thesis by (auto split: prod.splits sum.splits)
next
  case (DoSnapshot bids asks)
  assume "apply_action D V s now b a = (k, b')"
  with DoSnapshot have "b' = snd (apply_snapshot D b bids asks (vs_integrity V) now)" by auto
  then show ?thesis by (simp add: apply_snapshot_def) (simp add: same_stream_def)
qed (auto simp: verify_def split: option.splits if_splits)

lemma apply_actions_stream:
  assumes "apply_actions D V s ts now b actions = (evs, b')"
  shows "same_stream b' b"
  using assms
proof (induction actions arbitrary: b evs)
  case (Cons a actions)
  obtain k b1 where "apply_action D V s now b a = (k, b1)" by (cases "apply_action D V s now b a")
  moreover obtain evs' where "apply_actions D V s ts now b1 actions = (evs', b')"
    using Cons.prems calculation by (auto simp: Let_def split: prod.splits)
  ultimately show ?case by (metis Cons.IH same_stream_action same_stream_trans)
qed simp

lemma apply_actions_events:
  assumes "apply_actions D V s ts now b actions = (evs, b')" and "ev \<in> set evs"
  shows "ev_venue ev = bk_venue b \<and> ev_symbol ev = bk_symbol b \<and> ev_venue_ts ev = ts \<and> ev_ingest_ts ev = now"
  using assms
proof (induction actions arbitrary: b evs)
  case (Cons a actions)
  obtain k b1 where act: "apply_action D V s now b a = (k, b1)" by (cases "apply_action D V s now b a")
  obtain evs' where rest: "apply_actions D V s ts now b1 actions = (evs', b')"
    using Cons.prems(1) act by (auto simp: Let_def split: prod.splits)
  have evs: "evs = (case k of None \<Rightarrow> evs' | Some k \<Rightarrow> event_of b1 ts now k # evs')"
    using Cons.prems(1) act rest by simp
  have "same_stream b1 b" by (rule same_stream_action [OF act])
  with Cons.IH [OF rest] Cons.prems(2) evs show ?case
    by (auto simp: same_stream_def event_of_def split: option.splits)
qed simp

text \<open>Forwards and acknowledgements touch no book; a batch is its parts in order.\<close>

lemma quiet_actions:
  assumes "\<forall>a \<in> set actions. a = Ignore \<or> (\<exists>k. a = Forward k)"
  shows "snd (apply_actions D V s ts now b actions) = b"
  using assms by (induction actions) (auto simp: Let_def split: prod.splits)

lemma apply_actions_append:
  "snd (apply_actions D V s ts now b (as @ bs))
     = snd (apply_actions D V s ts now (snd (apply_actions D V s ts now b as)) bs)"
proof (induction as arbitrary: b)
  case (Cons a as)
  then show ?case by (cases "apply_action D V s now b a") (simp add: Let_def case_prod_beta)
qed simp

lemma feed_socket_book:
  assumes "feed D V vb frame = Returned (Inr outs, vb')" and "fr_source frame = WebSocket"
  obtains ig s' where "vs_ingest V frame (vb_sync vb) = Returned (Inr ig, s')"
    and "vb_book vb' = snd (apply_actions D V s' (ig_venue_ts ig) (fr_ingest_ts frame) (vb_book vb) (ig_actions ig))"
  using assms
  by (auto simp: feed_def apply_ingested_def Let_def split: rust.splits sum.splits prod.splits)

text \<open>A venue can ask for a desync in one way only.\<close>

fun desyncs :: "'d sync_action \<Rightarrow> bool" where
  "desyncs (Desync _) = True"
| "desyncs _ = False"

section \<open>Replay of the normalised history\<close>

definition replays :: "'d sync_action \<Rightarrow> bool" where
  "replays a \<longleftrightarrow> (case a of Desync _ \<Rightarrow> False | Forward kind \<Rightarrow> passes_through kind | _ \<Rightarrow> True)"

definition replay_events ::
  "('d, 'z) decimal_ops_scheme \<Rightarrow> ('d, 's) venue_ops \<Rightarrow> ('d, 's) venue_book \<Rightarrow> 'd market_event list
     \<Rightarrow> ('d, 's) venue_book" where
  "replay_events D V vb events = foldl (\<lambda>vb ev. snd (apply_event D V vb ev (ev_ingest_ts ev))) vb events"

lemma replay_events_Cons: "replay_events D V vb (ev # evs)
    = replay_events D V (snd (apply_event D V vb ev (ev_ingest_ts ev))) evs"
  by (simp add: replay_events_def)

lemma event_of_fields [simp]:
  "ev_kind (event_of b ts now k) = k" "ev_ingest_ts (event_of b ts now k) = now"
  "ev_venue_ts (event_of b ts now k) = ts"
  by (simp_all add: event_of_def)

lemma snd_apply_event:
  "snd (apply_event D V vb ev now) = vb\<lparr> vb_book :=
     snd (apply_action D V (vb_sync vb) now (vb_book vb) (action_of_kind (ev_kind ev))) \<rparr>"
  by (simp add: apply_event_def apply_ingested_def Let_def split: prod.splits)

lemma action_of_event:
  assumes "replays a" and "apply_action D V s now b a = (Some k, b')"
  shows "action_of_kind k = a"
  using assms
proof (cases a)
  case (Forward kind)
  with assms show ?thesis by (cases kind) (auto simp: replays_def)
qed (auto simp: replays_def split: prod.splits sum.splits)

lemma silent_action:
  assumes "replays a" and "apply_action D V s now b a = (None, b')"
  shows "b' = b"
  using assms by (cases a) (auto simp: replays_def apply_delta_def split: prod.splits sum.splits if_splits)

lemma replay_actions:
  assumes "\<forall>a \<in> set actions. replays a"
    and "apply_actions D V (vb_sync vb) ts now (vb_book vb) actions = (evs, b')"
  shows "replay_events D V vb evs = vb\<lparr> vb_book := b' \<rparr>"
  using assms
proof (induction actions arbitrary: vb evs)
  case (Cons a actions)
  obtain k b1 where act: "apply_action D V (vb_sync vb) now (vb_book vb) a = (k, b1)"
    by (cases "apply_action D V (vb_sync vb) now (vb_book vb) a")
  obtain evs' where rest: "apply_actions D V (vb_sync vb) ts now b1 actions = (evs', b')"
    using Cons.prems(2) act by (auto simp: Let_def split: prod.splits)
  have IH: "replay_events D V (vb\<lparr> vb_book := b1 \<rparr>) evs' = vb\<lparr> vb_book := b' \<rparr>"
    using Cons.IH [of "vb\<lparr> vb_book := b1 \<rparr>" evs'] Cons.prems(1) rest by simp
  have ra: "replays a" using Cons.prems(1) by simp
  show ?case
  proof (cases k)
    case None
    have "b1 = vb_book vb" by (rule silent_action [OF ra act [unfolded None]])
    then have "vb\<lparr> vb_book := b1 \<rparr> = vb" by simp
    moreover have "evs = evs'" using Cons.prems(2) act rest None by simp
    ultimately show ?thesis using IH by (simp only:)
  next
    case (Some kind)
    have "snd (apply_event D V vb (event_of b1 ts now kind) now) = vb\<lparr> vb_book := b1 \<rparr>"
      using action_of_event [OF ra act [unfolded Some]] act by (simp add: snd_apply_event)
    moreover have "evs = event_of b1 ts now kind # evs'" using Cons.prems(2) act rest Some by simp
    ultimately show ?thesis using IH by (simp only: replay_events_Cons event_of_fields)
  qed
qed (simp add: replay_events_def)

end
