(* ===== verification/Wire.thy ===== *)
theory Wire
  imports Sync "HOL-Library.Signed_Division"
begin

text \<open>
  Parsing shared by the venues (\<open>ma-venues/src/venues/common.rs\<close>): levels from text pairs, and
  the RFC 3339 timestamps of Coinbase and Kraken with the calendar behind them. Text is UTF-8
  bytes; slicing goes by byte offsets and respects character boundaries as Rust's \<open>str\<close> does.
\<close>

section \<open>Text\<close>

definition byte_of :: "char \<Rightarrow> nat" where
  "byte_of c = of_char c"

definition char_boundary :: "string \<Rightarrow> nat \<Rightarrow> bool" where
  "char_boundary s i \<longleftrightarrow> i = 0 \<or> i = length s \<or> (i < length s \<and> \<not> utf8_tail (byte_of (s ! i)))"

text \<open>\<open>str::get(a..b)\<close>.\<close>

definition str_get :: "string \<Rightarrow> nat \<Rightarrow> nat \<Rightarrow> string option" where
  "str_get s a b = (if a \<le> b \<and> b \<le> length s \<and> char_boundary s a \<and> char_boundary s b
     then Some (take (b - a) (drop a s)) else None)"

definition is_digit_char :: "char \<Rightarrow> bool" where
  "is_digit_char c \<longleftrightarrow> 48 \<le> byte_of c \<and> byte_of c \<le> 57"

definition digits_value :: "string \<Rightarrow> nat" where
  "digits_value s = foldl (\<lambda>n c. 10 * n + (byte_of c - 48)) 0 s"

definition parse_digits :: "string \<Rightarrow> nat option" where
  "parse_digits s = (if s \<noteq> [] \<and> list_all is_digit_char s then Some (digits_value s) else None)"

text \<open>\<open>str::parse\<close> for the unsigned types (an optional plus sign) and for \<open>i64\<close>.\<close>

definition parse_unsigned :: "nat \<Rightarrow> string \<Rightarrow> nat option" where
  "parse_unsigned limit s =
     Option.bind (parse_digits (case s of c # r \<Rightarrow> if c = CHR ''+'' then r else s | [] \<Rightarrow> s))
       (\<lambda>n. if n \<le> limit then Some n else None)"

definition parse_i64 :: "string \<Rightarrow> int option" where
  "parse_i64 s =
     (case s of
        CHR ''-'' # r \<Rightarrow> Option.bind (parse_digits r) (\<lambda>n. if n \<le> 9223372036854775808 then Some (- int n) else None)
      | CHR ''+'' # r \<Rightarrow> Option.bind (parse_digits r) (\<lambda>n. if n \<le> 9223372036854775807 then Some (int n) else None)
      | _ \<Rightarrow> Option.bind (parse_digits s) (\<lambda>n. if n \<le> 9223372036854775807 then Some (int n) else None))"

text \<open>\<open>str::split_once\<close> at a single-byte character.\<close>

fun split_once :: "char \<Rightarrow> string \<Rightarrow> (string \<times> string) option" where
  "split_once c [] = None"
| "split_once c (x # xs) = (if x = c then Some ([], xs)
     else map_option (\<lambda>(a, b). (x # a, b)) (split_once c xs))"

section \<open>Levels\<close>

definition level_from_str_pair ::
  "('d, 'z) decimal_ops_scheme \<Rightarrow> string \<Rightarrow> string \<Rightarrow> venue_error + 'd level" where
  "level_from_str_pair D price qty =
     (case price_from_str D price of
        Inl _ \<Rightarrow> Inl Malformed
      | Inr p \<Rightarrow> (case qty_from_str D qty of Inl _ \<Rightarrow> Inl Malformed | Inr q \<Rightarrow> Inr (level_of p q)))"

text \<open>\<open>collect()\<close> into a \<open>Result\<close>: the first error wins.\<close>

fun try_map :: "('a \<Rightarrow> 'e + 'b) \<Rightarrow> 'a list \<Rightarrow> 'e + 'b list" where
  "try_map f [] = Inr []"
| "try_map f (x # xs) = (case f x of Inl e \<Rightarrow> Inl e
     | Inr y \<Rightarrow> (case try_map f xs of Inl e \<Rightarrow> Inl e | Inr ys \<Rightarrow> Inr (y # ys)))"

definition levels_from_str_pairs ::
  "('d, 'z) decimal_ops_scheme \<Rightarrow> (string \<times> string) list \<Rightarrow> venue_error + 'd level list" where
  "levels_from_str_pairs D pairs = try_map (\<lambda>(p, q). level_from_str_pair D p q) pairs"

definition system_time_from_micros :: "u64 \<Rightarrow> system_time" where
  "system_time_from_micros micros = int (unat micros * 1000)"

section \<open>The calendar\<close>

definition days_from_civil :: "int \<Rightarrow> int \<Rightarrow> int \<Rightarrow> int" where
  "days_from_civil year month day =
     (let year = year - (if month \<le> 2 then 1 else 0);
          era = (if 0 \<le> year then year else year - 399) sdiv 400;
          year_of_era = year - era * 400;
          day_of_year = (153 * (month + (if 2 < month then -3 else 9)) + 2) sdiv 5 + day - 1;
          day_of_era = year_of_era * 365 + year_of_era sdiv 4 - year_of_era sdiv 100 + day_of_year
      in era * 146097 + day_of_era - 719468)"

section \<open>Timestamps\<close>

record civil_time =
  ct_year :: int
  ct_month :: int
  ct_day :: int
  ct_hour :: nat
  ct_minute :: nat
  ct_second :: nat

text \<open>The nineteen bytes of date and time.\<close>

definition rfc_fields :: "string \<Rightarrow> civil_time option" where
  "rfc_fields raw =
     (if length raw < 19 \<or> raw ! 4 \<noteq> CHR ''-'' \<or> raw ! 7 \<noteq> CHR ''-'' then None
      else if raw ! 10 \<noteq> CHR ''T'' \<and> raw ! 10 \<noteq> CHR ''t'' \<and> raw ! 10 \<noteq> CHR '' '' then None
      else if raw ! 13 \<noteq> CHR '':'' \<or> raw ! 16 \<noteq> CHR '':'' then None
      else
        Option.bind (Option.bind (str_get raw 0 4) parse_i64) (\<lambda>year.
        Option.bind (Option.bind (str_get raw 5 7) parse_i64) (\<lambda>month.
        Option.bind (Option.bind (str_get raw 8 10) parse_i64) (\<lambda>day.
        Option.bind (Option.bind (str_get raw 11 13) (parse_unsigned u64_max)) (\<lambda>hour.
        Option.bind (Option.bind (str_get raw 14 16) (parse_unsigned u64_max)) (\<lambda>minute.
        Option.bind (Option.bind (str_get raw 17 19) (parse_unsigned u64_max)) (\<lambda>second.
          if \<not> (1 \<le> month \<and> month \<le> 12) \<or> \<not> (1 \<le> day \<and> day \<le> 31) then None
          else if 23 < hour \<or> 59 < minute \<or> 60 < second then None
          else Some \<lparr> ct_year = year, ct_month = month, ct_day = day,
                      ct_hour = hour, ct_minute = minute, ct_second = second \<rparr>)))))))"

text \<open>The fraction, in nanoseconds, and what follows it.\<close>

definition rfc_fraction :: "string \<Rightarrow> (nat \<times> string) option" where
  "rfc_fraction rest =
     (case rest of
        CHR ''.'' # after_dot \<Rightarrow>
          (let digits = takeWhile is_digit_char after_dot
           in if digits = [] then None
              else let rest = drop (1 + length digits) rest;
                       scaled = take 9 digits;
                       scaled = scaled @ replicate (9 - length scaled) (CHR ''0'')
                   in map_option (\<lambda>n. (n, rest)) (parse_unsigned u32_max scaled))
      | _ \<Rightarrow> Some (0, rest))"

definition offset_parts :: "int \<Rightarrow> string \<Rightarrow> string \<Rightarrow> int option" where
  "offset_parts sign h m =
     Option.bind (parse_i64 h) (\<lambda>h. Option.bind (parse_i64 m) (\<lambda>m.
       if \<not> (0 \<le> h \<and> h \<le> 23) \<or> \<not> (0 \<le> m \<and> m \<le> 59) then None
       else Some (sign * (h * 3600 + m * 60))))"

text \<open>\<open>split_at(2)\<close> panics when the second byte is not the end of a character.\<close>

definition rfc_offset :: "string \<Rightarrow> int option rust" where
  "rfc_offset rest =
     (case rest of
        [] \<Rightarrow> Returned (Some 0)
      | c # body \<Rightarrow>
          if c = CHR ''Z'' \<or> c = CHR ''z'' then Returned (Some 0)
          else if c = CHR ''+'' \<or> c = CHR ''-''
          then let sign = (if c = CHR ''-'' then -1 else 1)
               in case split_once (CHR '':'') body of
                    Some (h, m) \<Rightarrow> Returned (offset_parts sign h m)
                  | None \<Rightarrow>
                      if length body = 4
                      then (if char_boundary body 2
                            then Returned (offset_parts sign (take 2 body) (drop 2 body)) else Panicked)
                      else Returned None
          else Returned None)"

definition instant_of :: "civil_time \<Rightarrow> nat \<Rightarrow> int \<Rightarrow> system_time option" where
  "instant_of t subsec_nanos offset_secs =
     (let second = min (ct_second t) 59;
          days = days_from_civil (ct_year t) (ct_month t) (ct_day t);
          utc_secs = days * 86400 + int (ct_hour t * 3600 + ct_minute t * 60 + second) - offset_secs;
          base = (if 0 \<le> utc_secs then system_time_checked_add 0 (nat utc_secs * nanos_per_sec)
                  else if - 9223372036854775808 \<le> utc_secs then Some (utc_secs * 1000000000) else None)
      in Option.bind base (\<lambda>b. system_time_checked_add b subsec_nanos))"

definition parse_rfc3339 :: "string \<Rightarrow> system_time option rust" where
  "parse_rfc3339 raw =
     (case rfc_fields raw of
        None \<Rightarrow> Returned None
      | Some t \<Rightarrow>
          (case str_get raw 19 (length raw) of
             None \<Rightarrow> Returned None
           | Some rest \<Rightarrow>
               (case rfc_fraction rest of
                  None \<Rightarrow> Returned None
                | Some (subsec_nanos, rest) \<Rightarrow>
                    (case rfc_offset rest of
                       Panicked \<Rightarrow> Panicked
                     | Returned None \<Rightarrow> Returned None
                     | Returned (Some offset_secs) \<Rightarrow> Returned (instant_of t subsec_nanos offset_secs)))))"

section \<open>Days are counted right\<close>

definition leap :: "int \<Rightarrow> bool" where
  "leap y \<longleftrightarrow> 4 dvd y \<and> (\<not> 100 dvd y \<or> 400 dvd y)"

definition month_length :: "int \<Rightarrow> int \<Rightarrow> int" where
  "month_length y m = (if m = 2 then (if leap y then 29 else 28) else if m \<in> {4, 6, 9, 11} then 30 else 31)"

definition next_day :: "int \<times> int \<times> int \<Rightarrow> int \<times> int \<times> int" where
  "next_day date = (case date of (y, m, d) \<Rightarrow>
     if d < month_length y m then (y, m, d + 1)
     else if m < 12 then (y, m + 1, 1) else (y + 1, 1, 1))"

lemma sdiv_nonneg: "0 \<le> a \<Longrightarrow> 0 < b \<Longrightarrow> a sdiv b = a div (b::int)"
  by (simp add: signed_divide_int_def sgn_if)

lemma div_pred:
  fixes y n :: int
  assumes "0 < n"
  shows "(y - 1) div n = (if n dvd y then y div n - 1 else y div n)"
proof (cases "n dvd y")
  case True
  then obtain k where "y = n * k" by (rule dvdE)
  then have "y - 1 = n * (y div n - 1) + (n - 1)" using assms by (simp add: algebra_simps)
  from int_div_pos_eq [OF this] assms have "(y - 1) div n = y div n - 1" by simp
  with True show ?thesis by simp
next
  case False
  then have "0 < y mod n" using assms by (metis dvd_eq_mod_eq_0 le_less pos_mod_sign)
  moreover have "y - 1 = n * (y div n) + (y mod n - 1)" by simp
  moreover have "y mod n - 1 < n" using pos_mod_bound [OF assms, of y] by simp
  ultimately have "(y - 1) div n = y div n" by (intro int_div_pos_eq) auto
  with False show ?thesis by simp
qed

lemma era_floor: "(if 0 \<le> (y::int) then y else y - 399) sdiv 400 = y div 400"
proof (cases "0 \<le> y")
  case True
  then show ?thesis by (simp add: sdiv_nonneg)
next
  case False
  then have "(y - 399) sdiv 400 = - ((399 - y) div 400)"
    by (simp add: signed_divide_int_def sgn_if)
  moreover have "(399 - y) div 400 = - (y div 400)"
  proof (rule int_div_pos_eq)
    show "399 - y = 400 * - (y div 400) + (399 - y mod 400)" by (simp add: minus_div_mult_eq_mod [symmetric])
    show "0 \<le> 399 - y mod 400" "399 - y mod 400 < 400"
      using pos_mod_bound [of 400 y] pos_mod_sign [of 400 y] by linarith+
  qed
  ultimately show ?thesis using False by simp
qed

lemma years_before:
  fixes y :: int
  shows "y div 400 * 146097 + ((y - y div 400 * 400) * 365 + (y - y div 400 * 400) div 4 - (y - y div 400 * 400) div 100)
    = 365 * y + y div 4 - y div 100 + y div 400"
proof -
  define e r where "e = y div 400" and "r = y - y div 400 * 400"
  have y: "y = r + 400 * e" by (simp add: e_def r_def)
  have "y div 4 = (r + (100 * e) * 4) div 4" "y div 100 = (r + (4 * e) * 100) div 100" using y by simp_all
  then have "y div 4 = 100 * e + r div 4" "y div 100 = 4 * e + r div 100" by (simp_all only: div_mult_self1)
  with y show ?thesis unfolding e_def [symmetric] r_def [symmetric] by simp
qed

lemma days_from_civil_eq:
  assumes "1 \<le> m" and "m \<le> 12"
  shows "days_from_civil y m d =
    (let y' = y - (if m \<le> 2 then 1 else 0)
     in 365 * y' + y' div 4 - y' div 100 + y' div 400
        + (153 * (m + (if 2 < m then -3 else 9)) + 2) div 5 + d - 1 - 719468)"
proof -
  define y' where "y' = y - (if m \<le> 2 then 1 else 0 :: int)"
  define r where "r = y' - y' div 400 * 400"
  define k where "k = 153 * (m + (if 2 < m then -3 else 9)) + 2"
  have "0 \<le> r" by (simp add: r_def minus_div_mult_eq_mod)
  then have r: "r sdiv 4 = r div 4" "r sdiv 100 = r div 100" by (simp_all add: sdiv_nonneg)
  have "0 \<le> k" using assms by (auto simp: k_def)
  then have k: "k sdiv 5 = k div 5" by (simp add: sdiv_nonneg)
  have "days_from_civil y m d = y' div 400 * 146097 + (r * 365 + r div 4 - r div 100 + (k div 5 + d - 1)) - 719468"
    unfolding days_from_civil_def Let_def y'_def [symmetric] era_floor r_def [symmetric] k_def [symmetric] r k
    by (rule refl)
  then show ?thesis
    using years_before [of y'] unfolding Let_def y'_def [symmetric] r_def [symmetric] k_def [symmetric] by linarith
qed

lemma leap_shift: "y div 4 - y div 100 + y div 400
    = (y - 1) div 4 - (y - 1) div 100 + (y - 1) div 400 + (if leap y then 1 else (0::int))"
proof -
  have "100 dvd y \<Longrightarrow> 4 dvd y" by (rule dvd_trans [of 4 100]) auto
  moreover have "400 dvd y \<Longrightarrow> 100 dvd y" by (rule dvd_trans [of 100 400]) auto
  ultimately show ?thesis
    using div_pred [of 4 y] div_pred [of 100 y] div_pred [of 400 y] unfolding leap_def by presburger
qed

lemma month_cases:
  assumes "1 \<le> (m::int)" and "m \<le> 12"
  shows "m = 1 \<or> m = 2 \<or> m = 3 \<or> m = 4 \<or> m = 5 \<or> m = 6 \<or> m = 7 \<or> m = 8 \<or> m = 9 \<or> m = 10 \<or> m = 11 \<or> m = 12"
  using assms by presburger

definition valid_date :: "int \<times> int \<times> int \<Rightarrow> bool" where
  "valid_date date = (case date of (y, m, d) \<Rightarrow> 1 \<le> m \<and> m \<le> 12 \<and> 1 \<le> d \<and> d \<le> month_length y m)"

definition days_of :: "int \<times> int \<times> int \<Rightarrow> int" where
  "days_of date = (case date of (y, m, d) \<Rightarrow> days_from_civil y m d)"

lemma month_end_step:
  assumes "1 \<le> m" and "m < 12"
  shows "days_from_civil y (m + 1) 1 = days_from_civil y m (month_length y m) + 1"
proof -
  have eqs: "days_from_civil y m d = (let y' = y - (if m \<le> 2 then 1 else 0)
     in 365 * y' + y' div 4 - y' div 100 + y' div 400
        + (153 * (m + (if 2 < m then -3 else 9)) + 2) div 5 + d - 1 - 719468)" if "m \<in> {1..12}" for m d
    using that by (intro days_from_civil_eq) auto
  have "m = 1 \<or> m = 2 \<or> m = 3 \<or> m = 4 \<or> m = 5 \<or> m = 6 \<or> m = 7 \<or> m = 8 \<or> m = 9 \<or> m = 10 \<or> m = 11"
    using month_cases [of m] assms by linarith
  moreover have ?thesis if "m = 2"
  proof -
    have "days_from_civil y 3 1 = 365 * y + (y div 4 - y div 100 + y div 400) - 719468"
      by (simp add: eqs)
    moreover have "days_from_civil y 2 (month_length y 2)
        = 365 * y - 1 + ((y - 1) div 4 - (y - 1) div 100 + (y - 1) div 400) + (if leap y then 1 else 0) - 719468"
      by (simp add: eqs month_length_def Let_def)
    ultimately show ?thesis using leap_shift [of y] unfolding that by simp
  qed
  ultimately show ?thesis by (elim disjE) (simp_all add: eqs month_length_def Let_def)
qed

lemma year_end_step: "days_from_civil (y + 1) 1 1 = days_from_civil y 12 31 + 1"
  by (simp add: days_from_civil_eq)

section \<open>Panics\<close>

lemma ascii_boundary: "list_all (\<lambda>c. byte_of c < 128) s \<Longrightarrow> char_boundary s i \<longleftrightarrow> i \<le> length s"
proof -
  assume small: "list_all (\<lambda>c. byte_of c < 128) s"
  have "\<not> utf8_tail (byte_of (s ! i))" if "i < length s"
    using small that unfolding list_all_length utf8_tail_def by (metis not_le)
  then show ?thesis unfolding char_boundary_def by auto
qed

lemma list_all_drop: "list_all P s \<Longrightarrow> list_all P (drop n s)"
  by (auto simp: list_all_iff dest: in_set_dropD)

lemma list_all_take: "list_all P s \<Longrightarrow> list_all P (take n s)"
  by (auto simp: list_all_iff dest: in_set_takeD)

lemma rfc_offset_ascii: "list_all (\<lambda>c. byte_of c < 128) rest \<Longrightarrow> rfc_offset rest \<noteq> Panicked"
  by (auto simp: rfc_offset_def Let_def ascii_boundary split: list.splits option.splits)

lemma rfc_fraction_ascii:
  "list_all (\<lambda>c. byte_of c < 128) rest \<Longrightarrow> rfc_fraction rest = Some (n, r) \<Longrightarrow> list_all (\<lambda>c. byte_of c < 128) r"
  by (auto simp: rfc_fraction_def Let_def split: list.splits char.splits bool.splits if_splits intro: list_all_drop)

section \<open>Properties\<close>

text \<open>
  The calendar counts days: the epoch is day zero, and over all years, the day after a date
  (by month lengths and the Gregorian leap rule) has the next number.
\<close>

theorem days_count_the_calendar:
  assumes "valid_date date"
  shows "days_of (next_day date) = days_of date + 1 \<and> valid_date (next_day date) \<and> days_of (1970, 1, 1) = 0"
proof -
  obtain y m d where date: "date = (y, m, d)" by (cases date)
  have v: "1 \<le> m" "m \<le> 12" "1 \<le> d" "d \<le> month_length y m" using assms by (simp_all add: valid_date_def date)
  have epoch: "days_of (1970, 1, 1) = 0" by (simp add: days_of_def days_from_civil_eq)
  have long: "1 \<le> month_length y' m'" for y' m' by (simp add: month_length_def)
  show ?thesis
  proof (cases "d < month_length y m")
    case True
    then have "days_of (next_day date) = days_of date + 1"
      using v by (simp add: days_of_def next_day_def date days_from_civil_eq Let_def)
    with True v epoch show ?thesis by (simp add: next_day_def date valid_date_def)
  next
    case False
    with v have d: "d = month_length y m" by simp
    show ?thesis
    proof (cases "m < 12")
      case True
      with False v epoch month_end_step [of m y] long show ?thesis
        by (simp add: next_day_def date valid_date_def days_of_def d)
    next
      case m: False
      with v have m: "m = 12" by simp
      with d have "d = 31" by (simp add: month_length_def)
      with False m epoch year_end_step [of y] long show ?thesis
        by (simp add: next_day_def date valid_date_def days_of_def)
    qed
  qed
qed

lemma days_count_the_calendar_witness:
  "days_of (next_day (2024, 2, 28)) = days_of (2024, 2, 28) + 1 \<and> next_day (2024, 2, 28) = (2024, 2, 29)"
  using days_count_the_calendar [of "(2024, 2, 28)"]
  by (simp add: valid_date_def month_length_def leap_def next_day_def)

text \<open>The one call that can panic splits a compact offset in the middle; on ASCII that is a boundary.\<close>

lemma ascii_timestamps_never_panic:
  assumes "list_all (\<lambda>c. byte_of c < 128) raw"
  shows "parse_rfc3339 raw \<noteq> Panicked"
proof -
  have "rfc_offset r \<noteq> Panicked" if "str_get raw 19 (length raw) = Some rest" "rfc_fraction rest = Some (n, r)" for rest n r
  proof -
    have "list_all (\<lambda>c. byte_of c < 128) rest"
      using that(1) assms by (auto simp: str_get_def intro!: list_all_take list_all_drop split: if_splits)
    then show ?thesis using rfc_fraction_ascii [OF _ that(2)] rfc_offset_ascii by blast
  qed
  then show ?thesis
    by (auto simp: parse_rfc3339_def split: option.splits prod.splits rust.splits)
qed

text \<open>
  Beyond ASCII it can: a well-formed UTF-8 text, whose compact offset has a two-byte
  character across its middle, makes the parser panic, and with it the task that read the frame.
\<close>

lemma timestamp_can_panic:
  "\<exists>raw. utf8_valid (map byte_of raw) \<and> parse_rfc3339 raw = Panicked"
proof -
  let ?raw = "''2024-02-29T00:00:00+0'' @ [CHR 0xC3, CHR 0xA9, CHR ''0'']"
  have "utf8_valid (map byte_of ?raw)" by (simp add: byte_of_def utf8_tail_def)
  moreover have "parse_rfc3339 ?raw = Panicked"
    by (simp add: parse_rfc3339_def rfc_fields_def str_get_def char_boundary_def byte_of_def utf8_tail_def
        parse_i64_def parse_unsigned_def parse_digits_def digits_value_def is_digit_char_def u64_max_def
        rfc_fraction_def rfc_offset_def Let_def)
  ultimately show ?thesis by blast
qed

text \<open>
  C19. A timestamp is read or refused, never worse, as long as it is ASCII; beyond ASCII there are
  well-formed texts on which the parser panics, where its documentation promises no timestamp.
\<close>

theorem rfc3339_panics_beyond_ascii:
  "(list_all (\<lambda>c. byte_of c < 128) raw \<longrightarrow> parse_rfc3339 raw \<noteq> Panicked)
    \<and> (\<exists>text. utf8_valid (map byte_of text) \<and> parse_rfc3339 text = Panicked)"
  using ascii_timestamps_never_panic timestamp_can_panic by blast

lemma rfc3339_panics_beyond_ascii_witness: "parse_rfc3339 ''2024-02-29T00:00:00+0100'' \<noteq> Panicked"
proof -
  have "list_all (\<lambda>c. byte_of c < 128) ''2024-02-29T00:00:00+0100''" by (simp add: byte_of_def)
  with rfc3339_panics_beyond_ascii show ?thesis by blast
qed

end
