(* ===== verification/Coinbase_Venue.thy ===== *)
theory Coinbase_Venue
  imports Wire
begin

text \<open>
  Coinbase (\<open>ma-venues/src/venues/coinbase.rs\<close>): a snapshot on the stream and a sequence number
  on every message of the connection. The JSON decoders (\<open>serde_json\<close>) are parameters: from
  bytes to the wire structures below, whose untyped parts are values of a type \<open>'v\<close>.
\<close>

section \<open>Wire structures\<close>

record 'v coinbase_envelope =
  ce_channel :: string
  ce_sequence_num :: u64
  ce_timestamp :: "string option"
  ce_events :: "'v list"

datatype l2_kind = L2Snapshot | L2Update

record l2_update =
  lu_side :: side
  lu_price_level :: string
  lu_new_quantity :: string

record l2_event =
  l2_kind_of :: l2_kind
  l2_product_id :: string
  l2_updates :: "l2_update list"

record coinbase_trade =
  ct_product_id :: string
  ct_price :: string
  ct_size :: string
  ct_side :: "side option"

record coinbase_trades =
  cts_kind :: l2_kind
  cts_trades :: "coinbase_trade list"

text \<open>The decoders. A trade's \<open>BUY\<close> reads as \<open>Bid\<close>, its \<open>SELL\<close> as \<open>Ask\<close>.\<close>

record 'v coinbase_json =
  cj_envelope :: "string \<Rightarrow> 'v coinbase_envelope option"
  cj_l2 :: "'v \<Rightarrow> l2_event option"
  cj_heartbeat :: "'v \<Rightarrow> u64 option"
  cj_trades :: "'v \<Rightarrow> coinbase_trades option"
  cj_product_book :: "string \<Rightarrow> ((string \<times> string) list \<times> (string \<times> string) list) option"

definition coinbase_parse_rest ::
  "('d, 'z) decimal_ops_scheme \<Rightarrow> 'v coinbase_json \<Rightarrow> string \<Rightarrow> venue_error + 'd rest_snapshot" where
  "coinbase_parse_rest D J body =
     (case cj_product_book J body of
        None \<Rightarrow> Inl Malformed
      | Some (bids, asks) \<Rightarrow>
          (case try_map (\<lambda>(p, q). level_from_str_pair D p q) bids of
             Inl e \<Rightarrow> Inl e
           | Inr bids \<Rightarrow>
               (case try_map (\<lambda>(p, q). level_from_str_pair D p q) asks of
                  Inl e \<Rightarrow> Inl e
                | Inr asks \<Rightarrow> Inr \<lparr> rs_bids = bids, rs_asks = asks, rs_as_of = 0 \<rparr>)))"

section \<open>The state machine\<close>

record coinbase_sync =
  cb_product_id :: string
  cb_expected_seq :: "u64 option"

definition coinbase_new :: "string \<Rightarrow> coinbase_sync" where
  "coinbase_new product_id = \<lparr> cb_product_id = product_id, cb_expected_seq = None \<rparr>"

text \<open>The increment wraps: overflow checks are off in the release profile.\<close>

definition coinbase_check_seq :: "u64 \<Rightarrow> coinbase_sync \<Rightarrow> 'd desync_reason option \<times> coinbase_sync" where
  "coinbase_check_seq seq s =
     ((case cb_expected_seq s of
         None \<Rightarrow> None
       | Some expected \<Rightarrow> if seq \<noteq> expected then Some (SequenceGap expected seq) else None),
      s\<lparr> cb_expected_seq := Some (seq + 1) \<rparr>)"

fun split_updates ::
  "('d, 'z) decimal_ops_scheme \<Rightarrow> l2_update list \<Rightarrow> venue_error + ('d level list \<times> 'd level list)" where
  "split_updates D [] = Inr ([], [])"
| "split_updates D (u # us) =
     (case level_from_str_pair D (lu_price_level u) (lu_new_quantity u) of
        Inl e \<Rightarrow> Inl e
      | Inr level \<Rightarrow>
          (case split_updates D us of
             Inl e \<Rightarrow> Inl e
           | Inr (bids, asks) \<Rightarrow>
               (case lu_side u of Bid \<Rightarrow> Inr (level # bids, asks) | Ask \<Rightarrow> Inr (bids, level # asks))))"

fun l2_actions ::
  "('d, 'z) decimal_ops_scheme \<Rightarrow> 'v coinbase_json \<Rightarrow> string \<Rightarrow> 'v list
     \<Rightarrow> venue_error + 'd sync_action list" where
  "l2_actions D J product [] = Inr []"
| "l2_actions D J product (raw # events) =
     (case cj_l2 J raw of
        None \<Rightarrow> Inl Malformed
      | Some event \<Rightarrow>
          if l2_product_id event \<noteq> product then l2_actions D J product events
          else case split_updates D (l2_updates event) of
                 Inl e \<Rightarrow> Inl e
               | Inr (bids, asks) \<Rightarrow>
                   (case l2_actions D J product events of
                      Inl e \<Rightarrow> Inl e
                    | Inr actions \<Rightarrow> Inr ((case l2_kind_of event of
                          L2Snapshot \<Rightarrow> DoSnapshot bids asks | L2Update \<Rightarrow> DoDelta bids asks) # actions)))"

definition heartbeat_actions :: "'v coinbase_json \<Rightarrow> 'v list \<Rightarrow> venue_error + 'd sync_action list" where
  "heartbeat_actions J events = try_map (\<lambda>raw. case cj_heartbeat J raw of
       None \<Rightarrow> Inl Malformed
     | Some counter \<Rightarrow> Inr (Forward (Heartbeat (Some counter)))) events"

fun own_trades ::
  "('d, 'z) decimal_ops_scheme \<Rightarrow> string \<Rightarrow> coinbase_trade list \<Rightarrow> venue_error + 'd sync_action list" where
  "own_trades D product [] = Inr []"
| "own_trades D product (t # ts) =
     (if ct_product_id t \<noteq> product then own_trades D product ts
      else case level_from_str_pair D (ct_price t) (ct_size t) of
             Inl e \<Rightarrow> Inl e
           | Inr l \<Rightarrow>
               (case own_trades D product ts of
                  Inl e \<Rightarrow> Inl e
                | Inr actions \<Rightarrow> Inr (Forward (Trade (lv_price l) (lv_qty l) (ct_side t)) # actions)))"

fun trade_actions ::
  "('d, 'z) decimal_ops_scheme \<Rightarrow> 'v coinbase_json \<Rightarrow> string \<Rightarrow> 'v list
     \<Rightarrow> venue_error + 'd sync_action list" where
  "trade_actions D J product [] = Inr []"
| "trade_actions D J product (raw # events) =
     (case cj_trades J raw of
        None \<Rightarrow> Inl Malformed
      | Some event \<Rightarrow>
          (case (if cts_kind event = L2Snapshot then Inr [Ignore]
                 else own_trades D product (cts_trades event)) of
             Inl e \<Rightarrow> Inl e
           | Inr now \<Rightarrow>
               (case trade_actions D J product events of
                  Inl e \<Rightarrow> Inl e
                | Inr actions \<Rightarrow> Inr (now @ actions))))"

definition coinbase_actions ::
  "('d, 'z) decimal_ops_scheme \<Rightarrow> 'v coinbase_json \<Rightarrow> string \<Rightarrow> 'v coinbase_envelope
     \<Rightarrow> venue_error + 'd sync_action list" where
  "coinbase_actions D J product env =
     (if ce_channel env = ''l2_data'' then l2_actions D J product (ce_events env)
      else if ce_channel env = ''heartbeats'' then heartbeat_actions J (ce_events env)
      else if ce_channel env = ''market_trades'' then trade_actions D J product (ce_events env)
      else Inr [Ignore])"

text \<open>\<open>as_deref().and_then(parse_rfc3339)\<close>.\<close>

definition frame_time :: "string option \<Rightarrow> system_time option rust" where
  "frame_time t = (case t of None \<Rightarrow> Returned None | Some raw \<Rightarrow> parse_rfc3339 raw)"

definition coinbase_ingest ::
  "('d, 'z) decimal_ops_scheme \<Rightarrow> 'v coinbase_json \<Rightarrow> raw_frame \<Rightarrow> coinbase_sync
     \<Rightarrow> ((venue_error + 'd ingested) \<times> coinbase_sync) rust" where
  "coinbase_ingest D J frame s =
     (case cj_envelope J (fr_payload frame) of
        None \<Rightarrow> Returned (Inl Malformed, s)
      | Some env \<Rightarrow>
          (case frame_time (ce_timestamp env) of
             Panicked \<Rightarrow> Panicked
           | Returned venue_ts \<Rightarrow>
               (case coinbase_check_seq (ce_sequence_num env) s of
                  (Some reason, s) \<Rightarrow> Returned (Inr (timed_at (untimed [Desync reason]) venue_ts), s)
                | (None, s) \<Rightarrow>
                    (case coinbase_actions D J (cb_product_id s) env of
                       Inl e \<Rightarrow> Returned (Inl e, s)
                     | Inr actions \<Rightarrow> Returned (Inr (timed_at (untimed actions) venue_ts), s)))))"

definition coinbase_ops ::
  "('d, 'z) decimal_ops_scheme \<Rightarrow> 'v coinbase_json \<Rightarrow> ('d, coinbase_sync) venue_ops" where
  "coinbase_ops D J = \<lparr> vs_venue = Coinbase, vs_integrity = GapDetectable, vs_recovery = Resubscribe,
     vs_ingest = coinbase_ingest D J, vs_checksum = default_checksum,
     vs_reset = (\<lambda>s. s\<lparr> cb_expected_seq := None \<rparr>),
     vs_parse_rest = (\<lambda>_. coinbase_parse_rest D J), vs_apply_rest = default_apply_rest \<rparr>"

lemma coinbase_ops_simps [simp]:
  "vs_venue (coinbase_ops D J) = Coinbase" "vs_integrity (coinbase_ops D J) = GapDetectable"
  "vs_recovery (coinbase_ops D J) = Resubscribe" "vs_ingest (coinbase_ops D J) = coinbase_ingest D J"
  "vs_checksum (coinbase_ops D J) = default_checksum" "vs_apply_rest (coinbase_ops D J) = default_apply_rest"
  "vs_reset (coinbase_ops D J) s = s\<lparr> cb_expected_seq := None \<rparr>"
  by (simp_all add: coinbase_ops_def)

section \<open>The contract\<close>

lemma try_map_all: "try_map f xs = Inr ys \<Longrightarrow> y \<in> set ys \<Longrightarrow> \<exists>x. f x = Inr y"
  by (induction xs arbitrary: ys) (auto split: sum.splits)

lemma l2_actions_ok: "l2_actions D J product events = Inr actions \<Longrightarrow> a \<in> set actions
    \<Longrightarrow> \<exists>bids asks. a = DoSnapshot bids asks \<or> a = DoDelta bids asks"
  by (induction D J product events arbitrary: actions rule: l2_actions.induct)
    (auto split: option.splits if_splits sum.splits l2_kind.splits)

lemma own_trades_ok: "own_trades D product ts = Inr actions \<Longrightarrow> a \<in> set actions
    \<Longrightarrow> \<exists>p q s. a = Forward (Trade p q s)"
  by (induction D product ts arbitrary: actions rule: own_trades.induct)
    (auto split: if_splits sum.splits)

lemma trade_actions_ok: "trade_actions D J product events = Inr actions \<Longrightarrow> a \<in> set actions
    \<Longrightarrow> a = Ignore \<or> (\<exists>p q s. a = Forward (Trade p q s))"
proof (induction D J product events arbitrary: actions rule: trade_actions.induct)
  case (2 D J product raw events)
  then obtain event now rest where event: "cj_trades J raw = Some event"
    and now: "(if cts_kind event = L2Snapshot then Inr [Ignore] else own_trades D product (cts_trades event)) = Inr now"
    and rest: "trade_actions D J product events = Inr rest" and "a \<in> set now \<or> a \<in> set rest"
    by (auto split: option.splits sum.splits)
  then consider "a \<in> set now" | "a \<in> set rest" by blast
  then show ?case
  proof cases
    case 1
    with now show ?thesis using own_trades_ok [of D product "cts_trades event" now a] by (auto split: if_splits)
  next
    case 2
    with "2.IH" [OF event now rest] show ?thesis by blast
  qed
qed simp

lemma heartbeat_actions_ok: "heartbeat_actions J events = Inr actions \<Longrightarrow> a \<in> set actions
    \<Longrightarrow> \<exists>c. a = Forward (Heartbeat c)"
  by (auto simp: heartbeat_actions_def dest!: try_map_all split: option.splits)

lemma coinbase_actions_ok:
  assumes "coinbase_actions D J product env = Inr actions" and "a \<in> set actions"
  shows "action_ok GapDetectable a" and "\<forall>r. a \<noteq> Desync r"
  using assms l2_actions_ok [of D J product "ce_events env" actions a]
    trade_actions_ok [of D J product "ce_events env" actions a]
    heartbeat_actions_ok [of J "ce_events env" actions a]
  by (auto simp: coinbase_actions_def split: if_splits)

interpretation coinbase: venue_sync "coinbase_ops D J"
proof
  fix f s ig s' a
  assume "vs_ingest (coinbase_ops D J) f s = Returned (Inr ig, s')" and "a \<in> set (ig_actions ig)"
  then show "action_ok (vs_integrity (coinbase_ops D J)) a"
    by (auto simp: coinbase_ingest_def coinbase_check_seq_def timed_at_def untimed_def
        split: option.splits rust.splits prod.splits sum.splits if_splits dest: coinbase_actions_ok(1))
qed (auto simp: default_checksum_def default_apply_rest_def)

section \<open>Properties\<close>

text \<open>
  C20. Every message of the connection counts, whatever its channel: one that does not follow its
  predecessor desyncs the book and names both numbers, and one that does never desyncs it. The
  number is consumed in every case, including by a frame whose content cannot be read.
\<close>

theorem coinbase_counts_every_message:
  assumes "cj_envelope J (fr_payload frame) = Some env"
    and "coinbase_ingest D J frame s = Returned (r, s')"
  shows "cb_expected_seq s' = Some (ce_sequence_num env + 1) \<and> cb_product_id s' = cb_product_id s
    \<and> (\<forall>e. cb_expected_seq s = Some e \<longrightarrow> e \<noteq> ce_sequence_num env \<longrightarrow>
        (\<exists>ig. r = Inr ig \<and> ig_actions ig = [Desync (SequenceGap e (ce_sequence_num env))]))
    \<and> (cb_expected_seq s \<in> {None, Some (ce_sequence_num env)} \<longrightarrow>
        (\<forall>ig. r = Inr ig \<longrightarrow> (\<forall>a \<in> set (ig_actions ig). \<forall>why. a \<noteq> Desync why)))"
  using assms
  by (auto simp: coinbase_ingest_def coinbase_check_seq_def timed_at_def untimed_def
      split: option.splits rust.splits prod.splits sum.splits if_splits dest: coinbase_actions_ok(2))

definition seq_only_json :: "unit coinbase_json" where
  "seq_only_json = \<lparr> cj_envelope = (\<lambda>payload. Some \<lparr> ce_channel = ''l2_data'',
       ce_sequence_num = of_nat (length payload), ce_timestamp = None, ce_events = [()] \<rparr>),
     cj_l2 = (\<lambda>_. None), cj_heartbeat = (\<lambda>_. None), cj_trades = (\<lambda>_. None), cj_product_book = (\<lambda>_. None) \<rparr>"

lemma coinbase_counts_every_message_witness:
  "let f = frame_new (StreamId Coinbase ''BTC-USD'') ''aaaaa'' \<lparr> mono_t = 0, wall_t = 0 \<rparr>;
       s = \<lparr> cb_product_id = ''BTC-USD'', cb_expected_seq = Some 4 \<rparr>
   in \<exists>ig s'. coinbase_ingest rat_decimals seq_only_json f s = Returned (Inr ig, s')
      \<and> ig_actions ig = [Desync (SequenceGap 4 5)] \<and> cb_expected_seq s' = Some 6"
proof -
  let ?f = "frame_new (StreamId Coinbase ''BTC-USD'') ''aaaaa'' \<lparr> mono_t = 0, wall_t = 0 \<rparr>"
  let ?s = "\<lparr> cb_product_id = ''BTC-USD'', cb_expected_seq = Some 4 \<rparr>"
  have e: "cj_envelope seq_only_json (fr_payload ?f) = Some \<lparr> ce_channel = ''l2_data'',
       ce_sequence_num = 5, ce_timestamp = None, ce_events = [()] \<rparr>"
    by (simp add: seq_only_json_def frame_new_def)
  obtain r s' where i: "coinbase_ingest rat_decimals seq_only_json ?f ?s = Returned (r, s')"
    by (simp add: coinbase_ingest_def e frame_time_def coinbase_check_seq_def)
  from coinbase_counts_every_message [OF e i] i show ?thesis by auto
qed

end
