(* ===== verification/Kraken_Venue.thy ===== *)
theory Kraken_Venue
  imports Wire
begin

text \<open>
  Kraken (\<open>ma-venues/src/venues/kraken.rs\<close>): no sequence number, and a checksum with every book
  message, over the digits of the top ten levels as the venue sent them. The JSON decoders and
  the CRC are parameters; numbers arrive as their source text.
\<close>

section \<open>Wire structures\<close>

record 'v kraken_envelope =
  ke_channel :: "string option"
  ke_kind :: "string option"
  ke_data :: "'v option"

record kraken_level =
  kl_price :: string
  kl_qty :: string

record kraken_book_data =
  kb_symbol :: string
  kb_bids :: "kraken_level list"
  kb_asks :: "kraken_level list"
  kb_checksum :: "u32 option"
  kb_timestamp :: "string option"

record kraken_trade_data =
  kt_symbol :: string
  kt_price :: string
  kt_qty :: string
  kt_side :: "string option"
  kt_timestamp :: "string option"

record 'v kraken_json =
  kj_envelope :: "string \<Rightarrow> 'v kraken_envelope option"
  kj_book :: "'v \<Rightarrow> kraken_book_data list option"
  kj_trades :: "'v \<Rightarrow> kraken_trade_data list option"

text \<open>\<open>exact_decimal\<close>: the number's text goes to the decimal parser as it is.\<close>

definition exact_decimal :: "('d, 'z) decimal_ops_scheme \<Rightarrow> string \<Rightarrow> 'd option" where
  "exact_decimal D raw = d_from_str D raw"

definition kraken_level_ok :: "('d, 'z) decimal_ops_scheme \<Rightarrow> kraken_level \<Rightarrow> bool" where
  "kraken_level_ok D l \<longleftrightarrow> exact_decimal D (kl_price l) \<noteq> None \<and> exact_decimal D (kl_qty l) \<noteq> None"

text \<open>The typed parse of \<open>data\<close> fails as a whole when one of its numbers does.\<close>

definition kraken_book_entries ::
  "('d, 'z) decimal_ops_scheme \<Rightarrow> 'v kraken_json \<Rightarrow> 'v \<Rightarrow> kraken_book_data list option" where
  "kraken_book_entries D J raw = Option.bind (kj_book J raw) (\<lambda>entries.
     if list_all (\<lambda>e. list_all (kraken_level_ok D) (kb_bids e) \<and> list_all (kraken_level_ok D) (kb_asks e)) entries
     then Some entries else None)"

definition kraken_trade_entries ::
  "('d, 'z) decimal_ops_scheme \<Rightarrow> 'v kraken_json \<Rightarrow> 'v \<Rightarrow> kraken_trade_data list option" where
  "kraken_trade_entries D J raw = Option.bind (kj_trades J raw) (\<lambda>entries.
     if list_all (\<lambda>e. exact_decimal D (kt_price e) \<noteq> None \<and> exact_decimal D (kt_qty e) \<noteq> None) entries
     then Some entries else None)"

definition kraken_to_levels ::
  "('d, 'z) decimal_ops_scheme \<Rightarrow> kraken_level list \<Rightarrow> venue_error + 'd level list" where
  "kraken_to_levels D wire = try_map (\<lambda>w.
     case qty_from_decimal D (the (exact_decimal D (kl_qty w))) of
       Inl _ \<Rightarrow> Inl Malformed
     | Inr qty \<Rightarrow> Inr (level_of (the (exact_decimal D (kl_price w))) qty)) wire"

section \<open>The checksum\<close>

definition push_digits :: "string \<Rightarrow> string \<Rightarrow> string" where
  "push_digits buf rendered =
     (let no_point = filter (\<lambda>c. c \<noteq> CHR ''.'') rendered;
          trimmed = dropWhile (\<lambda>c. c = CHR ''0'') no_point
      in buf @ (if trimmed = [] then ''0'' else trimmed))"

definition push_levels :: "('d, 'z) decimal_ops_scheme \<Rightarrow> string \<Rightarrow> 'd level list \<Rightarrow> string" where
  "push_levels D buf levels = foldl (\<lambda>buf l.
     push_digits (push_digits buf (d_to_string D (lv_price l))) (d_to_string D (lv_qty l))) buf levels"

definition kraken_checksum ::
  "('d, 'z) decimal_ops_scheme \<Rightarrow> (string \<Rightarrow> u32) \<Rightarrow> 'd book \<Rightarrow> u32" where
  "kraken_checksum D crc b =
     crc (push_levels D (push_levels D [] (top_levels b Ask 10)) (top_levels b Bid 10))"

section \<open>The state machine\<close>

record kraken_sync = kr_symbol :: string

definition kraken_new :: "string \<Rightarrow> kraken_sync" where
  "kraken_new symbol = \<lparr> kr_symbol = symbol \<rparr>"

definition later_time :: "string option \<Rightarrow> system_time option \<Rightarrow> system_time option rust" where
  "later_time t before = (case t of
      None \<Rightarrow> Returned before
    | Some raw \<Rightarrow> (case parse_rfc3339 raw of Panicked \<Rightarrow> Panicked | Returned v \<Rightarrow> Returned (opt_or v before)))"

fun kraken_book_loop ::
  "('d, 'z) decimal_ops_scheme \<Rightarrow> string \<Rightarrow> string \<Rightarrow> system_time option \<Rightarrow> kraken_book_data list
     \<Rightarrow> (venue_error + ('d sync_action list \<times> system_time option)) rust" where
  "kraken_book_loop D symbol kind venue_ts [] = Returned (Inr ([], venue_ts))"
| "kraken_book_loop D symbol kind venue_ts (e # es) =
     (if kb_symbol e \<noteq> symbol then kraken_book_loop D symbol kind venue_ts es
      else case later_time (kb_timestamp e) venue_ts of
        Panicked \<Rightarrow> Panicked
      | Returned venue_ts \<Rightarrow>
          (case (kraken_to_levels D (kb_bids e), kraken_to_levels D (kb_asks e)) of
             (Inr bids, Inr asks) \<Rightarrow>
               (if kind \<noteq> ''snapshot'' \<and> kind \<noteq> ''update'' then Returned (Inl Malformed)
                else case kraken_book_loop D symbol kind venue_ts es of
                  Panicked \<Rightarrow> Panicked
                | Returned (Inl err) \<Rightarrow> Returned (Inl err)
                | Returned (Inr (actions, ts)) \<Rightarrow>
                    Returned (Inr ((if kind = ''snapshot'' then DoSnapshot bids asks else DoDelta bids asks)
                      # (case kb_checksum e of None \<Rightarrow> [] | Some c \<Rightarrow> [Verify c]) @ actions, ts)))
           | _ \<Rightarrow> Returned (Inl Malformed)))"

fun kraken_trade_loop ::
  "('d, 'z) decimal_ops_scheme \<Rightarrow> string \<Rightarrow> system_time option \<Rightarrow> kraken_trade_data list
     \<Rightarrow> (venue_error + ('d sync_action list \<times> system_time option)) rust" where
  "kraken_trade_loop D symbol venue_ts [] = Returned (Inr ([], venue_ts))"
| "kraken_trade_loop D symbol venue_ts (e # es) =
     (if kt_symbol e \<noteq> symbol then kraken_trade_loop D symbol venue_ts es
      else case later_time (kt_timestamp e) venue_ts of
        Panicked \<Rightarrow> Panicked
      | Returned venue_ts \<Rightarrow>
          (case qty_from_decimal D (the (exact_decimal D (kt_qty e))) of
             Inl _ \<Rightarrow> Returned (Inl Malformed)
           | Inr qty \<Rightarrow>
               (case kraken_trade_loop D symbol venue_ts es of
                  Panicked \<Rightarrow> Panicked
                | Returned (Inl err) \<Rightarrow> Returned (Inl err)
                | Returned (Inr (actions, ts)) \<Rightarrow>
                    Returned (Inr (Forward (Trade (the (exact_decimal D (kt_price e))) qty
                      (if kt_side e = Some ''buy'' then Some Bid
                       else if kt_side e = Some ''sell'' then Some Ask else None)) # actions, ts)))))"

definition finish_loop ::
  "(venue_error + ('d sync_action list \<times> system_time option)) rust \<Rightarrow> (venue_error + 'd ingested) rust" where
  "finish_loop r = (case r of
      Panicked \<Rightarrow> Panicked
    | Returned (Inl e) \<Rightarrow> Returned (Inl e)
    | Returned (Inr (actions, venue_ts)) \<Rightarrow> Returned (Inr (timed_at (untimed actions) venue_ts)))"

definition kraken_frame ::
  "('d, 'z) decimal_ops_scheme \<Rightarrow> 'v kraken_json \<Rightarrow> string \<Rightarrow> 'v kraken_envelope
     \<Rightarrow> (venue_error + 'd ingested) rust" where
  "kraken_frame D J symbol env =
     (case ke_channel env of
        None \<Rightarrow> Returned (Inr ignored)
      | Some channel \<Rightarrow>
          if channel = ''book'' then
            (case ke_kind env of
               None \<Rightarrow> Returned (Inl Malformed)
             | Some kind \<Rightarrow>
                 (case ke_data env of
                    None \<Rightarrow> Returned (Inl Malformed)
                  | Some raw \<Rightarrow>
                      (case kraken_book_entries D J raw of
                         None \<Rightarrow> Returned (Inl Malformed)
                       | Some entries \<Rightarrow> finish_loop (kraken_book_loop D symbol kind None entries))))
          else if channel = ''trade'' then
            (case ke_kind env of
               None \<Rightarrow> Returned (Inl Malformed)
             | Some kind \<Rightarrow>
                 if kind = ''snapshot'' then Returned (Inr (untimed [Ignore]))
                 else (case ke_data env of
                         None \<Rightarrow> Returned (Inl Malformed)
                       | Some raw \<Rightarrow>
                           (case kraken_trade_entries D J raw of
                              None \<Rightarrow> Returned (Inl Malformed)
                            | Some entries \<Rightarrow> finish_loop (kraken_trade_loop D symbol None entries))))
          else if channel = ''heartbeat'' then Returned (Inr (untimed [Forward (Heartbeat None)]))
          else Returned (Inr ignored))"

definition kraken_ingest ::
  "('d, 'z) decimal_ops_scheme \<Rightarrow> 'v kraken_json \<Rightarrow> raw_frame \<Rightarrow> kraken_sync
     \<Rightarrow> ((venue_error + 'd ingested) \<times> kraken_sync) rust" where
  "kraken_ingest D J frame s =
     (case kj_envelope J (fr_payload frame) of
        None \<Rightarrow> Returned (Inl Malformed, s)
      | Some env \<Rightarrow>
          (case kraken_frame D J (kr_symbol s) env of
             Panicked \<Rightarrow> Panicked
           | Returned r \<Rightarrow> Returned (r, s)))"

definition kraken_ops ::
  "('d, 'z) decimal_ops_scheme \<Rightarrow> (string \<Rightarrow> u32) \<Rightarrow> 'v kraken_json \<Rightarrow> ('d, kraken_sync) venue_ops" where
  "kraken_ops D crc J = \<lparr> vs_venue = Kraken, vs_integrity = Verified, vs_recovery = Resubscribe,
     vs_ingest = kraken_ingest D J, vs_checksum = (\<lambda>_ b. Some (kraken_checksum D crc b)),
     vs_reset = (\<lambda>s. s), vs_parse_rest = default_parse_rest Kraken, vs_apply_rest = default_apply_rest \<rparr>"

lemma kraken_ops_simps [simp]:
  "vs_venue (kraken_ops D crc J) = Kraken" "vs_integrity (kraken_ops D crc J) = Verified"
  "vs_recovery (kraken_ops D crc J) = Resubscribe" "vs_ingest (kraken_ops D crc J) = kraken_ingest D J"
  "vs_checksum (kraken_ops D crc J) s b = Some (kraken_checksum D crc b)"
  "vs_apply_rest (kraken_ops D crc J) = default_apply_rest"
  by (simp_all add: kraken_ops_def)

section \<open>The contract\<close>

lemma kraken_book_loop_ok:
  assumes "kraken_book_loop D symbol kind ts entries = Returned (Inr (actions, ts'))" and "a \<in> set actions"
  shows "(\<exists>bids asks. a = DoSnapshot bids asks \<or> a = DoDelta bids asks) \<or> (\<exists>c. a = Verify c)"
  using assms
  by (induction D symbol kind ts entries arbitrary: actions ts' rule: kraken_book_loop.induct)
    (auto split: if_splits rust.splits sum.splits option.splits prod.splits)

lemma kraken_trade_loop_ok:
  assumes "kraken_trade_loop D symbol ts entries = Returned (Inr (actions, ts'))" and "a \<in> set actions"
  shows "\<exists>p q s. a = Forward (Trade p q s)"
  using assms
  by (induction D symbol ts entries arbitrary: actions ts' rule: kraken_trade_loop.induct)
    (auto split: if_splits rust.splits sum.splits option.splits prod.splits)

lemma finish_loop_Inr: "finish_loop r = Returned (Inr ig) \<Longrightarrow>
    \<exists>ts. r = Returned (Inr (ig_actions ig, ts))"
  by (auto simp: finish_loop_def timed_at_def untimed_def split: rust.splits sum.splits prod.splits)

text \<open>What a readable frame asks for.\<close>

lemma kraken_frame_cases:
  assumes "kraken_frame D J symbol env = Returned (Inr ig)"
  obtains (quiet) "\<forall>a \<in> set (ig_actions ig). a = Ignore \<or> (\<exists>k. a = Forward k \<and> passes_through k)"
    | (book) kind entries ts where "kraken_book_loop D symbol kind None entries = Returned (Inr (ig_actions ig, ts))"
proof (cases "ke_channel env = Some ''book''")
  case True
  with assms show thesis
    by (auto simp: kraken_frame_def dest!: finish_loop_Inr split: option.splits intro: book)
next
  case False
  have "\<forall>a \<in> set (ig_actions ig). a = Ignore \<or> (\<exists>k. a = Forward k \<and> passes_through k)"
    using assms False
    by (auto simp: kraken_frame_def ignored_def untimed_def dest!: finish_loop_Inr
        split: option.splits if_splits) (use kraken_trade_loop_ok in fastforce)
  then show thesis by (rule quiet)
qed

lemma kraken_frame_ok:
  assumes "kraken_frame D J symbol env = Returned (Inr ig)" and "a \<in> set (ig_actions ig)"
  shows "action_ok Verified a" and "replays a"
proof -
  have "action_ok Verified a \<and> replays a"
    using assms(1)
  proof (cases rule: kraken_frame_cases)
    case quiet
    with assms(2) have "a = Ignore \<or> (\<exists>k. a = Forward k \<and> passes_through k)" by blast
    then show ?thesis by (auto simp: replays_def)
  next
    case book
    from kraken_book_loop_ok [OF this assms(2)] show ?thesis by (auto simp: replays_def)
  qed
  then show "action_ok Verified a" "replays a" by blast+
qed

interpretation kraken: venue_sync "kraken_ops D crc J"
proof
  fix f s ig s' a
  assume "vs_ingest (kraken_ops D crc J) f s = Returned (Inr ig, s')" and "a \<in> set (ig_actions ig)"
  then show "action_ok (vs_integrity (kraken_ops D crc J)) a"
    by (auto simp: kraken_ingest_def split: option.splits rust.splits dest: kraken_frame_ok(1))
qed (auto simp: default_apply_rest_def)

section \<open>Properties\<close>

lemma kraken_checksum_verified [simp]:
  "kraken_checksum D crc (mark_verified b now) = kraken_checksum D crc b"
  by (simp add: kraken_checksum_def top_levels_def mark_verified_def split: book_state.splits integrity.splits)


definition one_message_json :: "unit kraken_json" where
  "one_message_json = \<lparr> kj_envelope = (\<lambda>_. Some \<lparr> ke_channel = Some ''book'', ke_kind = Some ''update'', ke_data = Some () \<rparr>),
     kj_book = (\<lambda>_. Some [\<lparr> kb_symbol = ''BTC/USD'', kb_bids = [], kb_asks = [], kb_checksum = Some 7, kb_timestamp = None \<rparr>]),
     kj_trades = (\<lambda>_. None) \<rparr>"

definition kraken_sample :: "(rat, kraken_sync) venue_book" where
  "kraken_sample = \<lparr> vb_sync = kraken_new ''BTC/USD'',
     vb_book = (new_book Kraken ''BTC-USD'')\<lparr> bk_state := Live Verified (sample_time 0) None \<rparr>,
     vb_audit_policy = audit_policy_default, vb_audit_trail = audit_trail_new \<rparr>"

abbreviation sample_kraken :: "(rat, kraken_sync) venue_ops" where
  "sample_kraken \<equiv> kraken_ops rat_decimals (\<lambda>_. 7) one_message_json"

definition sample_kraken_frame :: raw_frame where
  "sample_kraken_frame = frame_new (StreamId Kraken ''BTC-USD'') [] (sample_time 0)"

abbreviation sample_kraken_envelope :: "unit kraken_envelope" where
  "sample_kraken_envelope \<equiv>
     \<lparr> ke_channel = Some ''book'', ke_kind = Some ''update'', ke_data = Some () \<rparr>"

lemma sample_kraken_reads:
  "kj_envelope one_message_json (fr_payload sample_kraken_frame) = Some sample_kraken_envelope"
  "kraken_frame rat_decimals one_message_json (kr_symbol (vb_sync kraken_sample)) sample_kraken_envelope
     = Returned (Inr (timed_at (untimed ([DoDelta [] []] @ [Verify 7])) None))"
  "fr_source sample_kraken_frame = WebSocket"
  by (simp_all add: kraken_frame_def kraken_book_entries_def one_message_json_def kraken_sample_def kraken_new_def
      later_time_def kraken_to_levels_def finish_loop_def sample_kraken_frame_def frame_new_def)

lemma sample_kraken_feeds:
  "\<exists>outs vb'. feed rat_decimals sample_kraken kraken_sample sample_kraken_frame = Returned (Inr outs, vb')
    \<and> is_live (bk_state (vb_book vb'))"
  using sample_kraken_reads
  by (simp add: feed_def kraken_ingest_def apply_ingested_def timed_at_def untimed_def Let_def)
    (simp add: kraken_sample_def apply_delta_def apply_levels_def prune_def new_book_def guard_crossed_def verify_def
      kraken_checksum_def mark_verified_def best.simps)


end
