(* ===== verification/Bitstamp_Venue.thy ===== *)
theory Bitstamp_Venue
  imports Wire
begin

text \<open>
  Bitstamp (\<open>ma-venues/src/venues/bitstamp.rs\<close>): no snapshot on the stream, so diffs are
  buffered until a REST snapshot arrives and are then spliced onto it; the only ordering is a
  timestamp. The JSON decoders (\<open>serde_json\<close>) are parameters.
\<close>

section \<open>Wire structures\<close>

record 'v bitstamp_envelope =
  be_event :: string
  be_channel :: string
  be_data :: 'v

record diff_data =
  df_microtimestamp :: string
  df_bids :: "(string \<times> string) list"
  df_asks :: "(string \<times> string) list"

record trade_data =
  td_microtimestamp :: string
  td_price_str :: string
  td_amount_str :: string
  td_direction :: "int option"

record rest_order_book =
  ro_microtimestamp :: string
  ro_bids :: "(string \<times> string) list"
  ro_asks :: "(string \<times> string) list"

record 'v bitstamp_json =
  bj_envelope :: "string \<Rightarrow> 'v bitstamp_envelope option"
  bj_diff :: "'v \<Rightarrow> diff_data option"
  bj_trade :: "'v \<Rightarrow> trade_data option"
  bj_rest :: "string \<Rightarrow> rest_order_book option"

definition parse_micros :: "string \<Rightarrow> venue_error + u64" where
  "parse_micros raw = (case parse_unsigned (2 ^ 64 - 1) raw of
     None \<Rightarrow> Inl Malformed | Some n \<Rightarrow> Inr (of_nat n))"

definition bitstamp_parse_rest ::
  "('d, 'z) decimal_ops_scheme \<Rightarrow> 'v bitstamp_json \<Rightarrow> string \<Rightarrow> venue_error + 'd rest_snapshot" where
  "bitstamp_parse_rest D J body =
     (case bj_rest J body of
        None \<Rightarrow> Inl Malformed
      | Some parsed \<Rightarrow>
          (case parse_micros (ro_microtimestamp parsed) of
             Inl e \<Rightarrow> Inl e
           | Inr as_of \<Rightarrow>
               (case levels_from_str_pairs D (ro_bids parsed) of
                  Inl e \<Rightarrow> Inl e
                | Inr bids \<Rightarrow>
                    (case levels_from_str_pairs D (ro_asks parsed) of
                       Inl e \<Rightarrow> Inl e
                     | Inr asks \<Rightarrow> Inr \<lparr> rs_bids = bids, rs_asks = asks, rs_as_of = as_of \<rparr>))))"

section \<open>The state machine\<close>

record 'd pending_diff =
  pd_micros :: u64
  pd_bids :: "'d level list"
  pd_asks :: "'d level list"

datatype 'd bitstamp_mode =
    Awaiting "'d pending_diff list"
  | LiveAt u64 u64   \<comment> \<open>the last timestamp applied, and the snapshot's\<close>

record 'd bitstamp_sync =
  bs_channel :: string
  bs_trades_channel :: string
  bs_mode :: "'d bitstamp_mode"

definition bitstamp_new :: "string \<Rightarrow> 'd bitstamp_sync" where
  "bitstamp_new pair = \<lparr> bs_channel = ''diff_order_book_'' @ pair,
     bs_trades_channel = ''live_trades_'' @ pair, bs_mode = Awaiting [] \<rparr>"

definition bitstamp_reset :: "'d bitstamp_sync \<Rightarrow> 'd bitstamp_sync" where
  "bitstamp_reset s = s\<lparr> bs_mode := Awaiting [] \<rparr>"

text \<open>\<open>check_order\<close> mutates the last timestamp it is handed.\<close>

definition check_order :: "u64 \<Rightarrow> u64 \<Rightarrow> 'd desync_reason option \<times> u64" where
  "check_order last_micros micros =
     (if micros \<le> last_micros then (Some (TimestampRegression last_micros micros), last_micros)
      else (None, micros))"

definition bitstamp_trade ::
  "('d, 'z) decimal_ops_scheme \<Rightarrow> 'v bitstamp_json \<Rightarrow> 'd bitstamp_sync \<Rightarrow> 'v bitstamp_envelope
     \<Rightarrow> venue_error + 'd ingested" where
  "bitstamp_trade D J s env =
     (if be_channel env \<noteq> bs_trades_channel s then Inl Malformed
      else case bj_trade J (be_data env) of
             None \<Rightarrow> Inl Malformed
           | Some data \<Rightarrow>
               (case parse_micros (td_microtimestamp data) of
                  Inl e \<Rightarrow> Inl e
                | Inr micros \<Rightarrow>
                    (case level_from_str_pair D (td_price_str data) (td_amount_str data) of
                       Inl e \<Rightarrow> Inl e
                     | Inr level \<Rightarrow>
                         Inr (timed_at (untimed [Forward (Trade (lv_price level) (lv_qty level)
                           (if td_direction data = Some 0 then Some Bid
                            else if td_direction data = Some 1 then Some Ask else None))])
                           (Some (system_time_from_micros micros))))))"

text \<open>The content of a diff frame.\<close>

definition bitstamp_diff ::
  "('d, 'z) decimal_ops_scheme \<Rightarrow> 'v bitstamp_json \<Rightarrow> 'd bitstamp_sync \<Rightarrow> 'v bitstamp_envelope
     \<Rightarrow> venue_error + 'd pending_diff" where
  "bitstamp_diff D J s env =
     (if be_channel env \<noteq> bs_channel s then Inl Malformed
      else case bj_diff J (be_data env) of
             None \<Rightarrow> Inl Malformed
           | Some data \<Rightarrow>
               (case parse_micros (df_microtimestamp data) of
                  Inl e \<Rightarrow> Inl e
                | Inr micros \<Rightarrow>
                    (case levels_from_str_pairs D (df_bids data) of
                       Inl e \<Rightarrow> Inl e
                     | Inr bids \<Rightarrow>
                         (case levels_from_str_pairs D (df_asks data) of
                            Inl e \<Rightarrow> Inl e
                          | Inr asks \<Rightarrow> Inr \<lparr> pd_micros = micros, pd_bids = bids, pd_asks = asks \<rparr>))))"

text \<open>What a diff means in each mode: the \<open>match\<close> over \<open>self.mode\<close>.\<close>

fun diff_step :: "'d pending_diff \<Rightarrow> 'd bitstamp_mode \<Rightarrow> 'd sync_action \<times> 'd bitstamp_mode" where
  "diff_step d (Awaiting pending) =
     (if pending = [] then Desync AwaitingSnapshot else Ignore, Awaiting (pending @ [d]))"
| "diff_step d (LiveAt last_micros spliced_at) =
     (if pd_micros d \<le> spliced_at then (Ignore, LiveAt last_micros spliced_at)
      else case check_order last_micros (pd_micros d) of
             (Some reason, last_micros) \<Rightarrow> (Desync reason, LiveAt last_micros spliced_at)
           | (None, last_micros) \<Rightarrow> (DoDelta (pd_bids d) (pd_asks d), LiveAt last_micros spliced_at))"

definition bitstamp_ingest ::
  "('d, 'z) decimal_ops_scheme \<Rightarrow> 'v bitstamp_json \<Rightarrow> raw_frame \<Rightarrow> 'd bitstamp_sync
     \<Rightarrow> ((venue_error + 'd ingested) \<times> 'd bitstamp_sync) rust" where
  "bitstamp_ingest D J frame s =
     Returned (case bj_envelope J (fr_payload frame) of
        None \<Rightarrow> (Inl Malformed, s)
      | Some env \<Rightarrow>
          if be_event env = ''trade'' then (bitstamp_trade D J s env, s)
          else if be_event env \<noteq> ''data'' then (Inr ignored, s)
          else case bitstamp_diff D J s env of
                 Inl e \<Rightarrow> (Inl e, s)
               | Inr d \<Rightarrow>
                   (case diff_step d (bs_mode s) of
                      (action, mode) \<Rightarrow>
                        (Inr (timed_at (untimed [action]) (Some (system_time_from_micros (pd_micros d)))),
                         s\<lparr> bs_mode := mode \<rparr>)))"

text \<open>The loop over the survivors of the buffer.\<close>

fun splice :: "u64 \<Rightarrow> 'd pending_diff list \<Rightarrow> 'd sync_action list \<times> u64" where
  "splice last_micros [] = ([], last_micros)"
| "splice last_micros (d # ds) =
     (case check_order last_micros (pd_micros d) of
        (verdict, last_micros) \<Rightarrow>
          (case splice last_micros ds of
             (actions, last_micros) \<Rightarrow>
               ((case verdict of Some reason \<Rightarrow> Desync reason
                 | None \<Rightarrow> DoDelta (pd_bids d) (pd_asks d)) # actions, last_micros)))"

definition bitstamp_apply_rest ::
  "'d rest_snapshot \<Rightarrow> 'd bitstamp_sync \<Rightarrow> 'd sync_action list \<times> 'd bitstamp_sync" where
  "bitstamp_apply_rest snapshot s =
     (let pending = (case bs_mode s of Awaiting pending \<Rightarrow> pending | LiveAt _ _ \<Rightarrow> []);
          surviving = sort_key pd_micros (filter (\<lambda>d. rs_as_of snapshot < pd_micros d) pending);
          (actions, last_micros) = splice (rs_as_of snapshot) surviving
      in (DoSnapshot (rs_bids snapshot) (rs_asks snapshot) # actions,
          s\<lparr> bs_mode := LiveAt last_micros (rs_as_of snapshot) \<rparr>))"

definition bitstamp_ops ::
  "('d, 'z) decimal_ops_scheme \<Rightarrow> 'v bitstamp_json \<Rightarrow> ('d, 'd bitstamp_sync) venue_ops" where
  "bitstamp_ops D J = \<lparr> vs_venue = Bitstamp, vs_integrity = OrderOnly, vs_recovery = ByRestSnapshot,
     vs_ingest = bitstamp_ingest D J, vs_checksum = default_checksum, vs_reset = bitstamp_reset,
     vs_parse_rest = (\<lambda>_. bitstamp_parse_rest D J), vs_apply_rest = bitstamp_apply_rest \<rparr>"

lemma bitstamp_ops_simps [simp]:
  "vs_venue (bitstamp_ops D J) = Bitstamp" "vs_integrity (bitstamp_ops D J) = OrderOnly"
  "vs_recovery (bitstamp_ops D J) = ByRestSnapshot" "vs_ingest (bitstamp_ops D J) = bitstamp_ingest D J"
  "vs_checksum (bitstamp_ops D J) = default_checksum" "vs_apply_rest (bitstamp_ops D J) = bitstamp_apply_rest"
  "vs_reset (bitstamp_ops D J) = bitstamp_reset"
  by (simp_all add: bitstamp_ops_def)

section \<open>The contract\<close>

lemma diff_step_ok: "diff_step d m = (a, m') \<Longrightarrow> action_ok OrderOnly a"
  by (cases m) (auto simp: check_order_def split: if_splits)

lemma splice_ok: "splice l ds = (actions, l') \<Longrightarrow> a \<in> set actions \<Longrightarrow> action_ok OrderOnly a"
  by (induction l ds arbitrary: actions l' rule: splice.induct)
    (auto simp: check_order_def split: if_splits prod.splits)

interpretation bitstamp: venue_sync "bitstamp_ops D J"
proof
  fix f s ig s' a
  assume "vs_ingest (bitstamp_ops D J) f s = Returned (Inr ig, s')" and "a \<in> set (ig_actions ig)"
  then show "action_ok (vs_integrity (bitstamp_ops D J)) a"
    by (auto simp: bitstamp_ingest_def bitstamp_trade_def ignored_def timed_at_def untimed_def
        split: option.splits if_splits prod.splits sum.splits dest: diff_step_ok)
next
  fix sn s actions s' a
  assume "vs_apply_rest (bitstamp_ops D J) sn s = (actions, s')" and "a \<in> set actions"
  then show "action_ok (vs_integrity (bitstamp_ops D J)) a"
    by (auto simp: bitstamp_apply_rest_def Let_def split: prod.splits dest: splice_ok)
qed (auto simp: default_checksum_def)

section \<open>Splicing the buffer\<close>

abbreviation delta_of :: "'d pending_diff \<Rightarrow> 'd sync_action" where
  "delta_of d \<equiv> DoDelta (pd_bids d) (pd_asks d)"

lemma filter_no_desync [simp]: "filter (\<lambda>a. \<not> desyncs a) (map delta_of ds) = map delta_of ds"
  by (induction ds) simp_all

lemma splice_applies:
  assumes "sorted (map pd_micros ds)" and "\<forall>d \<in> set ds. l \<le> pd_micros d" and "splice l ds = (actions, l')"
  shows "\<exists>applied. filter (\<lambda>a. \<not> desyncs a) actions = map delta_of applied
    \<and> sorted_wrt (<) (l # map pd_micros applied) \<and> set applied \<subseteq> set ds
    \<and> pd_micros ` set applied = pd_micros ` set ds - {l}
    \<and> l' = last (l # map pd_micros applied) \<and> length actions = length ds"
  using assms
proof (induction ds arbitrary: l actions)
  case Nil
  then show ?case by (intro exI [of _ "[]"]) simp
next
  case (Cons d ds)
  show ?case
  proof (cases "pd_micros d = l")
    case True
    then obtain rest where rest: "splice l ds = (rest, l')"
      and actions: "actions = Desync (TimestampRegression l l) # rest"
      using Cons.prems(3) by (auto simp: check_order_def split: prod.splits)
    have srt: "sorted (map pd_micros ds)" "\<forall>x \<in> set ds. l \<le> pd_micros x" using Cons.prems(1,2) by auto
    from Cons.IH [OF srt rest] obtain applied where
      "filter (\<lambda>a. \<not> desyncs a) rest = map delta_of applied" "sorted_wrt (<) (l # map pd_micros applied)"
      "set applied \<subseteq> set ds" "pd_micros ` set applied = pd_micros ` set ds - {l}"
      "l' = last (l # map pd_micros applied)" "length rest = length ds" by blast
    with actions True show ?thesis by (intro exI [of _ applied]) auto
  next
    case False
    with Cons.prems(2) have less: "l < pd_micros d" by (auto simp: order.strict_iff_order)
    then have "\<not> pd_micros d \<le> l" by simp
    then obtain rest where rest: "splice (pd_micros d) ds = (rest, l')" and actions: "actions = delta_of d # rest"
      using Cons.prems(3) by (auto simp: check_order_def split: prod.splits)
    have ge: "\<forall>x \<in> set ds. pd_micros d \<le> pd_micros x" and srt: "sorted (map pd_micros ds)"
      using Cons.prems(1) by auto
    from Cons.IH [OF srt ge rest] obtain applied where ap:
      "filter (\<lambda>a. \<not> desyncs a) rest = map delta_of applied" "sorted_wrt (<) (pd_micros d # map pd_micros applied)"
      "set applied \<subseteq> set ds" "pd_micros ` set applied = pd_micros ` set ds - {pd_micros d}"
      "l' = last (pd_micros d # map pd_micros applied)" "length rest = length ds" by blast
    show ?thesis
    proof (intro exI [of _ "d # applied"] conjI)
      show "pd_micros ` set (d # applied) = pd_micros ` set (d # ds) - {l}"
        using ap(4) False ge less by auto
      show "sorted_wrt (<) (l # map pd_micros (d # applied))"
        using ap(2) less by (auto intro: less_trans)
      show "set (d # applied) \<subseteq> set (d # ds)" using ap(3) by auto
    qed (simp_all add: actions ap(1,5,6))
  qed
qed

lemma splice_in_order:
  assumes "sorted_wrt (<) (l # map pd_micros ds)"
  shows "splice l ds = (map delta_of ds, last (l # map pd_micros ds))"
  using assms by (induction ds arbitrary: l) (auto simp: check_order_def)

text \<open>
  C22. A REST snapshot that ends the wait for one is put first, and of the buffered diffs exactly
  those newer than it follow, in the order of their timestamps whatever the order they came in,
  each timestamp once: a second diff with the same timestamp becomes a desync, never a silent
  loss. The book then continues from the newest timestamp applied.
\<close>

theorem bitstamp_splices_survivors:
  assumes "bs_mode s = Awaiting pending" and "bitstamp_apply_rest snapshot s = (actions, s')"
  shows "\<exists>applied. filter (\<lambda>a. \<not> desyncs a) actions
        = DoSnapshot (rs_bids snapshot) (rs_asks snapshot) # map delta_of applied
    \<and> sorted_wrt (<) (map pd_micros applied) \<and> set applied \<subseteq> set pending
    \<and> set (map pd_micros applied) = {m \<in> pd_micros ` set pending. rs_as_of snapshot < m}
    \<and> bs_mode s' = LiveAt (last (rs_as_of snapshot # map pd_micros applied)) (rs_as_of snapshot)
    \<and> length actions = 1 + length (filter (\<lambda>d. rs_as_of snapshot < pd_micros d) pending)"
proof -
  let ?as_of = "rs_as_of snapshot"
  let ?s = "sort_key pd_micros (filter (\<lambda>d. ?as_of < pd_micros d) pending)"
  obtain rest l' where sp: "splice ?as_of ?s = (rest, l')" by (cases "splice ?as_of ?s")
  then have out: "actions = DoSnapshot (rs_bids snapshot) (rs_asks snapshot) # rest"
    "bs_mode s' = LiveAt l' ?as_of"
    using assms by (auto simp: bitstamp_apply_rest_def Let_def)
  have "sorted (map pd_micros ?s)" and "\<forall>d \<in> set ?s. ?as_of \<le> pd_micros d" by auto
  from splice_applies [OF this sp] obtain applied where
    ap: "filter (\<lambda>a. \<not> desyncs a) rest = map delta_of applied"
      "sorted_wrt (<) (?as_of # map pd_micros applied)" "set applied \<subseteq> set ?s"
      "pd_micros ` set applied = pd_micros ` set ?s - {?as_of}"
      "l' = last (?as_of # map pd_micros applied)" "length rest = length ?s" by blast
  have "set (map pd_micros applied) = {m \<in> pd_micros ` set pending. ?as_of < m}" using ap(4) by auto
  moreover have "set applied \<subseteq> set pending" using ap(3) by auto
  moreover have "sorted_wrt (<) (map pd_micros applied)" using ap(2) by simp
  moreover have "length rest = length (filter (\<lambda>d. ?as_of < pd_micros d) pending)" using ap(6) by simp
  ultimately show ?thesis using ap(1,5) out by (intro exI [of _ applied]) simp
qed

lemma bitstamp_splices_survivors_witness:
  "let d = (\<lambda>m. \<lparr> pd_micros = m, pd_bids = [], pd_asks = [] \<rparr>);
       s = (bitstamp_new ''btcusd'')\<lparr> bs_mode := Awaiting (map d [7, 3, 5, 5]) \<rparr>;
       (actions, s') = bitstamp_apply_rest (\<lparr> rs_bids = [], rs_asks = [], rs_as_of = 4 \<rparr> :: rat rest_snapshot) s
   in length actions = 4 \<and> (\<exists>applied. filter (\<lambda>a. \<not> desyncs a) actions = DoSnapshot [] [] # map delta_of applied
        \<and> set (map pd_micros applied) = {5, 7})"
proof -
  let ?p = "map (\<lambda>m. \<lparr> pd_micros = m, pd_bids = [], pd_asks = [] \<rparr>) [7, 3, 5, 5] :: rat pending_diff list"
  let ?s = "(bitstamp_new ''btcusd'')\<lparr> bs_mode := Awaiting ?p \<rparr>"
  let ?sn = "\<lparr> rs_bids = [], rs_asks = [], rs_as_of = 4 \<rparr> :: rat rest_snapshot"
  obtain actions s' where r: "bitstamp_apply_rest ?sn ?s = (actions, s')" by (cases "bitstamp_apply_rest ?sn ?s")
  have m: "bs_mode ?s = Awaiting ?p" by simp
  obtain applied where "filter (\<lambda>a. \<not> desyncs a) actions = DoSnapshot [] [] # map delta_of applied"
    and st: "set (map pd_micros applied) = {m \<in> pd_micros ` set ?p. rs_as_of ?sn < m}"
    and len: "length actions = 1 + length (filter (\<lambda>d. rs_as_of ?sn < pd_micros d) ?p)"
    using bitstamp_splices_survivors [OF m r] by (elim exE conjE) (simp only: rest_snapshot.simps)
  moreover have "length actions = 4" unfolding len by simp
  moreover have "set (map pd_micros applied) = {5, 7}" unfolding st by auto
  ultimately show ?thesis using r by (simp only: Let_def prod.case) blast
qed

section \<open>The race between the snapshot and the stream\<close>

text \<open>Feeding frames that all carry diffs, one after the other.\<close>

definition carries ::
  "('d, 'z) decimal_ops_scheme \<Rightarrow> 'v bitstamp_json \<Rightarrow> 'd bitstamp_sync \<Rightarrow> raw_frame \<Rightarrow> 'd pending_diff \<Rightarrow> bool" where
  "carries D J s f d \<longleftrightarrow> (case bj_envelope J (fr_payload f) of None \<Rightarrow> False
     | Some env \<Rightarrow> be_event env = ''data'' \<and> bitstamp_diff D J s env = Inr d)"

fun ingest_all :: "('d, 's) venue_ops \<Rightarrow> 's \<Rightarrow> raw_frame list \<Rightarrow> ('d sync_action list \<times> 's) option" where
  "ingest_all V s [] = Some ([], s)"
| "ingest_all V s (f # fs) =
     (case vs_ingest V f s of
        Returned (Inr ig, s) \<Rightarrow> map_option (\<lambda>(actions, s). (ig_actions ig @ actions, s)) (ingest_all V s fs)
      | _ \<Rightarrow> None)"

fun diff_steps :: "'d pending_diff list \<Rightarrow> 'd bitstamp_mode \<Rightarrow> 'd sync_action list \<times> 'd bitstamp_mode" where
  "diff_steps [] m = ([], m)"
| "diff_steps (d # ds) m =
     (case diff_step d m of (a, m) \<Rightarrow> (case diff_steps ds m of (actions, m) \<Rightarrow> (a # actions, m)))"

lemma bitstamp_diff_mode [simp]: "bitstamp_diff D J (s\<lparr> bs_mode := m \<rparr>) env = bitstamp_diff D J s env"
  by (simp add: bitstamp_diff_def)

lemma carries_mode [simp]: "carries D J (s\<lparr> bs_mode := m \<rparr>) = carries D J s"
  by (intro ext) (simp add: carries_def cong: option.case_cong)

lemma ingest_all_diffs:
  assumes "list_all2 (carries D J s) fs ds"
  shows "ingest_all (bitstamp_ops D J) s fs
    = (case diff_steps ds (bs_mode s) of (actions, m) \<Rightarrow> Some (actions, s\<lparr> bs_mode := m \<rparr>))"
  using assms
proof (induction fs arbitrary: s ds)
  case (Cons f fs)
  then obtain d ds' where ds: "ds = d # ds'" and head: "carries D J s f d"
    and tail: "list_all2 (carries D J s) fs ds'" by (auto simp: list_all2_Cons1)
  from head obtain env where "bj_envelope J (fr_payload f) = Some env"
    and "be_event env = ''data''" and diff: "bitstamp_diff D J s env = Inr d"
    by (auto simp: carries_def split: option.splits)
  then have "vs_ingest (bitstamp_ops D J) f s = Returned (case diff_step d (bs_mode s) of (action, mode) \<Rightarrow>
      (Inr (timed_at (untimed [action]) (Some (system_time_from_micros (pd_micros d)))), s\<lparr> bs_mode := mode \<rparr>))"
    by (simp add: bitstamp_ingest_def)
  then show ?case
    using Cons.IH [of "s\<lparr> bs_mode := m \<rparr>" ds' for m] tail
    by (simp add: ds timed_at_def untimed_def case_prod_beta)
qed simp

lemma diff_steps_awaiting: "snd (diff_steps ds (Awaiting p)) = Awaiting (p @ ds)"
proof (induction ds arbitrary: p)
  case (Cons d ds)
  from Cons.IH [of "p @ [d]"] show ?case by (simp add: case_prod_beta)
qed simp

lemma diff_steps_live:
  assumes "sorted_wrt (<) (map pd_micros ds)" and "\<forall>d \<in> set ds. spliced < pd_micros d \<longrightarrow> l < pd_micros d"
  shows "filter (\<lambda>a. a \<noteq> Ignore) (fst (diff_steps ds (LiveAt l spliced)))
      = map delta_of (filter (\<lambda>d. spliced < pd_micros d) ds)
    \<and> snd (diff_steps ds (LiveAt l spliced))
      = LiveAt (last (l # map pd_micros (filter (\<lambda>d. spliced < pd_micros d) ds))) spliced"
  using assms
proof (induction ds arbitrary: l)
  case (Cons d ds)
  show ?case
  proof (cases "pd_micros d \<le> spliced")
    case True
    with Cons.IH [of l] Cons.prems show ?thesis by (simp add: case_prod_beta)
  next
    case False
    with Cons.prems have "\<not> pd_micros d \<le> l" by (simp add: not_le)
    with False Cons.IH [of "pd_micros d"] Cons.prems show ?thesis
      by (simp add: check_order_def case_prod_beta)
  qed
qed simp

text \<open>
  C23. The REST fetch runs beside the stream, so the snapshot lands between any two diffs. When
  the venue sends its diffs in order it does not matter where: the book is asked for the same
  snapshot followed by the same deltas, exactly those newer than the snapshot, no diff is called
  a regression, and the machine ends in the same state.
\<close>

theorem bitstamp_race_is_harmless:
  assumes "bs_mode s = Awaiting []" and "list_all2 (carries D J s) frames ds"
    and "sorted_wrt (<) (map pd_micros ds)"
    and "ingest_all (bitstamp_ops D J) s (take k frames) = Some (early, s1)"
    and "bitstamp_apply_rest snapshot s1 = (spliced, s2)"
    and "ingest_all (bitstamp_ops D J) s2 (drop k frames) = Some (later, s3)"
  shows "let newer = filter (\<lambda>d. rs_as_of snapshot < pd_micros d) ds in
    filter (\<lambda>a. a \<noteq> Ignore) (spliced @ later)
        = DoSnapshot (rs_bids snapshot) (rs_asks snapshot) # map delta_of newer
    \<and> s3 = s\<lparr> bs_mode := LiveAt (last (rs_as_of snapshot # map pd_micros newer)) (rs_as_of snapshot) \<rparr>"
proof -
  let ?as_of = "rs_as_of snapshot"
  let ?newer = "filter (\<lambda>d. ?as_of < pd_micros d)"
  have frames: "list_all2 (carries D J s) (take k frames) (take k ds)"
    "list_all2 (carries D J s) (drop k frames) (drop k ds)"
    using assms(2) by (auto intro: list_all2_takeI list_all2_dropI)
  have split: "ds = take k ds @ drop k ds" by simp
  have "sorted_wrt (<) (map pd_micros (take k ds) @ map pd_micros (drop k ds))"
    using assms(3) by (simp flip: map_append)
  then have early: "sorted_wrt (<) (map pd_micros (take k ds))"
    and late: "sorted_wrt (<) (map pd_micros (drop k ds))"
    and across: "\<forall>x \<in> set (take k ds). \<forall>y \<in> set (drop k ds). pd_micros x < pd_micros y"
    by (auto simp: sorted_wrt_append)
  have s1: "s1 = s\<lparr> bs_mode := Awaiting (take k ds) \<rparr>"
    using ingest_all_diffs [OF frames(1)] assms(1,4) diff_steps_awaiting [of "take k ds" "[]"]
    by (auto split: prod.splits)
  have inc: "sorted_wrt (<) (?as_of # map pd_micros (?newer (take k ds)))"
    using early by (auto simp: sorted_wrt_filter sorted_wrt_map)
  then have "sort_key pd_micros (?newer (take k ds)) = ?newer (take k ds)"
    by (intro sort_key_id_if_sorted) (simp add: strict_sorted_imp_sorted)
  then have sp: "spliced = DoSnapshot (rs_bids snapshot) (rs_asks snapshot) # map delta_of (?newer (take k ds))"
    and s2: "s2 = s\<lparr> bs_mode := LiveAt (last (?as_of # map pd_micros (?newer (take k ds)))) ?as_of \<rparr>"
    using assms(5) splice_in_order [OF inc] by (auto simp: bitstamp_apply_rest_def Let_def s1)
  let ?l = "last (?as_of # map pd_micros (?newer (take k ds)))"
  have "\<forall>d \<in> set (drop k ds). ?as_of < pd_micros d \<longrightarrow> ?l < pd_micros d"
  proof (cases "?newer (take k ds) = []")
    case False
    then have "last (?newer (take k ds)) \<in> set (?newer (take k ds))" by (rule last_in_set)
    with False across show ?thesis by (simp add: last_map)
  qed simp
  from diff_steps_live [OF late this]
  have later: "filter (\<lambda>a. a \<noteq> Ignore) later = map delta_of (?newer (drop k ds))"
    and s3: "s3 = s\<lparr> bs_mode := LiveAt (last (?l # map pd_micros (?newer (drop k ds)))) ?as_of \<rparr>"
    using ingest_all_diffs [of D J s2 "drop k frames" "drop k ds"] frames(2) assms(6)
    by (auto simp: s2 split: prod.splits)
  have newer: "?newer ds = ?newer (take k ds) @ ?newer (drop k ds)"
    by (metis split filter_append)
  have "filter (\<lambda>a. a \<noteq> Ignore) (map delta_of xs) = map delta_of xs" for xs :: "'a pending_diff list"
    by (induction xs) simp_all
  then show ?thesis unfolding Let_def newer sp s3 by (simp add: later)
qed

definition bare_diff_json :: "string bitstamp_json" where
  "bare_diff_json = \<lparr> bj_envelope = (\<lambda>payload. Some \<lparr> be_event = ''data'',
       be_channel = ''diff_order_book_btcusd'', be_data = payload \<rparr>),
     bj_diff = (\<lambda>v. Some \<lparr> df_microtimestamp = v, df_bids = [], df_asks = [] \<rparr>),
     bj_trade = (\<lambda>_. None), bj_rest = (\<lambda>_. None) \<rparr>"

lemma bitstamp_race_is_harmless_witness:
  "let V = bitstamp_ops rat_decimals bare_diff_json;
       f = (\<lambda>payload. frame_new (StreamId Bitstamp ''BTC-USD'') payload (sample_time 0))
   in \<exists>early s1 spliced s2 later s3.
        ingest_all V (bitstamp_new ''btcusd'') [f ''5''] = Some (early, s1)
      \<and> bitstamp_apply_rest \<lparr> rs_bids = [], rs_asks = [], rs_as_of = 6 \<rparr> s1 = (spliced, s2)
      \<and> ingest_all V s2 [f ''6'', f ''8''] = Some (later, s3)
      \<and> filter (\<lambda>a. a \<noteq> Ignore) (spliced @ later) = [DoSnapshot [] [], DoDelta [] []]
      \<and> bs_mode s3 = LiveAt 8 6"
proof -
  let ?V = "bitstamp_ops rat_decimals bare_diff_json"
  let ?f = "\<lambda>payload. frame_new (StreamId Bitstamp ''BTC-USD'') payload (sample_time 0)"
  let ?s = "bitstamp_new ''btcusd'' :: rat bitstamp_sync"
  let ?d = "\<lambda>m. \<lparr> pd_micros = m, pd_bids = [], pd_asks = [] \<rparr> :: rat pending_diff"
  let ?sn = "\<lparr> rs_bids = [], rs_asks = [], rs_as_of = 6 \<rparr> :: rat rest_snapshot"
  let ?fs = "[?f ''5'', ?f ''6'', ?f ''8'']" and ?ds = "[?d 5, ?d 6, ?d 8]"
  have c: "list_all2 (carries rat_decimals bare_diff_json ?s) ?fs ?ds"
    by (simp add: carries_def bare_diff_json_def bitstamp_new_def frame_new_def bitstamp_diff_def parse_micros_def
        parse_unsigned_def parse_digits_def is_digit_char_def byte_of_def digits_value_def levels_from_str_pairs_def)
  have m: "bs_mode ?s = Awaiting []" by (simp add: bitstamp_new_def)
  have "list_all2 (carries rat_decimals bare_diff_json ?s) (take 1 ?fs) (take 1 ?ds)"
    using c by (rule list_all2_takeI)
  from ingest_all_diffs [OF this] obtain early s1 where e: "ingest_all ?V ?s (take 1 ?fs) = Some (early, s1)"
    and s1: "s1 = ?s\<lparr> bs_mode := Awaiting [?d 5] \<rparr>"
    by (simp add: m)
  obtain spliced s2 where sp: "bitstamp_apply_rest ?sn s1 = (spliced, s2)"
    and s2: "\<exists>mode. s2 = ?s\<lparr> bs_mode := mode \<rparr>"
    by (auto simp: s1 bitstamp_apply_rest_def)
  have "list_all2 (carries rat_decimals bare_diff_json s2) (drop 1 ?fs) (drop 1 ?ds)"
    using list_all2_dropI [OF c, of 1] s2 by auto
  from ingest_all_diffs [OF this] obtain later s3 where l: "ingest_all ?V s2 (drop 1 ?fs) = Some (later, s3)"
    by (auto split: prod.splits)
  from bitstamp_race_is_harmless [OF m c _ e sp l]
  have "filter (\<lambda>a. a \<noteq> Ignore) (spliced @ later) = [DoSnapshot [] [], DoDelta [] []] \<and> bs_mode s3 = LiveAt 8 6"
    by (simp add: Let_def)
  with e sp l show ?thesis by (auto simp: Let_def)
qed

end
