(* ===== verification/Endpoint.thy ===== *)
theory Endpoint
  imports Coinbase_Venue Kraken_Venue Bitstamp_Venue
begin

text \<open>
  Where each venue lives and what to say to it (\<open>ma-venues/src/venues/endpoint.rs\<close>): the
  venue's spelling of a symbol, and an endpoint built together with the state machine that will
  read what comes back. \<open>Box<dyn VenueSync>\<close> is one of the three state machines.
\<close>

definition kraken_depth :: nat where "kraken_depth = 10"
definition audit_depth :: nat where "audit_depth = 1000"

record rest_audit =
  ra_url :: string
  ra_interval :: duration
  ra_policy :: audit_policy

record venue_endpoint =
  ve_venue :: venue_id
  ve_ws_url :: string
  ve_subscribe :: "string list"
  ve_rest_snapshot_url :: "string option"
  ve_idle_timeout :: duration
  ve_rest_audit :: "rest_audit option"

datatype 'd boxed_sync =
    CoinbaseSync coinbase_sync
  | KrakenSync kraken_sync
  | BitstampSync "'d bitstamp_sync"

record 'd venue_spec =
  vp_endpoint :: venue_endpoint
  vp_sync :: "'d boxed_sync"
  vp_symbol :: symbol
  vp_max_depth :: "nat option"

text \<open>
  \<open>str::to_lowercase\<close>: byte by byte on ASCII; the case tables of the rest of Unicode are the
  argument \<open>tables\<close>.
\<close>

definition ascii_lower :: "char \<Rightarrow> char" where
  "ascii_lower c = (let n = byte_of c in if 65 \<le> n \<and> n \<le> 90 then char_of (n + 32) else c)"

definition to_lowercase :: "(string \<Rightarrow> string) \<Rightarrow> string \<Rightarrow> string" where
  "to_lowercase tables s = (if list_all (\<lambda>c. byte_of c < 128) s then map ascii_lower s else tables s)"

definition native_symbol :: "(string \<Rightarrow> string) \<Rightarrow> venue_id \<Rightarrow> symbol \<Rightarrow> venue_error + string" where
  "native_symbol tables venue symbol =
     (case split_once (CHR ''-'') symbol of
        None \<Rightarrow> Inl Malformed
      | Some (base, quote) \<Rightarrow>
          if base = [] \<or> quote = [] then Inl Malformed
          else Inr (case venue of
                 Coinbase \<Rightarrow> symbol
               | Kraken \<Rightarrow> base @ ''/'' @ quote
               | Bitstamp \<Rightarrow> to_lowercase tables (base @ quote)
               | Fake \<Rightarrow> symbol))"

definition subscribe_coinbase :: "string \<Rightarrow> string \<Rightarrow> string" where
  "subscribe_coinbase product_id channel =
     ''{\"type\":\"subscribe\",\"product_ids\":[\"'' @ product_id @ ''\"],\"channel\":\"'' @ channel @ ''\"}''"

definition spec_for :: "(string \<Rightarrow> string) \<Rightarrow> venue_id \<Rightarrow> symbol \<Rightarrow> venue_error + 'd venue_spec" where
  "spec_for tables venue symbol =
     (case native_symbol tables venue symbol of
        Inl e \<Rightarrow> Inl e
      | Inr native \<Rightarrow>
          (case venue of
             Coinbase \<Rightarrow> Inr \<lparr>
               vp_endpoint = \<lparr> ve_venue = venue,
                 ve_ws_url = ''wss://advanced-trade-ws.coinbase.com'',
                 ve_subscribe = [subscribe_coinbase native ''level2'',
                   subscribe_coinbase native ''heartbeats'', subscribe_coinbase native ''market_trades''],
                 ve_rest_snapshot_url = None,
                 ve_idle_timeout = from_secs 15,
                 ve_rest_audit = Some \<lparr>
                   ra_url = ''https://api.coinbase.com/api/v3/brokerage/market/product_book?product_id=''
                     @ native @ ''&limit='' @ show_nat audit_depth,
                   ra_interval = from_secs 60, ra_policy = audit_policy_default \<rparr> \<rparr>,
               vp_sync = CoinbaseSync (coinbase_new native), vp_symbol = symbol, vp_max_depth = None \<rparr>
           | Kraken \<Rightarrow> Inr \<lparr>
               vp_endpoint = \<lparr> ve_venue = venue,
                 ve_ws_url = ''wss://ws.kraken.com/v2'',
                 ve_subscribe =
                   [''{\"method\":\"subscribe\",\"params\":{\"channel\":\"book\",\"symbol\":[\"'' @ native
                      @ ''\"],\"depth\":'' @ show_nat kraken_depth @ ''}}'',
                    ''{\"method\":\"subscribe\",\"params\":{\"channel\":\"trade\",\"symbol\":[\"'' @ native
                      @ ''\"]}}''],
                 ve_rest_snapshot_url = None,
                 ve_idle_timeout = from_secs 15,
                 ve_rest_audit = None \<rparr>,
               vp_sync = KrakenSync (kraken_new native), vp_symbol = symbol,
               vp_max_depth = Some kraken_depth \<rparr>
           | Bitstamp \<Rightarrow> Inr \<lparr>
               vp_endpoint = \<lparr> ve_venue = venue,
                 ve_ws_url = ''wss://ws.bitstamp.net'',
                 ve_subscribe =
                   [''{\"event\":\"bts:subscribe\",\"data\":{\"channel\":\"diff_order_book_'' @ native @ ''\"}}'',
                    ''{\"event\":\"bts:subscribe\",\"data\":{\"channel\":\"live_trades_'' @ native @ ''\"}}''],
                 ve_rest_snapshot_url = Some (''https://www.bitstamp.net/api/v2/order_book/'' @ native @ ''/''),
                 ve_idle_timeout = from_secs 30,
                 ve_rest_audit = Some \<lparr>
                   ra_url = ''https://www.bitstamp.net/api/v2/order_book/'' @ native @ ''/'',
                   ra_interval = from_secs 60, ra_policy = audit_policy_default \<rparr> \<rparr>,
               vp_sync = BitstampSync (bitstamp_new native), vp_symbol = symbol, vp_max_depth = None \<rparr>
           | Fake \<Rightarrow> Inl (NoEndpoint venue)))"

section \<open>Endpoint and state machine belong together\<close>

definition names :: "string \<Rightarrow> string \<Rightarrow> bool" where
  "names payload word \<longleftrightarrow> (\<exists>before after. payload = before @ word @ after)"

lemma namesI [intro]: "payload = before @ word @ after \<Longrightarrow> names payload word"
  unfolding names_def by blast

lemma names_append [simp]: "names (before @ word @ after) word" "names (word @ after) word"
  unfolding names_def by (blast, metis append_Nil)

lemma names_Cons: "names payload word \<Longrightarrow> names (c # payload) word"
  unfolding names_def by (metis append_Cons)

text \<open>
  An endpoint is coherent with the state machine built beside it: the payloads it sends ask
  for the symbol, or the two channels, that the machine will recognise; it carries a REST
  snapshot URL exactly when the machine recovers by one; it is audited exactly when its messages
  prove nothing about the book held; only the checksum venue is pruned. The scripted venue has
  no endpoint.
\<close>

theorem spec_is_coherent:
  fixes D :: "('d, 'z) decimal_ops_scheme" and spec :: "'d venue_spec"
  assumes "spec_for tables venue symbol = Inr spec"
  shows "ve_venue (vp_endpoint spec) = venue \<and> vp_symbol spec = symbol \<and> (case vp_sync spec of
      CoinbaseSync s \<Rightarrow> venue = Coinbase
        \<and> (\<forall>p \<in> set (ve_subscribe (vp_endpoint spec)). names p (cb_product_id s))
        \<and> (ve_rest_snapshot_url (vp_endpoint spec) \<noteq> None \<longleftrightarrow> vs_recovery (coinbase_ops D J) = ByRestSnapshot)
        \<and> (ve_rest_audit (vp_endpoint spec) \<noteq> None \<longleftrightarrow> vs_integrity (coinbase_ops D J) \<noteq> Verified)
        \<and> (vp_max_depth spec \<noteq> None \<longleftrightarrow> vs_integrity (coinbase_ops D J) = Verified)
    | KrakenSync s \<Rightarrow> venue = Kraken
        \<and> (\<forall>p \<in> set (ve_subscribe (vp_endpoint spec)). names p (kr_symbol s))
        \<and> (ve_rest_snapshot_url (vp_endpoint spec) \<noteq> None \<longleftrightarrow> vs_recovery (kraken_ops D crc K) = ByRestSnapshot)
        \<and> (ve_rest_audit (vp_endpoint spec) \<noteq> None \<longleftrightarrow> vs_integrity (kraken_ops D crc K) \<noteq> Verified)
        \<and> (vp_max_depth spec \<noteq> None \<longleftrightarrow> vs_integrity (kraken_ops D crc K) = Verified)
    | BitstampSync s \<Rightarrow> venue = Bitstamp
        \<and> list_all2 names (ve_subscribe (vp_endpoint spec)) [bs_channel s, bs_trades_channel s]
        \<and> (ve_rest_snapshot_url (vp_endpoint spec) \<noteq> None \<longleftrightarrow> vs_recovery (bitstamp_ops D B) = ByRestSnapshot)
        \<and> (ve_rest_audit (vp_endpoint spec) \<noteq> None \<longleftrightarrow> vs_integrity (bitstamp_ops D B) \<noteq> Verified)
        \<and> (vp_max_depth spec \<noteq> None \<longleftrightarrow> vs_integrity (bitstamp_ops D B) = Verified))"
proof -
  obtain native where native: "native_symbol tables venue symbol = Inr native"
    using assms by (auto simp: spec_for_def split: sum.splits)
  show ?thesis
  proof (cases venue)
    case Coinbase
    with native assms show ?thesis
      by (auto simp: spec_for_def coinbase_new_def subscribe_coinbase_def intro!: names_Cons)
  next
    case Kraken
    with native assms show ?thesis
      by (auto simp: spec_for_def kraken_new_def intro!: names_Cons)
  next
    case Bitstamp
    have "names (''{\"event\":\"bts:subscribe\",\"data\":{\"channel\":\"'' @ word @ ''\"}}'') word" for word
      by (rule names_append)
    from this [of "''diff_order_book_'' @ native"] this [of "''live_trades_'' @ native"]
    show ?thesis using native assms Bitstamp
      by (auto simp: spec_for_def bitstamp_new_def)
  next
    case Fake
    with native assms show ?thesis by (simp add: spec_for_def)
  qed
qed

lemma spec_is_coherent_witness:
  "\<exists>spec :: rat venue_spec. spec_for (\<lambda>s. s) Kraken ''BTC-USD'' = Inr spec
    \<and> ve_venue (vp_endpoint spec) = Kraken
    \<and> (case vp_sync spec of KrakenSync s \<Rightarrow> (\<forall>p \<in> set (ve_subscribe (vp_endpoint spec)). names p (kr_symbol s)) | _ \<Rightarrow> False)"
proof -
  obtain spec :: "rat venue_spec" where s: "spec_for (\<lambda>s. s) Kraken ''BTC-USD'' = Inr spec"
    and k: "\<exists>k. vp_sync spec = KrakenSync k"
    by (simp add: spec_for_def native_symbol_def)
  from spec_is_coherent [OF s] k show ?thesis using s by auto
qed

end
