(* ===== verification/Fake_Venue.thy ===== *)
theory Fake_Venue
  imports Wire
begin

text \<open>
  The scripted venue (\<open>ma-venues/src/fake.rs\<close>): a script writes a correct stream and keeps a
  shadow book beside it, a tape is a recorded stream that can be damaged, and a venue of any
  integrity plays it. The JSON coding of a message (\<open>serde_json\<close>) and the CRC
  (\<open>crc32fast\<close>) are parameters.
\<close>

section \<open>The wire format\<close>

datatype fake_msg =
    FakeSnapshot (fm_seq: u64) "(string \<times> string) list" "(string \<times> string) list"
  | FakeDelta (fm_seq: u64) "(string \<times> string) list" "(string \<times> string) list"
  | FakeChecksum (fm_seq: u64) u32

record fake_codec =
  fk_to_vec :: "fake_msg \<Rightarrow> string + string"
  fk_from_slice :: "string \<Rightarrow> fake_msg option"

definition fake_to_levels ::
  "('d, 'z) decimal_ops_scheme \<Rightarrow> (string \<times> string) list \<Rightarrow> venue_error + 'd level list" where
  "fake_to_levels D pairs = try_map (\<lambda>(p, q).
     (case price_from_str D p of
        Inl _ \<Rightarrow> Inl Malformed
      | Inr price \<Rightarrow>
          (case qty_from_str D q of Inl _ \<Rightarrow> Inl Malformed | Inr qty \<Rightarrow> Inr (level_of price qty)))) pairs"

definition fake_checksum :: "('d, 'z) decimal_ops_scheme \<Rightarrow> (string \<Rightarrow> u32) \<Rightarrow> 'd book \<Rightarrow> u32" where
  "fake_checksum D crc b = crc (concat (map (\<lambda>side. concat (map (\<lambda>l.
       d_to_string D (lv_price l) @ '':'' @ d_to_string D (lv_qty l) @ ''|'')
     (top_levels b side 10))) [Bid, Ask]))"

section \<open>Scripts and tapes\<close>

definition frame_interval :: duration where
  "frame_interval = from_millis 10"

record 'd script =
  sp_frames :: "raw_frame list"
  sp_seq :: u64
  sp_shadow :: "'d book"
  sp_clock :: test_clock
  sp_symbol :: symbol

definition script_for_symbol :: "ingest_time \<Rightarrow> symbol \<Rightarrow> 'd script" where
  "script_for_symbol now symbol = \<lparr> sp_frames = [], sp_seq = 0, sp_shadow = new_book Fake symbol,
     sp_clock = test_clock_new now, sp_symbol = symbol \<rparr>"

definition script_push :: "fake_codec \<Rightarrow> 'd script \<Rightarrow> fake_msg \<Rightarrow> 'd script" where
  "script_push C s msg =
     (let payload = (case fk_to_vec C msg of
            Inr bytes \<Rightarrow> bytes
          | Inl e \<Rightarrow> ''{\"type\":\"malformed\",\"error\":\"'' @ e @ ''\"}'')
      in s\<lparr> sp_frames := sp_frames s @
              [frame_new (StreamId Fake (sp_symbol s)) payload (test_clock_now (sp_clock s))],
            sp_clock := test_clock_advance (sp_clock s) frame_interval \<rparr>)"

definition script_snapshot ::
  "('d, 'z) decimal_ops_scheme \<Rightarrow> fake_codec \<Rightarrow> (string \<times> string) list \<Rightarrow> (string \<times> string) list
     \<Rightarrow> 'd script \<Rightarrow> 'd script" where
  "script_snapshot D C bids asks s =
     (let s = s\<lparr> sp_seq := sp_seq s + 1 \<rparr>;
          msg = FakeSnapshot (sp_seq s) bids asks;
          s = (case (fake_to_levels D bids, fake_to_levels D asks) of
                 (Inr b, Inr a) \<Rightarrow> s\<lparr> sp_shadow := snd (apply_snapshot D (sp_shadow s) b a Verified
                     (test_clock_now (sp_clock s))) \<rparr>
               | _ \<Rightarrow> s)
      in script_push C s msg)"

definition script_delta ::
  "('d, 'z) decimal_ops_scheme \<Rightarrow> fake_codec \<Rightarrow> (string \<times> string) list \<Rightarrow> (string \<times> string) list
     \<Rightarrow> 'd script \<Rightarrow> 'd script" where
  "script_delta D C bids asks s =
     (let s = s\<lparr> sp_seq := sp_seq s + 1 \<rparr>;
          msg = FakeDelta (sp_seq s) bids asks;
          s = (case (fake_to_levels D bids, fake_to_levels D asks) of
                 (Inr b, Inr a) \<Rightarrow> s\<lparr> sp_shadow := snd (apply_delta D (sp_shadow s) b a
                     (test_clock_now (sp_clock s))) \<rparr>
               | _ \<Rightarrow> s)
      in script_push C s msg)"

definition script_checkpoint ::
  "('d, 'z) decimal_ops_scheme \<Rightarrow> fake_codec \<Rightarrow> (string \<Rightarrow> u32) \<Rightarrow> 'd script \<Rightarrow> 'd script" where
  "script_checkpoint D C crc s =
     (let s = s\<lparr> sp_seq := sp_seq s + 1 \<rparr>
      in script_push C s (FakeChecksum (sp_seq s) (fake_checksum D crc (sp_shadow s))))"

record tape =
  tp_frames :: "raw_frame list"
  tp_symbol :: symbol

definition script_build :: "'d script \<Rightarrow> tape" where
  "script_build s = \<lparr> tp_frames = sp_frames s, tp_symbol = sp_symbol s \<rparr>"

definition drop_at :: "tape \<Rightarrow> nat \<Rightarrow> tape" where
  "drop_at t index = (if index < length (tp_frames t)
     then t\<lparr> tp_frames := take index (tp_frames t) @ drop (index + 1) (tp_frames t) \<rparr> else t)"

definition duplicate_at :: "tape \<Rightarrow> nat \<Rightarrow> tape" where
  "duplicate_at t index = (if index < length (tp_frames t)
     then t\<lparr> tp_frames := take (index + 1) (tp_frames t) @ [tp_frames t ! index]
                @ drop (index + 1) (tp_frames t) \<rparr> else t)"

definition swap_frames :: "tape \<Rightarrow> nat \<Rightarrow> nat \<Rightarrow> tape" where
  "swap_frames t a b = (if a < length (tp_frames t) \<and> b < length (tp_frames t)
     then t\<lparr> tp_frames := (tp_frames t)[a := tp_frames t ! b, b := tp_frames t ! a] \<rparr> else t)"

definition truncate_from :: "tape \<Rightarrow> nat \<Rightarrow> tape" where
  "truncate_from t index = t\<lparr> tp_frames := take index (tp_frames t) \<rparr>"

definition tape_end :: "tape \<Rightarrow> ingest_time option" where
  "tape_end t = (if tp_frames t = [] then None else Some (fr_ingest_ts (last (tp_frames t))))"

section \<open>The venue\<close>

text \<open>
  The integrity and the recovery are set by the constructor and never change, so they are
  arguments here; the state is the number expected next.
\<close>

record fake_sync =
  fs_expected_seq :: "u64 option"

definition fake_new :: fake_sync where
  "fake_new = \<lparr> fs_expected_seq = None \<rparr>"

fun fake_recovery :: "integrity \<Rightarrow> recovery_strategy" where
  "fake_recovery OrderOnly = ByRestSnapshot"
| "fake_recovery GapDetectable = Resubscribe"
| "fake_recovery Verified = Resubscribe"

definition fake_check_seq :: "integrity \<Rightarrow> u64 \<Rightarrow> fake_sync \<Rightarrow> 'd desync_reason option \<times> fake_sync" where
  "fake_check_seq i seq s =
     (let expected = fs_expected_seq s
      in (case i of
            Verified \<Rightarrow> None
          | GapDetectable \<Rightarrow>
              (case expected of
                 Some expected \<Rightarrow> if seq \<noteq> expected then Some (SequenceGap expected seq) else None
               | None \<Rightarrow> None)
          | OrderOnly \<Rightarrow>
              (case expected of
                 Some expected \<Rightarrow> if seq < expected
                   then Some (TimestampRegression (if expected = 0 then 0 else expected - 1) seq) else None
               | None \<Rightarrow> None), s\<lparr> fs_expected_seq := Some (seq + 1) \<rparr>))"

definition fake_ingest ::
  "('d, 'z) decimal_ops_scheme \<Rightarrow> fake_codec \<Rightarrow> integrity \<Rightarrow> raw_frame \<Rightarrow> fake_sync
     \<Rightarrow> ((venue_error + 'd ingested) \<times> fake_sync) rust" where
  "fake_ingest D C i frame s =
     Returned (if frame_venue frame \<noteq> Fake then (Inl (WrongVenue Fake (frame_venue frame)), s)
      else case fk_from_slice C (fr_payload frame) of
        None \<Rightarrow> (Inl Malformed, s)
      | Some (FakeSnapshot seq bids asks) \<Rightarrow>
          (case (fake_to_levels D bids, fake_to_levels D asks) of
             (Inr b, Inr a) \<Rightarrow> Inr (untimed [DoSnapshot b a])
           | (Inr _, Inl e) \<Rightarrow> Inl e
           | (Inl e, _) \<Rightarrow> Inl e, s\<lparr> fs_expected_seq := Some (seq + 1) \<rparr>)
      | Some msg \<Rightarrow>
          (case fake_check_seq i (fm_seq msg) s of
             (Some reason, s) \<Rightarrow> (Inr (untimed [Desync reason]), s)
           | (None, s) \<Rightarrow>
               (case msg of
                  FakeDelta seq bids asks \<Rightarrow>
                    (case (fake_to_levels D bids, fake_to_levels D asks) of
                       (Inr b, Inr a) \<Rightarrow> Inr (untimed [DoDelta b a])
                     | (Inr _, Inl e) \<Rightarrow> Inl e
                     | (Inl e, _) \<Rightarrow> Inl e)
                | FakeChecksum seq v \<Rightarrow>
                    Inr (untimed [if i = Verified then Verify v else Ignore]), s)))"

definition fake_ops ::
  "('d, 'z) decimal_ops_scheme \<Rightarrow> fake_codec \<Rightarrow> (string \<Rightarrow> u32) \<Rightarrow> integrity \<Rightarrow> ('d, fake_sync) venue_ops" where
  "fake_ops D C crc i = \<lparr> vs_venue = Fake, vs_integrity = i, vs_recovery = fake_recovery i,
     vs_ingest = fake_ingest D C i,
     vs_checksum = (\<lambda>_ b. case i of Verified \<Rightarrow> Some (fake_checksum D crc b) | OrderOnly \<Rightarrow> None | GapDetectable \<Rightarrow> None),
     vs_reset = (\<lambda>s. s\<lparr> fs_expected_seq := None \<rparr>),
     vs_parse_rest = default_parse_rest Fake, vs_apply_rest = default_apply_rest \<rparr>"

lemma fake_ops_simps [simp]:
  "vs_venue (fake_ops D C crc i) = Fake" "vs_integrity (fake_ops D C crc i) = i"
  "vs_recovery (fake_ops D C crc i) = fake_recovery i" "vs_ingest (fake_ops D C crc i) = fake_ingest D C i"
  "vs_checksum (fake_ops D C crc i) s b = (if i = Verified then Some (fake_checksum D crc b) else None)"
  "vs_apply_rest (fake_ops D C crc i) = default_apply_rest"
  by (cases i; simp add: fake_ops_def)+

lemma fake_check_seq_ok: "fake_check_seq i seq s = (Some r, s') \<Longrightarrow> action_ok i (Desync r)"
  by (cases i) (auto simp: fake_check_seq_def split: option.splits if_splits)

interpretation fake: venue_sync "fake_ops D C crc i"
proof
  fix f s ig s' a
  assume "vs_ingest (fake_ops D C crc i) f s = Returned (Inr ig, s')" and "a \<in> set (ig_actions ig)"
  then show "action_ok (vs_integrity (fake_ops D C crc i)) a"
    by (auto simp: fake_ingest_def untimed_def dest: fake_check_seq_ok
        split: if_splits option.splits fake_msg.splits prod.splits sum.splits)
qed (auto simp: default_apply_rest_def)

fun feed_all ::
  "('d, 'z) decimal_ops_scheme \<Rightarrow> ('d, 's) venue_ops \<Rightarrow> ('d, 's) venue_book \<Rightarrow> raw_frame list
     \<Rightarrow> ('d, 's) venue_book rust" where
  "feed_all D V vb [] = Returned vb"
| "feed_all D V vb (f # fs) =
     (case feed D V vb f of Panicked \<Rightarrow> Panicked | Returned (_, vb) \<Rightarrow> feed_all D V vb fs)"

definition run_tape ::
  "('d, 'z) decimal_ops_scheme \<Rightarrow> fake_codec \<Rightarrow> (string \<Rightarrow> u32) \<Rightarrow> tape \<Rightarrow> integrity
     \<Rightarrow> ('d, fake_sync) venue_book rust" where
  "run_tape D C crc t i = feed_all D (fake_ops D C crc i)
     (venue_book_new (fake_ops D C crc i) fake_new (tp_symbol t)) (tp_frames t)"

section \<open>A book beside its shadow\<close>

text \<open>Equal but for the integrity and the verification time that a live state names.\<close>

definition agree :: "'d book \<Rightarrow> 'd book \<Rightarrow> bool" where
  "agree b sh \<longleftrightarrow> b\<lparr> bk_state := bk_state sh \<rparr> = sh
     \<and> (case bk_state sh of Live _ t _ \<Rightarrow> (\<exists>i v. bk_state b = Live i t v) | st \<Rightarrow> bk_state b = st)"

lemma agree_refl [simp]: "agree b b"
  by (auto simp: agree_def split: book_state.splits)

lemma agree_live: "agree b sh \<Longrightarrow> is_live (bk_state b) = is_live (bk_state sh)"
  by (auto simp: agree_def split: book_state.splits)

lemma agree_fields:
  assumes "agree b sh"
  shows "bk_bids b = bk_bids sh" "bk_asks b = bk_asks sh" "bk_max_depth b = bk_max_depth sh"
    "bk_venue b = bk_venue sh" "bk_symbol b = bk_symbol sh" "bk_last_update b = bk_last_update sh"
  using assms by (cases b; cases sh; simp add: agree_def)+

lemma agree_update:
  assumes "agree b sh"
  shows "agree (b\<lparr> bk_bids := x, bk_asks := y, bk_last_update := z \<rparr>)
               (sh\<lparr> bk_bids := x, bk_asks := y, bk_last_update := z \<rparr>)"
  using assms by (cases b; cases sh) (simp add: agree_def split: book_state.splits)

lemma agree_live_states: "b\<lparr> bk_state := s \<rparr> = sh\<lparr> bk_state := s \<rparr>
    \<Longrightarrow> agree (b\<lparr> bk_state := Live i t v \<rparr>) (sh\<lparr> bk_state := Live j t w \<rparr>)"
  by (cases b; cases sh) (simp add: agree_def)

lemma agree_prune: "agree b sh \<Longrightarrow> agree (prune D b) (prune D sh)"
  by (cases b; cases sh) (simp add: agree_def prune_def split: option.splits book_state.splits)

lemma agree_guard:
  assumes "agree b sh"
  shows "agree (snd (guard_crossed D b now)) (snd (guard_crossed D sh now))"
proof -
  have "best b s = best sh s" for s
    using agree_fields [OF assms] by (cases s) (simp_all add: best.simps)
  moreover have "agree (mark_desynced b why now) (mark_desynced sh why now)" for why
    using assms by (cases b; cases sh) (simp add: agree_def mark_desynced_def)
  ultimately show ?thesis using assms by (simp add: guard_crossed_def Let_def split: option.split)
qed

lemma agree_snapshot:
  assumes "agree b sh"
  shows "agree (snd (apply_snapshot D b bids asks i now)) (snd (apply_snapshot D sh bids asks j now))"
proof -
  have "agree (b\<lparr> bk_bids := x, bk_asks := y, bk_state := Live i now None, bk_last_update := Some now \<rparr>)
      (sh\<lparr> bk_bids := x, bk_asks := y, bk_state := Live j now None, bk_last_update := Some now \<rparr>)" for x y
    using agree_fields [OF assms] by (cases b; cases sh) (simp add: agree_def)
  then show ?thesis by (simp add: apply_snapshot_def agree_guard agree_prune)
qed

lemma agree_delta:
  assumes "agree b sh"
  shows "agree (snd (apply_delta D b bids asks now)) (snd (apply_delta D sh bids asks now))"
  using assms agree_live [OF assms] agree_fields [OF assms]
  by (simp add: apply_delta_def agree_guard agree_prune agree_update)

lemma agree_verified: "agree b sh \<Longrightarrow> agree (mark_verified b now) sh"
  by (cases b; cases sh)
    (auto simp: agree_def mark_verified_def split: book_state.splits integrity.splits)

lemma agree_checksum: "agree b sh \<Longrightarrow> fake_checksum D crc b = fake_checksum D crc sh"
  by (simp add: fake_checksum_def top_levels_def agree_fields [of b sh])

section \<open>Playing a script\<close>

datatype script_step =
    Snap "(string \<times> string) list" "(string \<times> string) list"
  | Dlt "(string \<times> string) list" "(string \<times> string) list"
  | Checkpoint

fun script_write ::
  "('d, 'z) decimal_ops_scheme \<Rightarrow> fake_codec \<Rightarrow> (string \<Rightarrow> u32) \<Rightarrow> 'd script \<Rightarrow> script_step \<Rightarrow> 'd script" where
  "script_write D C crc s (Snap bids asks) = script_snapshot D C bids asks s"
| "script_write D C crc s (Dlt bids asks) = script_delta D C bids asks s"
| "script_write D C crc s Checkpoint = script_checkpoint D C crc s"

text \<open>The coding is faithful: what was written reads back.\<close>

definition codec_ok :: "fake_codec \<Rightarrow> bool" where
  "codec_ok C \<longleftrightarrow> (\<forall>m. \<exists>bytes. fk_to_vec C m = Inr bytes \<and> fk_from_slice C bytes = Some m)"

text \<open>The frame a step writes: its message carries the next number.\<close>

definition message_of ::
  "('d, 'z) decimal_ops_scheme \<Rightarrow> (string \<Rightarrow> u32) \<Rightarrow> 'd script \<Rightarrow> script_step \<Rightarrow> fake_msg" where
  "message_of D crc s step = (case step of
     Snap bids asks \<Rightarrow> FakeSnapshot (sp_seq s + 1) bids asks
   | Dlt bids asks \<Rightarrow> FakeDelta (sp_seq s + 1) bids asks
   | Checkpoint \<Rightarrow> FakeChecksum (sp_seq s + 1) (fake_checksum D crc (sp_shadow s)))"

lemma write_frame:
  assumes "codec_ok C"
  obtains f where "sp_frames (script_write D C crc s step) = sp_frames s @ [f]"
    and "fk_from_slice C (fr_payload f) = Some (message_of D crc s step)"
    and "frame_venue f = Fake" and "fr_source f = WebSocket"
    and "fr_ingest_ts f = test_clock_now (sp_clock s)"
    and "sp_seq (script_write D C crc s step) = sp_seq s + 1"
    and "sp_symbol (script_write D C crc s step) = sp_symbol s"
proof -
  obtain bytes where "fk_to_vec C (message_of D crc s step) = Inr bytes"
    and "fk_from_slice C bytes = Some (message_of D crc s step)"
    using assms unfolding codec_ok_def by blast
  note enc = this
  let ?f = "frame_new (StreamId Fake (sp_symbol s)) bytes (test_clock_now (sp_clock s))"
  have "sp_frames (script_write D C crc s step) = sp_frames s @ [?f]
    \<and> sp_seq (script_write D C crc s step) = sp_seq s + 1 \<and> sp_symbol (script_write D C crc s step) = sp_symbol s"
  proof (cases step)
    case (Snap bids asks)
    then show ?thesis using enc(1)
      by (simp add: script_snapshot_def script_push_def message_of_def Let_def split: sum.split)
  next
    case (Dlt bids asks)
    then show ?thesis using enc(1)
      by (simp add: script_delta_def script_push_def message_of_def Let_def split: sum.split)
  next
    case Checkpoint
    then show ?thesis using enc(1)
      by (simp add: script_checkpoint_def script_push_def message_of_def Let_def)
  qed
  then show thesis
    by (intro that [of ?f]) (simp_all add: enc(2) frame_new_def frame_venue_def)
qed

lemma write_shadow:
  "sp_shadow (script_write D C crc s (Snap bids asks)) = (case (fake_to_levels D bids, fake_to_levels D asks) of
     (Inr b, Inr a) \<Rightarrow> snd (apply_snapshot D (sp_shadow s) b a Verified (test_clock_now (sp_clock s)))
   | _ \<Rightarrow> sp_shadow s)"
  "sp_shadow (script_write D C crc s (Dlt bids asks)) = (case (fake_to_levels D bids, fake_to_levels D asks) of
     (Inr b, Inr a) \<Rightarrow> snd (apply_delta D (sp_shadow s) b a (test_clock_now (sp_clock s)))
   | _ \<Rightarrow> sp_shadow s)"
  "sp_shadow (script_write D C crc s Checkpoint) = sp_shadow s"
  by (simp_all add: script_snapshot_def script_delta_def script_checkpoint_def script_push_def Let_def
      split: sum.split)

lemma feed_all_append: "feed_all D V vb (fs @ gs) =
    (case feed_all D V vb fs of Panicked \<Rightarrow> Panicked | Returned vb \<Rightarrow> feed_all D V vb gs)"
  by (induction fs arbitrary: vb) (simp_all split: rust.split prod.split)

definition in_step :: "'d script \<Rightarrow> ('d, fake_sync) venue_book \<Rightarrow> bool" where
  "in_step s vb \<longleftrightarrow> agree (vb_book vb) (sp_shadow s)
     \<and> fs_expected_seq (vb_sync vb) \<in> {None, Some (sp_seq s + 1)}"

lemma snd_delta_action:
  "snd (case r of (Inl x, b) \<Rightarrow> (None, b) | (Inr x, b) \<Rightarrow> (Some k, b)) = snd r"
  by (simp split: prod.split sum.split)

lemma in_order_check: "fs_expected_seq t \<in> {None, Some n}
    \<Longrightarrow> fake_check_seq i n t = (None, t\<lparr> fs_expected_seq := Some (n + 1) \<rparr>)"
  by (cases i) (auto simp: fake_check_seq_def)

lemma feed_in_step:
  fixes D :: "('d, 'z) decimal_ops_scheme"
  assumes sim: "in_step s vb" and msg: "fk_from_slice C (fr_payload f) = Some (message_of D crc s step)"
    and f: "frame_venue f = Fake" "fr_source f = WebSocket" "fr_ingest_ts f = test_clock_now (sp_clock s)"
    and seq: "sp_seq (script_write D C crc s step) = sp_seq s + 1"
  shows "\<exists>r vb'. feed D (fake_ops D C crc i) vb f = Returned (r, vb') \<and> in_step (script_write D C crc s step) vb'"
proof -
  let ?now = "test_clock_now (sp_clock s)"
  have ag: "agree (vb_book vb) (sp_shadow s)" and ex: "fs_expected_seq (vb_sync vb) \<in> {None, Some (sp_seq s + 1)}"
    using sim by (simp_all add: in_step_def)
  have check: "fake_check_seq i (sp_seq s + 1) (vb_sync vb)
      = (None :: 'd desync_reason option, (vb_sync vb)\<lparr> fs_expected_seq := Some (sp_seq s + 1 + 1) \<rparr>)"
    by (rule in_order_check [OF ex])
  show ?thesis
  proof (cases step)
    case (Snap bids asks)
    then show ?thesis using msg f ag agree_snapshot [OF ag] seq
      by (auto simp: feed_def fake_ingest_def message_of_def untimed_def apply_ingested_def in_step_def
          write_shadow Let_def simp del: script_write.simps split: sum.split)
  next
    case (Dlt bids asks)
    then show ?thesis using msg f ag agree_delta [OF ag, of D _ _ ?now] seq check
      by (auto simp: feed_def fake_ingest_def message_of_def untimed_def apply_ingested_def in_step_def
          write_shadow Let_def case_prod_beta [of "\<lambda>events b. (f events b, g events b)" for f g]
          case_prod_beta [of "\<lambda>outcomes vb. Returned (Inr outcomes, vb)"] snd_delta_action
          simp del: script_write.simps split: sum.split)
  next
    case Checkpoint
    have "agree (verify (fake_ops D C crc i) t (vb_book vb) (fake_checksum D crc (sp_shadow s)) ?now) (sp_shadow s)" for t
      using ag agree_verified [OF ag] by (simp add: verify_def agree_checksum [OF ag])
    with Checkpoint show ?thesis using msg f ag seq check
      by (auto simp: feed_def fake_ingest_def message_of_def untimed_def apply_ingested_def in_step_def
          write_shadow Let_def simp del: script_write.simps)
  qed
qed

definition written ::
  "('d, 'z) decimal_ops_scheme \<Rightarrow> fake_codec \<Rightarrow> (string \<Rightarrow> u32) \<Rightarrow> ingest_time \<Rightarrow> symbol
     \<Rightarrow> script_step list \<Rightarrow> 'd script" where
  "written D C crc now symbol steps = foldl (script_write D C crc) (script_for_symbol now symbol) steps"

lemma written_snoc: "written D C crc now symbol (steps @ [x])
    = script_write D C crc (written D C crc now symbol steps) x"
  by (simp add: written_def)

text \<open>
  C24. A script is a correct stream: played through a venue of any integrity, its frames rebuild
  the shadow book the script kept, contents, status and times alike, and no check of the venue
  ever fires on the way, whatever the texts of its levels.
\<close>

theorem script_plays_back:
  assumes "codec_ok C"
  shows "\<exists>vb. run_tape D C crc (script_build (written D C crc now symbol steps)) i = Returned vb
    \<and> agree (vb_book vb) (sp_shadow (written D C crc now symbol steps))"
proof -
  let ?V = "fake_ops D C crc i"
  let ?start = "venue_book_new ?V fake_new symbol"
  have "sp_symbol (written D C crc now symbol steps) = symbol
    \<and> (\<exists>vb. feed_all D ?V ?start (sp_frames (written D C crc now symbol steps)) = Returned vb
        \<and> in_step (written D C crc now symbol steps) vb)"
  proof (induction steps rule: rev_induct)
    case Nil
    show ?case by (simp add: written_def script_for_symbol_def in_step_def venue_book_new_def fake_new_def)
  next
    case (snoc x steps)
    let ?s = "written D C crc now symbol steps"
    from snoc obtain vb where vb: "feed_all D ?V ?start (sp_frames ?s) = Returned vb" and "in_step ?s vb" by blast
    obtain f where f: "sp_frames (script_write D C crc ?s x) = sp_frames ?s @ [f]"
      "fk_from_slice C (fr_payload f) = Some (message_of D crc ?s x)" "frame_venue f = Fake"
      "fr_source f = WebSocket" "fr_ingest_ts f = test_clock_now (sp_clock ?s)"
      "sp_seq (script_write D C crc ?s x) = sp_seq ?s + 1" "sp_symbol (script_write D C crc ?s x) = sp_symbol ?s"
      by (rule write_frame [OF assms])
    obtain r vb' where "feed D ?V vb f = Returned (r, vb')" "in_step (script_write D C crc ?s x) vb'"
      using feed_in_step [OF \<open>in_step ?s vb\<close> f(2-6)] by blast
    with vb f snoc show ?case by (simp add: written_snoc feed_all_append)
  qed
  then show ?thesis by (auto simp: run_tape_def script_build_def in_step_def)
qed

section \<open>A lost message\<close>

text \<open>What the venue answers to each frame.\<close>

fun ingest_results ::
  "('d, 's) venue_ops \<Rightarrow> 's \<Rightarrow> raw_frame list \<Rightarrow> (venue_error + 'd ingested) list" where
  "ingest_results V s [] = []"
| "ingest_results V s (f # fs) =
     (case vs_ingest V f s of Panicked \<Rightarrow> [] | Returned (r, s) \<Rightarrow> r # ingest_results V s fs)"

definition calm :: "venue_error + 'd ingested \<Rightarrow> bool" where
  "calm r \<longleftrightarrow> (case r of Inl _ \<Rightarrow> True | Inr ig \<Rightarrow> \<forall>a \<in> set (ig_actions ig). \<not> desyncs a)"

fun is_snap :: "script_step \<Rightarrow> bool" where
  "is_snap (Snap _ _) = True"
| "is_snap _ = False"

definition numbered :: "fake_codec \<Rightarrow> raw_frame \<Rightarrow> bool \<Rightarrow> u64 \<Rightarrow> bool" where
  "numbered C f snap n \<longleftrightarrow> frame_venue f = Fake
     \<and> (\<exists>m. fk_from_slice C (fr_payload f) = Some m \<and> fm_seq m = n
          \<and> snap = (\<exists>bids asks. m = FakeSnapshot n bids asks))"

lemma ingest_numbered:
  fixes D :: "('d, 'z) decimal_ops_scheme"
  assumes "numbered C f snap n" and check: "fake_check_seq i n s = (verdict :: 'd desync_reason option, s')"
  obtains r where "fake_ingest D C i f s = Returned (r, s\<lparr> fs_expected_seq := Some (n + 1) \<rparr>)"
    and "snap \<or> verdict = None \<Longrightarrow> calm r"
    and "\<And>why. \<not> snap \<Longrightarrow> verdict = Some why \<Longrightarrow> r = Inr (untimed [Desync why])"
proof -
  obtain m where m: "frame_venue f = Fake" "fk_from_slice C (fr_payload f) = Some m" "fm_seq m = n"
    "snap = (\<exists>bids asks. m = FakeSnapshot n bids asks)"
    using assms(1) unfolding numbered_def by blast
  have s': "s' = s\<lparr> fs_expected_seq := Some (n + 1) \<rparr>"
    using check by (auto simp: fake_check_seq_def Let_def)
  show thesis
  proof (cases m)
    case (FakeSnapshot k bids asks)
    with m that show thesis by (simp add: fake_ingest_def calm_def untimed_def split: sum.splits)
  next
    case (FakeDelta k bids asks)
    with m check that show thesis
      by (cases verdict) (auto simp: fake_ingest_def calm_def untimed_def s' split: sum.splits)
  next
    case (FakeChecksum k v)
    with m check that show thesis
      by (cases verdict) (auto simp: fake_ingest_def calm_def untimed_def s')
  qed
qed

lemma order_only_calm:
  fixes D :: "('d, 'z) decimal_ops_scheme"
  assumes "list_all2 (\<lambda>f n. \<exists>snap. numbered C f snap n) fs ns" and "sorted_wrt (<) ns"
    and "\<forall>e. fs_expected_seq s = Some e \<longrightarrow> (\<forall>n \<in> set ns. e \<le> n)"
    and "r \<in> set (ingest_results (fake_ops D C crc OrderOnly) s fs)"
  shows "calm r"
  using assms
proof (induction fs arbitrary: s ns)
  case (Cons f fs)
  then obtain n ns' snap where ns: "ns = n # ns'" and num: "numbered C f snap n"
    and tail: "list_all2 (\<lambda>f n. \<exists>snap. numbered C f snap n) fs ns'" by (auto simp: list_all2_Cons1)
  have "fake_check_seq OrderOnly n s = (None :: 'd desync_reason option, s\<lparr> fs_expected_seq := Some (n + 1) \<rparr>)"
    using Cons.prems(3) by (auto simp: fake_check_seq_def Let_def ns split: option.split)
  then obtain r0 where step: "fake_ingest D C OrderOnly f s = Returned (r0, s\<lparr> fs_expected_seq := Some (n + 1) \<rparr>)"
    and "calm r0" by (rule ingest_numbered [OF num, where D = D]) blast
  have "\<forall>n' \<in> set ns'. n + 1 \<le> n'" using Cons.prems(2) by (auto simp: ns intro: inc_le)
  then have "r \<in> set (ingest_results (fake_ops D C crc OrderOnly) (s\<lparr> fs_expected_seq := Some (n + 1) \<rparr>) fs) \<Longrightarrow> calm r"
    by (intro Cons.IH [OF tail]) (use Cons.prems(2) in \<open>auto simp: ns\<close>)
  with Cons.prems(4) step \<open>calm r0\<close> show ?case by auto
qed simp

lemma gap_noticed:
  fixes D :: "('d, 'z) decimal_ops_scheme"
  assumes "list_all2 (\<lambda>f n. \<exists>snap. numbered C f snap n) fs ns" and "fs \<noteq> []"
    and "numbered C g False k" and "k \<noteq> last ns + 1"
  shows "ingest_results (fake_ops D C crc GapDetectable) s (fs @ g # gs) ! length fs
    = Inr (untimed [Desync (SequenceGap (last ns + 1) k)])"
  using assms
proof (induction fs arbitrary: s ns)
  case (Cons f fs)
  then obtain n ns' snap where ns: "ns = n # ns'" and num: "numbered C f snap n"
    and tail: "list_all2 (\<lambda>f n. \<exists>snap. numbered C f snap n) fs ns'" by (auto simp: list_all2_Cons1)
  obtain verdict :: "'d desync_reason option" and s' where "fake_check_seq GapDetectable n s = (verdict, s')"
    by (cases "fake_check_seq GapDetectable n s :: 'd desync_reason option \<times> _")
  then obtain r0 where step: "fake_ingest D C GapDetectable f s = Returned (r0, s\<lparr> fs_expected_seq := Some (n + 1) \<rparr>)"
    by (rule ingest_numbered [OF num, where D = D])
  show ?case
  proof (cases "fs = []")
    case True
    with tail have n: "ns = [n]" by (simp add: ns)
    let ?s = "s\<lparr> fs_expected_seq := Some (n + 1) \<rparr>"
    have "fake_check_seq GapDetectable k ?s
        = (Some (SequenceGap (n + 1) k) :: 'd desync_reason option, ?s\<lparr> fs_expected_seq := Some (k + 1) \<rparr>)"
      using Cons.prems(4) by (simp add: fake_check_seq_def Let_def n)
    then obtain r where "fake_ingest D C GapDetectable g ?s = Returned (r, ?s\<lparr> fs_expected_seq := Some (k + 1) \<rparr>)"
      and "r = Inr (untimed [Desync (SequenceGap (n + 1) k)])"
      by (rule ingest_numbered [OF Cons.prems(3), where D = D]) blast
    with True step show ?thesis by (simp add: n)
  next
    case False
    with tail have "ns' \<noteq> []" by auto
    with False Cons.IH [OF tail False Cons.prems(3)] Cons.prems(4) step show ?thesis by (simp add: ns)
  qed
qed simp

text \<open>The frames of a script are numbered from one.\<close>

lemma written_numbered:
  assumes "codec_ok C"
  shows "length (sp_frames (written D C crc now symbol steps)) = length steps
    \<and> sp_seq (written D C crc now symbol steps) = of_nat (length steps)
    \<and> (\<forall>j < length steps. numbered C (sp_frames (written D C crc now symbol steps) ! j)
        (is_snap (steps ! j)) (of_nat (j + 1)))"
proof (induction steps rule: rev_induct)
  case Nil
  show ?case by (simp add: written_def script_for_symbol_def)
next
  case (snoc x steps)
  let ?s = "written D C crc now symbol steps"
  obtain f where f: "sp_frames (script_write D C crc ?s x) = sp_frames ?s @ [f]"
    "fk_from_slice C (fr_payload f) = Some (message_of D crc ?s x)" "frame_venue f = Fake"
    "sp_seq (script_write D C crc ?s x) = sp_seq ?s + 1"
    by (rule write_frame [OF assms])
  have "numbered C f (is_snap x) (of_nat (length steps + 1))"
    using f(2,3) snoc by (cases x) (simp_all add: numbered_def message_of_def add.commute)
  with f snoc show ?case
    by (auto simp: written_snoc nth_append less_Suc_eq_le le_less add.commute)
qed

text \<open>
  What each discipline makes of a lost message: a venue that only orders its messages never
  notices one, whatever it was; a venue that counts them reports the hole, with both numbers, at
  the very next message, unless that is a snapshot.
\<close>

theorem lost_message_by_discipline:
  fixes D :: "('d, 'z) decimal_ops_scheme"
  assumes "codec_ok C" and "0 < i" and "i + 1 < length steps" and "length steps < 2 ^ 64"
  shows "let tape = drop_at (script_build (written D C crc now symbol steps)) i;
             answers = (\<lambda>g. ingest_results (fake_ops D C crc g) fake_new (tp_frames tape))
    in (\<forall>r \<in> set (answers OrderOnly). calm r)
     \<and> (\<not> is_snap (steps ! (i + 1)) \<longrightarrow>
         answers GapDetectable ! i = Inr (untimed [Desync (SequenceGap (of_nat (i + 1)) (of_nat (i + 2)))]))"
proof -
  let ?fs = "sp_frames (written D C crc now symbol steps)"
  let ?num = "\<lambda>j. of_nat (j + 1) :: u64"
  let ?n = "length steps"
  have len: "length ?fs = ?n" and num: "\<And>j. j < ?n \<Longrightarrow> numbered C (?fs ! j) (is_snap (steps ! j)) (?num j)"
    using written_numbered [OF assms(1), of D crc now symbol steps] by blast+
  have drop: "tp_frames (drop_at (script_build (written D C crc now symbol steps)) i) = take i ?fs @ drop (i + 1) ?fs"
    using assms(3) len by (simp add: drop_at_def script_build_def)
  have all: "list_all2 (\<lambda>f n. \<exists>snap. numbered C f snap n) ?fs (map ?num [0..<?n])"
    using num by (auto simp: list_all2_conv_all_nth len)
  have less: "?num a < ?num b" if "a < b" "b < ?n" for a b
  proof -
    have "a + 1 < 2 ^ 64" "b + 1 < 2 ^ 64" using that assms(4) by linarith+
    then have "take_bit 64 (a + 1) = a + 1" "take_bit 64 (b + 1) = b + 1"
      by (simp_all only: take_bit_nat_eq_self)
    with that show ?thesis unfolding word_of_nat_less_iff by simp
  qed
  have nums: "list_all2 (\<lambda>f n. \<exists>snap. numbered C f snap n) (take i ?fs @ drop (i + 1) ?fs)
      (take i (map ?num [0..<?n]) @ drop (i + 1) (map ?num [0..<?n]))"
    using all by (intro list_all2_appendI list_all2_takeI list_all2_dropI)
  have srt: "sorted_wrt (<) (take i (map ?num [0..<?n]) @ drop (i + 1) (map ?num [0..<?n]))"
  proof -
    have "sorted_wrt (<) ([0..<i] @ [i + 1..<?n])" by (auto simp: sorted_wrt_append)
    then have "sorted_wrt (\<lambda>a b. ?num a < ?num b) ([0..<i] @ [i + 1..<?n])"
      by (rule sorted_wrt_mono_rel [rotated]) (use less assms(3) in auto)
    then have "sorted_wrt (<) (map ?num ([0..<i] @ [i + 1..<?n]))" by (simp only: sorted_wrt_map)
    moreover have "take i (map ?num [0..<?n]) @ drop (i + 1) (map ?num [0..<?n]) = map ?num ([0..<i] @ [i + 1..<?n])"
      using assms(3) by (simp add: take_map drop_map)
    ultimately show ?thesis by simp
  qed
  have calm: "calm r" if "r \<in> set (ingest_results (fake_ops D C crc OrderOnly) fake_new
      (take i ?fs @ drop (i + 1) ?fs))" for r
    by (rule order_only_calm [OF nums srt _ that]) (simp add: fake_new_def)
  have gap: "ingest_results (fake_ops D C crc GapDetectable) fake_new (take i ?fs @ drop (i + 1) ?fs) ! i
      = Inr (untimed [Desync (SequenceGap (of_nat (i + 1)) (of_nat (i + 2)))])" if "\<not> is_snap (steps ! (i + 1))"
  proof -
    let ?ns = "take i (map ?num [0..<?n])"
    have cons: "drop (i + 1) ?fs = ?fs ! (i + 1) # drop (i + 2) ?fs"
      using assms(3) len by (simp add: Cons_nth_drop_Suc [symmetric])
    have ne: "take i ?fs \<noteq> []" and l: "length (take i ?fs) = i" using assms(2,3) len by auto
    have last: "last ?ns = of_nat i" using assms(2,3) by (simp add: last_conv_nth take_map)
    have g: "numbered C (?fs ! (i + 1)) False (?num (i + 1))" using num [OF assms(3)] that by simp
    have "?num i < ?num (i + 1)" using less [of i "i + 1"] assms(3) by simp
    then have ne': "?num (i + 1) \<noteq> last ?ns + 1" unfolding last by (simp add: add.commute)
    have t: "list_all2 (\<lambda>f n. \<exists>snap. numbered C f snap n) (take i ?fs) ?ns" by (rule list_all2_takeI [OF all])
    have two: "?num (i + 1) = of_nat (i + 2)" by simp
    have one: "last ?ns + 1 = of_nat (i + 1)" unfolding last by simp
    show ?thesis
      using gap_noticed [OF t ne g ne', of D crc fake_new "drop (i + 2) ?fs"] unfolding l cons [symmetric] two one .
  qed
  show ?thesis unfolding Let_def drop using calm gap by blast
qed

section \<open>Both on a concrete coding\<close>

text \<open>A faithful coding to evaluate them on: every part is preceded by its length in unary.\<close>

definition put_nat :: "nat \<Rightarrow> string" where
  "put_nat n = replicate n (CHR ''x'') @ ''.''"

definition put_str :: "string \<Rightarrow> string" where
  "put_str s = put_nat (length s) @ s"

definition put_pairs :: "(string \<times> string) list \<Rightarrow> string" where
  "put_pairs ps = put_nat (length ps) @ concat (map (\<lambda>(p, q). put_str p @ put_str q) ps)"

definition get_nat :: "string \<Rightarrow> nat \<times> string" where
  "get_nat s = (length (takeWhile ((=) (CHR ''x'')) s), tl (dropWhile ((=) (CHR ''x'')) s))"

definition get_str :: "string \<Rightarrow> string \<times> string" where
  "get_str s = (case get_nat s of (n, r) \<Rightarrow> (take n r, drop n r))"

fun get_some :: "nat \<Rightarrow> string \<Rightarrow> (string \<times> string) list \<times> string" where
  "get_some 0 s = ([], s)"
| "get_some (Suc n) s =
     (case get_str s of (p, r) \<Rightarrow> (case get_str r of (q, r) \<Rightarrow>
       (case get_some n r of (ps, r) \<Rightarrow> ((p, q) # ps, r))))"

definition get_pairs :: "string \<Rightarrow> (string \<times> string) list \<times> string" where
  "get_pairs s = (case get_nat s of (n, r) \<Rightarrow> get_some n r)"

lemma get_nat [simp]: "get_nat (put_nat n @ r) = (n, r)"
  by (simp add: get_nat_def put_nat_def takeWhile_append dropWhile_append)

lemma get_str [simp]: "get_str (put_str s @ r) = (s, r)"
  by (simp add: get_str_def put_str_def)

lemma get_some_put: "get_some (length ps) (concat (map (\<lambda>(p, q). put_str p @ put_str q) ps) @ r) = (ps, r)"
  by (induction ps) (auto simp: case_prod_beta)

lemma get_pairs [simp]: "get_pairs (put_pairs ps @ r) = (ps, r)"
  by (simp add: get_pairs_def put_pairs_def get_some_put)

fun unary_to_vec :: "fake_msg \<Rightarrow> string" where
  "unary_to_vec (FakeSnapshot n bids asks) = ''s'' @ put_nat (unat n) @ put_pairs bids @ put_pairs asks"
| "unary_to_vec (FakeDelta n bids asks) = ''d'' @ put_nat (unat n) @ put_pairs bids @ put_pairs asks"
| "unary_to_vec (FakeChecksum n v) = ''c'' @ put_nat (unat n) @ put_nat (unat v)"

definition unary_from_slice :: "string \<Rightarrow> fake_msg option" where
  "unary_from_slice s =
     (if s = [] then None
      else case get_nat (tl s) of (n, r) \<Rightarrow>
        if hd s = CHR ''c'' then Some (FakeChecksum (of_nat n) (of_nat (fst (get_nat r))))
        else case get_pairs r of (bids, r) \<Rightarrow>
          Some ((if hd s = CHR ''s'' then FakeSnapshot else FakeDelta) (of_nat n) bids (fst (get_pairs r))))"

definition unary_codec :: fake_codec where
  "unary_codec = \<lparr> fk_to_vec = (\<lambda>m. Inr (unary_to_vec m)), fk_from_slice = unary_from_slice \<rparr>"

lemma get_at_end [simp]: "get_nat (put_nat n) = (n, [])" "get_pairs (put_pairs ps) = (ps, [])"
  using get_nat [of n "[]"] get_pairs [of ps "[]"] by simp_all

lemma unary_codec_ok [simp]: "codec_ok unary_codec"
proof -
  have "unary_from_slice (unary_to_vec m) = Some m" for m
    by (cases m) (simp_all add: unary_from_slice_def)
  then show ?thesis by (simp add: codec_ok_def unary_codec_def)
qed

lemma script_plays_back_witness:
  "\<exists>vb. run_tape rat_decimals unary_codec (\<lambda>text. of_nat (length text))
      (script_build (written rat_decimals unary_codec (\<lambda>text. of_nat (length text)) (sample_time 0) ''BTC-USD''
        [Snap [] [(''0'', ''0'')], Checkpoint])) Verified = Returned vb
    \<and> agree (vb_book vb) (sp_shadow (written rat_decimals unary_codec (\<lambda>text. of_nat (length text)) (sample_time 0) ''BTC-USD''
        [Snap [] [(''0'', ''0'')], Checkpoint]))"
  by (rule script_plays_back [OF unary_codec_ok])

lemma lost_message_by_discipline_witness:
  "let tape = drop_at (script_build (written rat_decimals unary_codec (\<lambda>text. of_nat (length text)) (sample_time 0) ''BTC-USD''
         [Snap [] [], Dlt [] [], Checkpoint])) 1;
       answers = (\<lambda>g. ingest_results (fake_ops rat_decimals unary_codec (\<lambda>text. of_nat (length text)) g) fake_new (tp_frames tape))
   in (\<forall>r \<in> set (answers OrderOnly). calm r)
    \<and> answers GapDetectable ! 1 = Inr (untimed [Desync (SequenceGap 2 3)])"
  using lost_message_by_discipline [OF unary_codec_ok, of 1 "[Snap [] [], Dlt [] [], Checkpoint]"
      rat_decimals "\<lambda>text. of_nat (length text)" "sample_time 0" "''BTC-USD''"]
  by (simp add: Let_def)

end
