(* ===== verification/Venues.thy ===== *)
theory Venues
  imports Endpoint Fake_Venue
begin

text \<open>
  What holds of a venue's book whatever the venue (\<open>VenueBook\<close> of
  \<open>ma-venues/src/sync.rs\<close>), and the replay of a recorded history.
\<close>

section \<open>Feeding\<close>

lemma apply_ingested_parts:
  "fst (apply_ingested D V vb ig now) =
     map Event (fst (apply_actions D V (vb_sync vb) (ig_venue_ts ig) now (vb_book vb) (ig_actions ig)))
       @ state_changed D (bk_state (vb_book vb)) (bk_state (vb_book (snd (apply_ingested D V vb ig now))))"
  "snd (apply_ingested D V vb ig now) = vb\<lparr> vb_book :=
     snd (apply_actions D V (vb_sync vb) (ig_venue_ts ig) now (vb_book vb) (ig_actions ig)) \<rparr>"
  by (simp_all add: apply_ingested_def Let_def case_prod_beta)

lemma actions_ok: "venue_book_ok D V b \<Longrightarrow> venue_book_ok D V (snd (apply_actions D V s ts now b actions))
    \<and> same_stream (snd (apply_actions D V s ts now b actions)) b"
  using venue_book_ok_actions [of D V b s ts now actions] apply_actions_stream [of D V s ts now b actions]
  by (cases "apply_actions D V s ts now b actions") simp

lemma audit_book:
  "vb_book (snd (venue_book_audit D vb snapshot now)) = vb_book vb
   \<or> (\<exists>why. vb_book (snd (venue_book_audit D vb snapshot now)) = mark_desynced (vb_book vb) why now)"
  by (auto simp: venue_book_audit_def Let_def case_prod_beta split: option.split)

lemma audit_outcomes:
  "fst (venue_book_audit D vb snapshot now) = []
   \<or> fst (venue_book_audit D vb snapshot now) = state_changed D (bk_state (vb_book vb))
       (bk_state (vb_book (snd (venue_book_audit D vb snapshot now))))"
  by (simp add: venue_book_audit_def Let_def case_prod_beta split: option.split)

text \<open>The three shapes a feed can take.\<close>

lemma feed_cases:
  assumes "feed D V vb frame = Returned (r, vb')"
  obtains (failed) e s where "r = Inl e" and "vb' = vb\<lparr> vb_sync := s \<rparr>"
    | (applied) s ig where "r = Inr (fst (apply_ingested D V (vb\<lparr> vb_sync := s \<rparr>) ig (fr_ingest_ts frame)))"
        and "vb' = snd (apply_ingested D V (vb\<lparr> vb_sync := s \<rparr>) ig (fr_ingest_ts frame))"
        and "fr_source frame \<noteq> RestAudit"
    | (audited) snapshot where "r = Inr (fst (venue_book_audit D vb snapshot (fr_ingest_ts frame)))"
        and "vb' = snd (venue_book_audit D vb snapshot (fr_ingest_ts frame))"
        and "fr_source frame = RestAudit"
proof (cases "fr_source frame")
  case WebSocket
  obtain q where q: "vs_ingest V frame (vb_sync vb) = Returned q"
    using assms WebSocket by (cases "vs_ingest V frame (vb_sync vb)") (simp_all add: feed_def)
  obtain e s ig where "q = (Inl e, s) \<or> q = (Inr ig, s)" by (metis sum.exhaust surj_pair)
  then show thesis
  proof
    assume "q = (Inl e, s)"
    with assms WebSocket q show thesis by (intro failed [of e s]) (simp_all add: feed_def)
  next
    assume "q = (Inr ig, s)"
    with assms WebSocket q show thesis
      by (intro applied [of s ig]) (simp_all add: feed_def case_prod_beta)
  qed
next
  case RestSnapshotSource
  show thesis
  proof (cases "Option.bind (case frame_as_str frame of Inl _ \<Rightarrow> None | Inr body \<Rightarrow> Some body)
      (\<lambda>body. case vs_parse_rest V (vb_sync vb) body of Inl _ \<Rightarrow> None | Inr sn \<Rightarrow> Some sn)")
    case None
    with assms RestSnapshotSource show thesis
      by (intro failed [of "projl r" "vb_sync vb"]) (auto simp: feed_def split: sum.splits)
  next
    case (Some sn)
    with assms RestSnapshotSource show thesis
      by (intro applied [of "snd (vs_apply_rest V sn (vb_sync vb))" "untimed (fst (vs_apply_rest V sn (vb_sync vb)))"])
        (auto simp: feed_def case_prod_beta split: sum.splits)
  qed
next
  case RestAudit
  show thesis
  proof (cases "Option.bind (case frame_as_str frame of Inl _ \<Rightarrow> None | Inr body \<Rightarrow> Some body)
      (\<lambda>body. case vs_parse_rest V (vb_sync vb) body of Inl _ \<Rightarrow> None | Inr sn \<Rightarrow> Some sn)")
    case None
    with assms RestAudit show thesis
      by (intro failed [of "projl r" "vb_sync vb"]) (auto simp: feed_def split: sum.splits)
  next
    case (Some sn)
    with assms RestAudit show thesis
      by (intro audited [of sn]) (auto simp: feed_def case_prod_beta split: sum.splits)
  qed
qed

lemma feed_keeps_ok:
  assumes "venue_book_ok D V (vb_book vb)" and "feed D V vb frame = Returned (r, vb')"
  shows "venue_book_ok D V (vb_book vb') \<and> same_stream (vb_book vb') (vb_book vb)"
  using assms(2)
proof (cases rule: feed_cases)
  case (audited snapshot)
  with audit_book [of D vb snapshot "fr_ingest_ts frame"] assms(1) show ?thesis
    by (auto intro: wf_intros)
qed (use assms(1) actions_ok [OF assms(1)] in \<open>simp_all add: apply_ingested_parts\<close>)

lemma reset_keeps_ok: "venue_book_ok D V (vb_book vb) \<Longrightarrow> venue_book_ok D V (vb_book (venue_book_reset V vb now))"
  by (simp add: venue_book_reset_def wf_intros)

lemma event_keeps_ok:
  assumes "venue_book_ok D V (vb_book vb)"
  shows "venue_book_ok D V (vb_book (snd (apply_event D V vb ev now)))"
  using actions_ok [OF assms] by (simp add: apply_event_def apply_ingested_parts del: apply_actions.simps)


text \<open>
  What a feed reports. An error leaves the book, the audit policy and the trail exactly as
  they were. Otherwise the events come first, all stamped with the book's stream and the frame's
  arrival, and one change of state is reported after them exactly when the state before the
  frame differs from the state after it; an audit emits no events.
\<close>

theorem feed_reports:
  assumes "feed D V vb frame = Returned (r, vb')"
  shows "(\<forall>e. r = Inl e \<longrightarrow> vb' = vb\<lparr> vb_sync := vb_sync vb' \<rparr>)
    \<and> (\<forall>outs. r = Inr outs \<longrightarrow> fr_source frame \<noteq> RestAudit \<longrightarrow>
        (\<exists>events. outs = map Event events @ state_changed D (bk_state (vb_book vb)) (bk_state (vb_book vb'))
          \<and> (\<forall>ev \<in> set events. ev_venue ev = bk_venue (vb_book vb) \<and> ev_symbol ev = bk_symbol (vb_book vb)
                \<and> ev_ingest_ts ev = fr_ingest_ts frame)))
    \<and> (\<forall>outs. r = Inr outs \<longrightarrow> fr_source frame = RestAudit \<longrightarrow>
        outs = [] \<or> outs = state_changed D (bk_state (vb_book vb)) (bk_state (vb_book vb')))"
  using assms
proof (cases rule: feed_cases)
  case (applied s ig)
  let ?r = "apply_actions D V s (ig_venue_ts ig) (fr_ingest_ts frame) (vb_book vb) (ig_actions ig)"
  have "\<forall>ev \<in> set (fst ?r). ev_venue ev = bk_venue (vb_book vb) \<and> ev_symbol ev = bk_symbol (vb_book vb)
      \<and> ev_ingest_ts ev = fr_ingest_ts frame"
    using apply_actions_events [of D V s "ig_venue_ts ig" "fr_ingest_ts frame" "vb_book vb" "ig_actions ig"
        "fst ?r" "snd ?r"] by simp
  with applied show ?thesis
    by (intro conjI allI impI exI [of _ "fst ?r"]) (simp_all add: apply_ingested_parts)
next
  case (audited snapshot)
  with audit_outcomes [of D vb snapshot "fr_ingest_ts frame"] show ?thesis by auto
qed auto

definition sample_venue_book :: "(rat, coinbase_sync) venue_book" where
  "sample_venue_book = \<lparr> vb_sync = \<lparr> cb_product_id = ''BTC-USD'', cb_expected_seq = Some 4 \<rparr>,
     vb_book = (new_book Coinbase ''BTC-USD'')\<lparr> bk_state := Live GapDetectable (sample_time 0) None \<rparr>,
     vb_audit_policy = audit_policy_default, vb_audit_trail = audit_trail_new \<rparr>"

definition gap_frame :: raw_frame where
  "gap_frame = frame_new (StreamId Coinbase ''BTC-USD'') ''aaaaa'' (sample_time 1)"

abbreviation sample_coinbase :: "(rat, coinbase_sync) venue_ops" where
  "sample_coinbase \<equiv> coinbase_ops rat_decimals seq_only_json"

lemma sample_venue_book_ok: "venue_book_ok rat_decimals sample_coinbase (vb_book sample_venue_book)"
  by (simp add: venue_book_ok_def sample_venue_book_def book_wf_def sides_ok_def uncrossed_def new_book_def best.simps)

lemma feed_gap_frame:
  "\<exists>s'. feed rat_decimals sample_coinbase sample_venue_book gap_frame
     = Returned (Inr [StateChanged (Live GapDetectable (sample_time 0) None)
           (Desynced (sample_time 1) (SequenceGap 4 5))],
         sample_venue_book\<lparr> vb_sync := s',
           vb_book := mark_desynced (vb_book sample_venue_book) (SequenceGap 4 5) (sample_time 1) \<rparr>)"
  by (simp add: feed_def gap_frame_def frame_new_def coinbase_ingest_def seq_only_json_def frame_time_def
      coinbase_check_seq_def sample_venue_book_def timed_at_def untimed_def apply_ingested_def Let_def
      mark_desynced_def state_changed_def)


lemma feed_reports_witness:
  "\<exists>outs vb'. feed rat_decimals sample_coinbase sample_venue_book gap_frame = Returned (Inr outs, vb')
    \<and> (\<exists>events. outs = map Event events
        @ state_changed rat_decimals (bk_state (vb_book sample_venue_book)) (bk_state (vb_book vb')))"
proof -
  obtain outs vb' where f: "feed rat_decimals sample_coinbase sample_venue_book gap_frame = Returned (Inr outs, vb')"
    using feed_gap_frame by blast
  have "fr_source gap_frame \<noteq> RestAudit" by (simp add: gap_frame_def frame_new_def)
  then have "\<exists>events. outs = map Event events
      @ state_changed rat_decimals (bk_state (vb_book sample_venue_book)) (bk_state (vb_book vb'))"
    using conjunct1 [OF conjunct2 [OF feed_reports [OF f]]] by fast
  with f show ?thesis by (intro exI [of _ outs] exI [of _ vb'] conjI)
qed

section \<open>Replaying a history\<close>

text \<open>A run over the stream, with the events it hands on.\<close>

fun events_of :: "venue_error + 'd outcome list \<Rightarrow> 'd market_event list" where
  "events_of (Inl e) = []"
| "events_of (Inr outs) = List.map_filter (\<lambda>out. case out of Event ev \<Rightarrow> Some ev | StateChanged _ _ \<Rightarrow> None) outs"

fun history ::
  "('d, 'z) decimal_ops_scheme \<Rightarrow> ('d, 's) venue_ops \<Rightarrow> ('d, 's) venue_book \<Rightarrow> raw_frame list
     \<Rightarrow> ('d market_event list \<times> ('d, 's) venue_book) rust" where
  "history D V vb [] = Returned ([], vb)"
| "history D V vb (f # fs) =
     (case feed D V vb f of
        Panicked \<Rightarrow> Panicked
      | Returned (r, vb1) \<Rightarrow>
          (case history D V vb1 fs of
             Panicked \<Rightarrow> Panicked
           | Returned (evs, vb2) \<Rightarrow> Returned (events_of r @ evs, vb2)))"

lemma events_of_applied:
  "events_of (Inr (fst (apply_ingested D V vb ig now)))
     = fst (apply_actions D V (vb_sync vb) (ig_venue_ts ig) now (vb_book vb) (ig_actions ig))"
proof -
  have "List.map_filter (\<lambda>out. case out of Event ev \<Rightarrow> Some ev | StateChanged _ _ \<Rightarrow> None)
      (map Event evs @ state_changed D a b) = evs" for evs :: "'a market_event list" and a b
    by (induction evs) (simp_all add: state_changed_def List.map_filter_def)
  then show ?thesis by (simp add: apply_ingested_parts)
qed

lemma replay_events_append: "replay_events D V vb (a @ b) = replay_events D V (replay_events D V vb a) b"
  by (simp add: replay_events_def)

lemma kraken_feed_replays:
  assumes "feed D (kraken_ops D crc J) vb f = Returned (r, vb')" and "fr_source f = WebSocket"
  shows "replay_events D (kraken_ops D crc J) vb (events_of r) = vb'"
proof -
  let ?V = "kraken_ops D crc J"
  obtain q where i: "kraken_ingest D J f (vb_sync vb) = Returned (q, vb_sync vb)"
    using assms by (auto simp: feed_def kraken_ingest_def split: option.splits rust.splits)
  show ?thesis
  proof (cases q)
    case (Inl e)
    with i assms show ?thesis by (auto simp: feed_def replay_events_def)
  next
    case (Inr ig)
    have "\<forall>a \<in> set (ig_actions ig). replays a"
      using i Inr by (auto simp: kraken_ingest_def split: option.splits rust.splits dest: kraken_frame_ok(2))
    then have "replay_events D ?V vb (fst (apply_actions D ?V (vb_sync vb) (ig_venue_ts ig) (fr_ingest_ts f)
        (vb_book vb) (ig_actions ig)))
      = vb\<lparr> vb_book := snd (apply_actions D ?V (vb_sync vb) (ig_venue_ts ig) (fr_ingest_ts f) (vb_book vb) (ig_actions ig)) \<rparr>"
      by (rule replay_actions) simp
    moreover have "r = Inr (fst (apply_ingested D ?V vb ig (fr_ingest_ts f)))"
      "vb' = snd (apply_ingested D ?V vb ig (fr_ingest_ts f))"
      using assms i Inr by (auto simp: feed_def case_prod_beta)
    ultimately show ?thesis by (simp only: events_of_applied) (simp only: apply_ingested_parts)
  qed
qed

text \<open>
  C37. On the venue with checksums the normalised history is the market: replaying the events of
  any stretch of its stream, unreadable frames included, gives the very book the live run ended
  with, contents, trust, verification times and all.
\<close>

theorem kraken_history_replays:
  assumes "history D (kraken_ops D crc J) vb frames = Returned (events, vb')"
    and "\<forall>f \<in> set frames. fr_source f = WebSocket"
  shows "replay_events D (kraken_ops D crc J) vb events = vb'"
  using assms
proof (induction frames arbitrary: vb events)
  case Nil
  then show ?case by (simp add: replay_events_def)
next
  case (Cons f fs)
  then obtain r vb1 evs where f: "feed D (kraken_ops D crc J) vb f = Returned (r, vb1)"
    and rest: "history D (kraken_ops D crc J) vb1 fs = Returned (evs, vb')" and events: "events = events_of r @ evs"
    by (auto split: rust.splits prod.splits)
  have "replay_events D (kraken_ops D crc J) vb (events_of r) = vb1"
    using kraken_feed_replays [OF f] Cons.prems(2) by simp
  with Cons.IH [OF rest] Cons.prems(2) show ?case by (simp add: events replay_events_append)
qed

text \<open>
  On the other venues it is not: a sequence gap desyncs the live book but emits no event, so
  a replay of the same history keeps a book the live run had stopped trusting.
\<close>

theorem desync_is_not_replayed:
  "\<exists>events vb'. history rat_decimals sample_coinbase sample_venue_book [gap_frame] = Returned (events, vb')
    \<and> \<not> is_live (bk_state (vb_book vb'))
    \<and> is_live (bk_state (vb_book (replay_events rat_decimals sample_coinbase sample_venue_book events)))"
proof -
  obtain s' where f: "feed rat_decimals sample_coinbase sample_venue_book gap_frame
     = Returned (Inr [StateChanged (Live GapDetectable (sample_time 0) None)
           (Desynced (sample_time 1) (SequenceGap 4 5))],
         sample_venue_book\<lparr> vb_sync := s',
           vb_book := mark_desynced (vb_book sample_venue_book) (SequenceGap 4 5) (sample_time 1) \<rparr>)"
    using feed_gap_frame by blast
  then have "history rat_decimals sample_coinbase sample_venue_book [gap_frame]
     = Returned ([], sample_venue_book\<lparr> vb_sync := s',
           vb_book := mark_desynced (vb_book sample_venue_book) (SequenceGap 4 5) (sample_time 1) \<rparr>)"
    by (simp add: List.map_filter_def)
  then show ?thesis
    by (simp add: mark_desynced_def replay_events_def sample_venue_book_def)
qed

lemma kraken_history_replays_witness:
  "\<exists>events vb'. history rat_decimals sample_kraken kraken_sample [sample_kraken_frame] = Returned (events, vb')
    \<and> replay_events rat_decimals sample_kraken kraken_sample events = vb'"
proof -
  obtain q where "feed rat_decimals sample_kraken kraken_sample sample_kraken_frame = Returned q"
    using sample_kraken_feeds by blast
  then obtain events vb' where h: "history rat_decimals sample_kraken kraken_sample [sample_kraken_frame]
      = Returned (events, vb')" by (cases q) simp
  have "\<forall>f \<in> set [sample_kraken_frame]. fr_source f = WebSocket" by (simp add: sample_kraken_reads(3))
  from kraken_history_replays [OF h this] h show ?thesis by blast
qed

end
