(* ===== verification/Metrics.thy ===== *)
theory Metrics
  imports Events Ordered_Map
begin

text \<open>
  Counters (\<open>ma-pipeline/src/metrics.rs\<close>). The atomics are relaxed and only ever incremented, so
  a counter is the 64-bit word it holds (\<open>fetch_add\<close> wraps) and a bump is one step; the snapshot
  type has the same fields. Rates are floats: the float operations are a parameter.
\<close>

record venue_counters =
  vc_frames :: u64
  vc_bytes :: u64
  vc_connects :: u64
  vc_disconnects :: u64
  vc_connect_failures :: u64
  vc_idle_timeouts :: u64
  vc_dropped :: u64
  vc_rest_fetches :: u64
  vc_rest_failures :: u64
  vc_audit_fetches :: u64
  vc_audit_failures :: u64
  vc_parse_errors :: u64
  vc_heartbeats :: u64
  vc_trades :: u64
  vc_desyncs :: u64
  vc_applied :: u64

definition counters_default :: venue_counters where
  "counters_default = \<lparr> vc_frames = 0, vc_bytes = 0, vc_connects = 0, vc_disconnects = 0,
     vc_connect_failures = 0, vc_idle_timeouts = 0, vc_dropped = 0, vc_rest_fetches = 0,
     vc_rest_failures = 0, vc_audit_fetches = 0, vc_audit_failures = 0, vc_parse_errors = 0,
     vc_heartbeats = 0, vc_trades = 0, vc_desyncs = 0, vc_applied = 0 \<rparr>"

text \<open>The methods the macro \<open>counter!\<close> generates.\<close>

datatype counter = Connects | Disconnects | ConnectFailures | IdleTimeouts | Dropped
  | RestFetches | RestFailures | AuditFetches | AuditFailures | ParseErrors | Heartbeats
  | Trades | Desyncs | Applied

fun bump :: "counter \<Rightarrow> venue_counters \<Rightarrow> venue_counters" where
  "bump Connects c = c\<lparr> vc_connects := vc_connects c + 1 \<rparr>"
| "bump Disconnects c = c\<lparr> vc_disconnects := vc_disconnects c + 1 \<rparr>"
| "bump ConnectFailures c = c\<lparr> vc_connect_failures := vc_connect_failures c + 1 \<rparr>"
| "bump IdleTimeouts c = c\<lparr> vc_idle_timeouts := vc_idle_timeouts c + 1 \<rparr>"
| "bump Dropped c = c\<lparr> vc_dropped := vc_dropped c + 1 \<rparr>"
| "bump RestFetches c = c\<lparr> vc_rest_fetches := vc_rest_fetches c + 1 \<rparr>"
| "bump RestFailures c = c\<lparr> vc_rest_failures := vc_rest_failures c + 1 \<rparr>"
| "bump AuditFetches c = c\<lparr> vc_audit_fetches := vc_audit_fetches c + 1 \<rparr>"
| "bump AuditFailures c = c\<lparr> vc_audit_failures := vc_audit_failures c + 1 \<rparr>"
| "bump ParseErrors c = c\<lparr> vc_parse_errors := vc_parse_errors c + 1 \<rparr>"
| "bump Heartbeats c = c\<lparr> vc_heartbeats := vc_heartbeats c + 1 \<rparr>"
| "bump Trades c = c\<lparr> vc_trades := vc_trades c + 1 \<rparr>"
| "bump Desyncs c = c\<lparr> vc_desyncs := vc_desyncs c + 1 \<rparr>"
| "bump Applied c = c\<lparr> vc_applied := vc_applied c + 1 \<rparr>"

definition record_frame :: "nat \<Rightarrow> venue_counters \<Rightarrow> venue_counters" where
  "record_frame bytes c = c\<lparr> vc_frames := vc_frames c + 1, vc_bytes := vc_bytes c + of_nat (sat_u64 bytes) \<rparr>"

definition counters_snapshot :: "venue_counters \<Rightarrow> venue_counters" where
  "counters_snapshot c = c"

definition counters_reconnects :: "venue_counters \<Rightarrow> u64" where
  "counters_reconnects c = (if vc_connects c = 0 then 0 else vc_connects c - 1)"

record 'f float_ops =
  fl_zero :: 'f
  fl_secs :: "duration \<Rightarrow> 'f"
  fl_nonpos :: "'f \<Rightarrow> bool"
  fl_of_u64 :: "u64 \<Rightarrow> 'f"
  fl_div :: "'f \<Rightarrow> 'f \<Rightarrow> 'f"

record 'f rates =
  ra_frames_per_sec :: 'f
  ra_bytes_per_sec :: 'f
  ra_drops_per_sec :: 'f
  ra_over_secs :: 'f

definition word_saturating_sub :: "u64 \<Rightarrow> u64 \<Rightarrow> u64" where
  "word_saturating_sub b a = (if a \<le> b then b - a else 0)"

definition rates_between ::
  "'f float_ops \<Rightarrow> venue_counters \<Rightarrow> venue_counters \<Rightarrow> duration \<Rightarrow> 'f rates" where
  "rates_between F earlier later interval =
     (let secs = fl_secs F interval;
          per_sec = (\<lambda>a b. fl_div F (fl_of_u64 F (word_saturating_sub b a)) secs)
      in if fl_nonpos F secs
         then \<lparr> ra_frames_per_sec = fl_zero F, ra_bytes_per_sec = fl_zero F,
                ra_drops_per_sec = fl_zero F, ra_over_secs = fl_zero F \<rparr>
         else \<lparr> ra_frames_per_sec = per_sec (vc_frames earlier) (vc_frames later),
                ra_bytes_per_sec = per_sec (vc_bytes earlier) (vc_bytes later),
                ra_drops_per_sec = per_sec (vc_dropped earlier) (vc_dropped later),
                ra_over_secs = secs \<rparr>)"

type_synonym metrics = "(stream_id \<times> venue_counters) list"

definition metrics_new :: "stream_id list \<Rightarrow> metrics" where
  "metrics_new streams = om_collect id (map (\<lambda>s. (s, counters_default)) streams)"

definition metrics_stream :: "stream_id \<Rightarrow> metrics \<Rightarrow> venue_counters option" where
  "metrics_stream s m = om_get id s m"

definition metrics_snapshot :: "metrics \<Rightarrow> metrics" where
  "metrics_snapshot m = map (\<lambda>(s, c). (s, counters_snapshot c)) m"

definition metrics_streams :: "metrics \<Rightarrow> stream_id list" where
  "metrics_streams m = map fst m"

lemma bump_commute [simp]:
  "vc_parse_errors (bump Applied c) = vc_parse_errors c" "vc_desyncs (bump Applied c) = vc_desyncs c"
  "vc_desyncs (bump Heartbeats c) = vc_desyncs c" "vc_desyncs (bump Trades c) = vc_desyncs c"
  "vc_desyncs (bump ParseErrors c) = vc_desyncs c"
  by simp_all

end
