(* ===== verification/Aggregator.thy ===== *)
theory Aggregator
  imports Venues Cross_Windows Channel Backoff Metrics
begin

text \<open>
  The aggregator (\<open>ma-pipeline/src/aggregator.rs\<close>): the one task that owns every book. It applies
  the messages of the ingest tasks (\<open>IngestMessage\<close> of \<open>ma-pipeline/src/ingest.rs\<close>), keeps the
  desync accounting and the rolling windows of each stream, asks for resyncs, tees events to the
  archive, and publishes snapshots. A stream's venue is the record of its methods (\<open>dyn
  VenueSync\<close>) over a common type \<open>'s\<close> of states.
\<close>

section \<open>Messages\<close>

datatype session_end = ConnectFailed | SessionClosed | SessionErrored | Idle | ResyncRequested | Downstream | Stopped

fun should_retry :: "session_end \<Rightarrow> bool" where
  "should_retry Downstream = False"
| "should_retry Stopped = False"
| "should_retry _ = True"

datatype 'd ingest_message =
    FrameMessage raw_frame
  | EventMessage stream_id "'d market_event"
  | SessionEnded stream_id ingest_time session_end

fun message_stream :: "'d ingest_message \<Rightarrow> stream_id" where
  "message_stream (FrameMessage f) = fr_stream f"
| "message_stream (EventMessage s _) = s"
| "message_stream (SessionEnded s _ _) = s"

definition message_venue :: "'d ingest_message \<Rightarrow> venue_id" where
  "message_venue m = sid_venue (message_stream m)"

section \<open>The state of a stream\<close>

datatype book_status = StatusUninitialized | StatusLive | StatusDesynced

record ('d, 's) venue_state =
  vt_ops :: "('d, 's) venue_ops"
  vt_book :: "('d, 's) venue_book"
  vt_counters :: venue_counters
  vt_previous :: venue_counters
  vt_desynced_total :: duration
  vt_desynced_since :: "ingest_time option"
  vt_status_since :: ingest_time
  vt_windows :: "'d rolling_windows"
  vt_last_trade :: "('d \<times> 'd \<times> side option \<times> ingest_time) option"

abbreviation vt_state :: "('d, 's) venue_state \<Rightarrow> 'd book_state" where
  "vt_state st \<equiv> bk_state (vb_book (vt_book st))"

definition sample_windows ::
  "('d, 'z) decimal_ops_scheme \<Rightarrow> ingest_time \<Rightarrow> ('d, 's) venue_state \<Rightarrow> ('d, 's) venue_state" where
  "sample_windows D now st =
     st\<lparr> vt_windows := window_observe D (vt_windows st) (top_of_book (vb_book (vt_book st)) now) now \<rparr>"

definition status_of :: "('d, 's) venue_state \<Rightarrow> book_status" where
  "status_of st = (case vt_state st of Uninitialized \<Rightarrow> StatusUninitialized
     | Live _ _ _ \<Rightarrow> StatusLive | Desynced _ _ \<Rightarrow> StatusDesynced)"

fun is_desynced :: "'d book_state \<Rightarrow> bool" where
  "is_desynced (Desynced _ _) = True"
| "is_desynced _ = False"

definition note_transition ::
  "'d book_state \<Rightarrow> 'd book_state \<Rightarrow> ingest_time \<Rightarrow> ('d, 's) venue_state \<Rightarrow> ('d, 's) venue_state" where
  "note_transition before after now st =
     (let st = (case (is_desynced before, is_desynced after) of
          (False, True) \<Rightarrow> st\<lparr> vt_desynced_since := Some now, vt_counters := bump Desyncs (vt_counters st) \<rparr>
        | (True, False) \<Rightarrow>
            (case vt_desynced_since st of
               None \<Rightarrow> st
             | Some start \<Rightarrow> st\<lparr> vt_desynced_since := None,
                                vt_desynced_total := vt_desynced_total st + since now start \<rparr>)
        | _ \<Rightarrow> st)
      in st\<lparr> vt_status_since := now \<rparr>)"

definition desynced_total :: "ingest_time \<Rightarrow> ('d, 's) venue_state \<Rightarrow> duration" where
  "desynced_total now st = (case vt_desynced_since st of
     Some start \<Rightarrow> vt_desynced_total st + since now start
   | None \<Rightarrow> vt_desynced_total st)"

section \<open>The aggregator\<close>

definition default_tick :: duration where "default_tick = from_millis 250"
definition broadcast_capacity :: nat where "broadcast_capacity = 32"
definition default_depth_levels :: nat where "default_depth_levels = 10"

text \<open>\<open>ag_events\<close> is what the archive was sent, when there is one; \<open>ag_owned\<close> the streams of this node.\<close>

record ('d, 's) aggregator =
  ag_streams :: "(stream_id \<times> ('d, 's) venue_state) list"
  ag_tick :: duration
  ag_depth_levels :: nat
  ag_seq :: u64
  ag_resync :: resync_requests
  ag_events :: "'d market_event list option"
  ag_window_spec :: window_spec
  ag_cross_max_age :: duration
  ag_owned :: "stream_id list option"

text \<open>The \<open>VenueState\<close> built for a venue, its state machine and a symbol.\<close>

definition venue_state_new ::
  "('d, 'z) decimal_ops_scheme \<Rightarrow> ('d, 's) venue_ops \<Rightarrow> 's \<Rightarrow> symbol \<Rightarrow> nat option \<Rightarrow> window_spec
     \<Rightarrow> metrics \<Rightarrow> ingest_time \<Rightarrow> ('d, 's) venue_state" where
  "venue_state_new D V s symbol max_depth spec metrics now =
     (let vb = venue_book_new V s symbol;
          vb = (case max_depth of None \<Rightarrow> vb | Some depth \<Rightarrow> venue_book_with_max_depth vb depth)
      in \<lparr> vt_ops = V, vt_book = vb,
           vt_counters = (case metrics_stream (StreamId (vs_venue V) symbol) metrics of
              None \<Rightarrow> counters_default | Some c \<Rightarrow> c),
           vt_previous = counters_default, vt_desynced_total = 0, vt_desynced_since = None,
           vt_status_since = now, vt_windows = rolling_windows_new D spec now, vt_last_trade = None \<rparr>)"

definition with_window_spec ::
  "('d, 'z) decimal_ops_scheme \<Rightarrow> (('d, 's) venue_ops \<times> 's \<times> symbol \<times> nat option) list \<Rightarrow> ingest_time
     \<Rightarrow> metrics \<Rightarrow> window_spec \<Rightarrow> ('d, 's) aggregator" where
  "with_window_spec D specs now metrics spec =
     \<lparr> ag_streams = om_collect id (map (\<lambda>(V, s, symbol, max_depth).
         (StreamId (vs_venue V) symbol, venue_state_new D V s symbol max_depth spec metrics now)) specs),
       ag_tick = default_tick, ag_depth_levels = default_depth_levels, ag_seq = 0,
       ag_resync = resync_new [], ag_events = None, ag_window_spec = spec,
       ag_cross_max_age = cross_policy_default_max_age, ag_owned = None \<rparr>"

definition aggregator_new ::
  "('d, 'z) decimal_ops_scheme \<Rightarrow> (('d, 's) venue_ops \<times> 's \<times> symbol \<times> nat option) list \<Rightarrow> ingest_time
     \<Rightarrow> metrics \<Rightarrow> ('d, 's) aggregator" where
  "aggregator_new D specs now metrics = with_window_spec D specs now metrics window_spec_default"

definition restricted_to :: "('d, 's) aggregator \<Rightarrow> stream_id list \<Rightarrow> ('d, 's) aggregator" where
  "restricted_to a owned = a\<lparr> ag_owned := Some owned \<rparr>"

definition with_cross_policy :: "('d, 's) aggregator \<Rightarrow> duration \<Rightarrow> ('d, 's) aggregator" where
  "with_cross_policy a max_age = a\<lparr> ag_cross_max_age := max_age \<rparr>"

definition publishing_events_to :: "('d, 's) aggregator \<Rightarrow> ('d, 's) aggregator" where
  "publishing_events_to a = a\<lparr> ag_events := Some [] \<rparr>"

definition with_depth_levels :: "('d, 's) aggregator \<Rightarrow> nat \<Rightarrow> ('d, 's) aggregator" where
  "with_depth_levels a levels = a\<lparr> ag_depth_levels := levels \<rparr>"

definition requesting_resync_through :: "('d, 's) aggregator \<Rightarrow> resync_requests \<Rightarrow> ('d, 's) aggregator" where
  "requesting_resync_through a r = a\<lparr> ag_resync := r \<rparr>"

definition with_tick :: "('d, 's) aggregator \<Rightarrow> duration \<Rightarrow> ('d, 's) aggregator" where
  "with_tick a tick = a\<lparr> ag_tick := tick \<rparr>"

section \<open>Applying a message\<close>

text \<open>The body of the loop over the outcomes.\<close>

definition take_outcome ::
  "('d, 'z) decimal_ops_scheme \<Rightarrow> ('d, 's) venue_state \<times> 'd market_event list option \<Rightarrow> 'd outcome
     \<Rightarrow> ('d, 's) venue_state \<times> 'd market_event list option" where
  "take_outcome D acc out = (case acc of (st, sink) \<Rightarrow>
     (case out of
        StateChanged _ _ \<Rightarrow> (st, sink)
      | Event ev \<Rightarrow>
          ((case ev_kind ev of
              Heartbeat _ \<Rightarrow> st\<lparr> vt_counters := bump Heartbeats (vt_counters st) \<rparr>
            | Trade price qty taker_side \<Rightarrow>
                st\<lparr> vt_counters := bump Trades (vt_counters st),
                    vt_last_trade := Some (price, qty, taker_side, ev_ingest_ts ev),
                    vt_windows := observe_trade D (vt_windows st) price qty (ev_ingest_ts ev) \<rparr>
            | _ \<Rightarrow> st),
           map_option (\<lambda>sent. sent @ [ev]) sink)))"

text \<open>Whether a transition asks for a fresh stream.\<close>

definition wants_resync :: "'d book_state \<Rightarrow> 'd book_state \<Rightarrow> bool" where
  "wants_resync before after = (case after of
     Desynced _ reason \<Rightarrow> \<not> is_desynced before \<and> needs_fresh_stream reason
   | _ \<Rightarrow> False)"

text \<open>What follows the match on the message.\<close>

definition settle ::
  "('d, 'z) decimal_ops_scheme \<Rightarrow> stream_id \<Rightarrow> 'd book_state \<Rightarrow> 'd outcome list \<Rightarrow> ingest_time
     \<Rightarrow> ('d, 's) venue_state \<Rightarrow> resync_requests \<Rightarrow> 'd market_event list option
     \<Rightarrow> ('d, 's) venue_state \<times> resync_requests \<times> 'd market_event list option" where
  "settle D stream before outcomes now st resync sink =
     (let after = vt_state st;
          (st, resync) =
            (if same_status D before after then (st, resync)
             else (note_transition before after now st,
                   if wants_resync before after then snd (request stream resync) else resync));
          (st, sink) = foldl (take_outcome D) (st, sink) outcomes
      in (sample_windows D now st, resync, sink))"

definition apply_to_stream ::
  "('d, 'z) decimal_ops_scheme \<Rightarrow> 'd ingest_message \<Rightarrow> ('d, 's) venue_state \<Rightarrow> resync_requests
     \<Rightarrow> 'd market_event list option
     \<Rightarrow> (('d, 's) venue_state \<times> resync_requests \<times> 'd market_event list option) rust" where
  "apply_to_stream D message st resync sink =
     (let st = st\<lparr> vt_counters := bump Applied (vt_counters st) \<rparr>; before = vt_state st in
      case message of
        FrameMessage frame \<Rightarrow>
          (case feed D (vt_ops st) (vt_book st) frame of
             Panicked \<Rightarrow> Panicked
           | Returned (Inr outcomes, vb) \<Rightarrow>
               Returned (settle D (fr_stream frame) before outcomes (fr_ingest_ts frame)
                 (st\<lparr> vt_book := vb \<rparr>) resync sink)
           | Returned (Inl e, vb) \<Rightarrow>
               Returned (sample_windows D (fr_ingest_ts frame)
                 (st\<lparr> vt_book := vb, vt_counters := bump ParseErrors (vt_counters st) \<rparr>), resync, sink))
      | EventMessage stream ev \<Rightarrow>
          (case apply_event D (vt_ops st) (vt_book st) ev (ev_ingest_ts ev) of
             (outcomes, vb) \<Rightarrow>
               Returned (settle D stream before outcomes (ev_ingest_ts ev) (st\<lparr> vt_book := vb \<rparr>) resync sink))
      | SessionEnded stream now end_reason \<Rightarrow>
          (let st = st\<lparr> vt_book := venue_book_reset (vt_ops st) (vt_book st) now \<rparr>;
               after = vt_state st;
               st = (if same_status D before after then st else note_transition before after now st)
           in Returned (sample_windows D now st, resync, sink)))"

definition aggregator_apply ::
  "('d, 'z) decimal_ops_scheme \<Rightarrow> 'd ingest_message \<Rightarrow> ('d, 's) aggregator \<Rightarrow> ('d, 's) aggregator rust" where
  "aggregator_apply D message a =
     (case om_get id (message_stream message) (ag_streams a) of
        None \<Rightarrow> Returned a
      | Some st \<Rightarrow>
          (case apply_to_stream D message st (ag_resync a) (ag_events a) of
             Panicked \<Rightarrow> Panicked
           | Returned (st, resync, sink) \<Rightarrow>
               Returned (a\<lparr> ag_streams := om_insert id (message_stream message) st (ag_streams a),
                            ag_resync := resync, ag_events := sink \<rparr>)))"

text \<open>The batch at the top of every turn of \<open>run\<close>: everything queued is applied, in order.\<close>

function drain ::
  "('d, 'z) decimal_ops_scheme \<Rightarrow> 'd ingest_message channel \<Rightarrow> ('d, 's) aggregator
     \<Rightarrow> ('d ingest_message channel \<times> ('d, 's) aggregator) rust" where
  "drain D rx a =
     (case try_recv rx of
        (None, rx) \<Rightarrow> Returned (rx, a)
      | (Some message, rx) \<Rightarrow>
          (case aggregator_apply D message a of
             Panicked \<Rightarrow> Panicked
           | Returned a \<Rightarrow> drain D rx a))"
  by pat_completeness auto
termination
  by (relation "measure (\<lambda>(D, rx, a). length (ch_queue rx))")
    (auto simp: try_recv_def pop_def split: list.splits)

declare drain.simps [simp del]

end
