(* ===== verification/Aggregating.thy ===== *)
theory Aggregating
  imports Aggregator
begin

text \<open>
  What the aggregator guarantees: streams are isolated, the archive gets the events of the live
  books, the time a book spends desynced is accounted exactly, and which transitions ask for a
  fresh stream.
\<close>

section \<open>What a message leaves alone\<close>

fun message_time :: "'d ingest_message \<Rightarrow> ingest_time" where
  "message_time (FrameMessage f) = fr_ingest_ts f"
| "message_time (EventMessage _ ev) = ev_ingest_ts ev"
| "message_time (SessionEnded _ t _) = t"

lemma sample_windows_fields [simp]:
  "vt_book (sample_windows D t st) = vt_book st" "vt_ops (sample_windows D t st) = vt_ops st"
  "vt_desynced_since (sample_windows D t st) = vt_desynced_since st"
  "vt_desynced_total (sample_windows D t st) = vt_desynced_total st"
  "vt_counters (sample_windows D t st) = vt_counters st"
  "vt_status_since (sample_windows D t st) = vt_status_since st"
  by (simp_all add: sample_windows_def)

lemma note_transition_fields [simp]:
  "vt_book (note_transition b c t st) = vt_book st" "vt_ops (note_transition b c t st) = vt_ops st"
  by (simp_all add: note_transition_def Let_def split: bool.split option.split)

lemma desyncs_take_outcome:
  "vc_desyncs (vt_counters (fst (take_outcome D acc out))) = vc_desyncs (vt_counters (fst acc))"
  "vt_book (fst (take_outcome D acc out)) = vt_book (fst acc)"
  "vt_ops (fst (take_outcome D acc out)) = vt_ops (fst acc)"
  "vt_desynced_since (fst (take_outcome D acc out)) = vt_desynced_since (fst acc)"
  "vt_desynced_total (fst (take_outcome D acc out)) = vt_desynced_total (fst acc)"
  by (simp_all add: take_outcome_def split: prod.split outcome.split event_kind.split)

lemma fold_outcomes [simp]:
  "vc_desyncs (vt_counters (fst (foldl (take_outcome D) acc outs))) = vc_desyncs (vt_counters (fst acc))"
  "vt_book (fst (foldl (take_outcome D) acc outs)) = vt_book (fst acc)"
  "vt_ops (fst (foldl (take_outcome D) acc outs)) = vt_ops (fst acc)"
  "vt_desynced_since (fst (foldl (take_outcome D) acc outs)) = vt_desynced_since (fst acc)"
  "vt_desynced_total (fst (foldl (take_outcome D) acc outs)) = vt_desynced_total (fst acc)"
  by (induction outs arbitrary: acc) (simp_all add: desyncs_take_outcome)

lemma fold_outcomes_sink:
  "snd (foldl (take_outcome D) acc outs) = map_option (\<lambda>sent. sent @ events_of (Inr outs)) (snd acc)"
proof (induction outs arbitrary: acc)
  case (Cons out outs)
  have "snd (take_outcome D acc out) = map_option (\<lambda>sent. sent @ events_of (Inr [out])) (snd acc)"
    by (cases acc; cases out; cases "snd acc") (simp_all add: take_outcome_def List.map_filter_def)
  with Cons.IH [of "take_outcome D acc out"] show ?case
    by (cases "snd acc"; cases out) (simp_all add: List.map_filter_def)
qed (simp add: List.map_filter_def option.map_id0 [unfolded id_def])

text \<open>The status a transition compares decides whether a book is desynced.\<close>

lemma same_status_desynced: "same_status D a b \<Longrightarrow> is_desynced a = is_desynced b"
  by (cases a; cases b) auto

lemma wants_resync_moves: "wants_resync a b \<Longrightarrow> \<not> same_status D a b"
  using same_status_desynced [of D a b] by (auto simp: wants_resync_def split: book_state.splits)

section \<open>One message, one account\<close>

definition moved ::
  "('d, 'z) decimal_ops_scheme \<Rightarrow> 'd book_state \<Rightarrow> 'd book_state \<Rightarrow> ingest_time \<Rightarrow> ('d, 's) venue_state
     \<Rightarrow> ('d, 's) venue_state" where
  "moved D before after now st = (if same_status D before after then st else note_transition before after now st)"

lemma settle_parts:
  assumes "settle D stream before outs now st resync sink = (st', resync', sink')"
  shows "vt_book st' = vt_book st" "vt_ops st' = vt_ops st"
    "vt_desynced_since st' = vt_desynced_since (moved D before (vt_state st) now st)"
    "vt_desynced_total st' = vt_desynced_total (moved D before (vt_state st) now st)"
    "vc_desyncs (vt_counters st') = vc_desyncs (vt_counters (moved D before (vt_state st) now st))"
    "resync' = (if wants_resync before (vt_state st) then snd (request stream resync) else resync)"
    "sink' = map_option (\<lambda>sent. sent @ events_of (Inr outs)) sink"
proof -
  let ?m = "moved D before (vt_state st) now st"
  have eq: "settle D stream before outs now st resync sink
    = (sample_windows D now (fst (foldl (take_outcome D) (?m, sink) outs)),
       if wants_resync before (vt_state st) then snd (request stream resync) else resync,
       snd (foldl (take_outcome D) (?m, sink) outs))"
    using wants_resync_moves [of before "vt_state st" D]
    by (simp add: settle_def moved_def Let_def case_prod_beta)
  have b: "vt_book ?m = vt_book st" "vt_ops ?m = vt_ops st" by (simp_all add: moved_def)
  show "vt_book st' = vt_book st" "vt_ops st' = vt_ops st"
    "vt_desynced_since st' = vt_desynced_since ?m" "vt_desynced_total st' = vt_desynced_total ?m"
    "vc_desyncs (vt_counters st') = vc_desyncs (vt_counters ?m)"
    "resync' = (if wants_resync before (vt_state st) then snd (request stream resync) else resync)"
    "sink' = map_option (\<lambda>sent. sent @ events_of (Inr outs)) sink"
    using assms [unfolded eq] b by (auto simp: fold_outcomes_sink)
qed

text \<open>The events a message hands on.\<close>

definition events_from ::
  "('d, 'z) decimal_ops_scheme \<Rightarrow> ('d, 's) venue_state \<Rightarrow> 'd ingest_message \<Rightarrow> 'd market_event list" where
  "events_from D st m = (case m of
     FrameMessage f \<Rightarrow> (case feed D (vt_ops st) (vt_book st) f of Returned (r, _) \<Rightarrow> events_of r | Panicked \<Rightarrow> [])
   | EventMessage _ ev \<Rightarrow> events_of (Inr (fst (apply_event D (vt_ops st) (vt_book st) ev (ev_ingest_ts ev))))
   | SessionEnded _ _ _ \<Rightarrow> [])"

fun ends_session :: "'d ingest_message \<Rightarrow> bool" where
  "ends_session (SessionEnded _ _ _) = True"
| "ends_session _ = False"

lemma moved_refl: "is_desynced a = is_desynced b \<Longrightarrow>
    vt_desynced_since (moved D a b t st) = vt_desynced_since st
    \<and> vt_desynced_total (moved D a b t st) = vt_desynced_total st
    \<and> vc_desyncs (vt_counters (moved D a b t st)) = vc_desyncs (vt_counters st)"
  by (cases "is_desynced a") (auto simp: moved_def note_transition_def Let_def)

lemma moved_fields [simp]:
  "vt_desynced_since (moved D a b t (st\<lparr> vt_counters := c, vt_book := vb \<rparr>)) = vt_desynced_since (moved D a b t st)"
  "vt_desynced_total (moved D a b t (st\<lparr> vt_counters := c, vt_book := vb \<rparr>)) = vt_desynced_total (moved D a b t st)"
  by (simp_all add: moved_def note_transition_def Let_def split: bool.split option.split)

lemma moved_desyncs:
  "vc_desyncs c = vc_desyncs (vt_counters st) \<Longrightarrow>
   vc_desyncs (vt_counters (moved D a b t (st\<lparr> vt_counters := c, vt_book := vb \<rparr>)))
     = vc_desyncs (vt_counters (moved D a b t st))"
  by (simp add: moved_def note_transition_def Let_def split: bool.split option.split)

abbreviation counted :: "('d, 's) venue_state \<Rightarrow> ('d, 's) venue_book \<Rightarrow> ('d, 's) venue_state" where
  "counted st vb \<equiv> st\<lparr> vt_counters := bump Applied (vt_counters st), vt_book := vb \<rparr>"

text \<open>The three ways a message is applied.\<close>

lemma apply_cases:
  assumes "apply_to_stream D m st resync sink = Returned (st', resync', sink')"
  obtains (settled) vb outs where "settle D (message_stream m) (vt_state st) outs (message_time m) (counted st vb)
          resync sink = (st', resync', sink')"
      and "\<not> ends_session m" and "events_from D st m = events_of (Inr outs)"
    | (failed) s where "events_from D st m = []"
        and "st' = sample_windows D (message_time m) (counted st ((vt_book st)\<lparr> vb_sync := s \<rparr>)
               \<lparr> vt_counters := bump ParseErrors (bump Applied (vt_counters st)) \<rparr>)"
        and "resync' = resync" and "sink' = sink"
    | (ended) vb where "ends_session m" and "vb = venue_book_reset (vt_ops st) (vt_book st) (message_time m)"
        and "st' = sample_windows D (message_time m)
               (moved D (vt_state st) (vt_state (counted st vb)) (message_time m) (counted st vb))"
        and "resync' = resync" and "sink' = sink" and "events_from D st m = []"
proof (cases m)
  case (FrameMessage f)
  obtain r vb where fd: "feed D (vt_ops st) (vt_book st) f = Returned (r, vb)"
    using assms FrameMessage by (auto simp: apply_to_stream_def Let_def split: rust.splits)
  show thesis
  proof (cases r)
    case (Inl e)
    then obtain s where "vb = (vt_book st)\<lparr> vb_sync := s \<rparr>"
      using fd by (metis feed_cases Inl_Inr_False)
    with Inl fd assms FrameMessage show thesis
      by (intro failed [of s]) (auto simp: apply_to_stream_def Let_def events_from_def)
  next
    case (Inr outs)
    with fd assms FrameMessage show thesis
      by (intro settled [of outs vb]) (auto simp: apply_to_stream_def Let_def events_from_def)
  qed
next
  case (EventMessage s ev)
  with assms show thesis
    by (intro settled [of "fst (apply_event D (vt_ops st) (vt_book st) ev (ev_ingest_ts ev))"
          "snd (apply_event D (vt_ops st) (vt_book st) ev (ev_ingest_ts ev))"])
      (auto simp: apply_to_stream_def Let_def case_prod_beta events_from_def)
next
  case (SessionEnded s t e)
  with assms show thesis
    by (intro ended [OF _ refl]) (auto simp: apply_to_stream_def Let_def events_from_def moved_def)
qed

lemma bump_desyncs [simp]:
  "vc_desyncs (bump Applied c) = vc_desyncs c" "vc_desyncs (bump ParseErrors c) = vc_desyncs c"
  by simp_all

lemma moved_book [simp]: "vt_book (moved D a b t st) = vt_book st" "vt_ops (moved D a b t st) = vt_ops st"
  by (simp_all add: moved_def)

lemma same_status_refl [simp]: "same_status D a a"
  by (cases a) auto

lemma moved_self [simp]: "moved D a a t st = st"
  by (simp add: moved_def)

lemma applied_parts:
  assumes "apply_to_stream D m st resync sink = Returned (st', resync', sink')"
  shows "vt_ops st' = vt_ops st"
    "vt_desynced_since st' = vt_desynced_since (moved D (vt_state st) (vt_state st') (message_time m) st)"
    "vt_desynced_total st' = vt_desynced_total (moved D (vt_state st) (vt_state st') (message_time m) st)"
    "vc_desyncs (vt_counters st') = vc_desyncs (vt_counters (moved D (vt_state st) (vt_state st') (message_time m) st))"
    "resync' = (if \<not> ends_session m \<and> wants_resync (vt_state st) (vt_state st')
        then snd (request (message_stream m) resync) else resync)"
    "sink' = map_option (\<lambda>sent. sent @ events_from D st m) sink"
proof -
  have "vt_ops st' = vt_ops st
    \<and> vt_desynced_since st' = vt_desynced_since (moved D (vt_state st) (vt_state st') (message_time m) st)
    \<and> vt_desynced_total st' = vt_desynced_total (moved D (vt_state st) (vt_state st') (message_time m) st)
    \<and> vc_desyncs (vt_counters st') = vc_desyncs (vt_counters (moved D (vt_state st) (vt_state st') (message_time m) st))
    \<and> resync' = (if \<not> ends_session m \<and> wants_resync (vt_state st) (vt_state st')
        then snd (request (message_stream m) resync) else resync)
    \<and> sink' = map_option (\<lambda>sent. sent @ events_from D st m) sink"
    using assms
  proof (cases rule: apply_cases)
    case (settled vb outs)
    note parts = settle_parts [OF settled(1)]
    show ?thesis
      using parts settled(2,3) by (simp add: moved_desyncs)
  next
    case (failed s)
    then show ?thesis
      by (simp add: wants_resync_def option.map_id0 [unfolded id_def] split: book_state.split)
  next
    case (ended vb)
    then show ?thesis
      by (simp add: moved_desyncs option.map_id0 [unfolded id_def])
  qed
  then show "vt_ops st' = vt_ops st"
    "vt_desynced_since st' = vt_desynced_since (moved D (vt_state st) (vt_state st') (message_time m) st)"
    "vt_desynced_total st' = vt_desynced_total (moved D (vt_state st) (vt_state st') (message_time m) st)"
    "vc_desyncs (vt_counters st') = vc_desyncs (vt_counters (moved D (vt_state st) (vt_state st') (message_time m) st))"
    "resync' = (if \<not> ends_session m \<and> wants_resync (vt_state st) (vt_state st')
        then snd (request (message_stream m) resync) else resync)"
    "sink' = map_option (\<lambda>sent. sent @ events_from D st m) sink"
    by blast+
qed

section \<open>A run of messages\<close>

fun apply_all ::
  "('d, 'z) decimal_ops_scheme \<Rightarrow> 'd ingest_message list \<Rightarrow> ('d, 's) aggregator \<Rightarrow> ('d, 's) aggregator rust" where
  "apply_all D [] a = Returned a"
| "apply_all D (m # ms) a = (case aggregator_apply D m a of Panicked \<Rightarrow> Panicked | Returned a' \<Rightarrow> apply_all D ms a')"

definition stream_state :: "stream_id \<Rightarrow> ('d, 's) aggregator \<Rightarrow> ('d, 's) venue_state option" where
  "stream_state s a = om_get id s (ag_streams a)"

lemma aggregator_apply_cases:
  assumes "aggregator_apply D m a = Returned a'"
  obtains (untracked) "stream_state (message_stream m) a = None" and "a' = a"
    | (tracked) st st' where "stream_state (message_stream m) a = Some st"
        and "apply_to_stream D m st (ag_resync a) (ag_events a) = Returned (st', ag_resync a', ag_events a')"
        and "\<And>s. stream_state s a' = (if s = message_stream m then Some st' else stream_state s a)"
        and "a' = a\<lparr> ag_streams := ag_streams a', ag_resync := ag_resync a', ag_events := ag_events a' \<rparr>"
  using assms by (fastforce simp: aggregator_apply_def stream_state_def split: option.splits rust.splits)

section \<open>The desync account\<close>

text \<open>
  The reference: what the stream's own messages say about trust, as a list of instants with
  whether the book was desynced from then on, and the time under distrust read off that list.
\<close>

definition stream_desynced :: "stream_id \<Rightarrow> ('d, 's) aggregator \<Rightarrow> bool" where
  "stream_desynced s a = (case stream_state s a of None \<Rightarrow> False | Some st \<Rightarrow> is_desynced (vt_state st))"

fun trust_log ::
  "('d, 'z) decimal_ops_scheme \<Rightarrow> stream_id \<Rightarrow> 'd ingest_message list \<Rightarrow> ('d, 's) aggregator
     \<Rightarrow> (instant \<times> bool) list" where
  "trust_log D s [] a = []"
| "trust_log D s (m # ms) a =
     (case aggregator_apply D m a of
        Panicked \<Rightarrow> []
      | Returned a' \<Rightarrow>
          (if message_stream m = s then [(mono_t (message_time m), stream_desynced s a')] else [])
            @ trust_log D s ms a')"

fun untrusted_time :: "instant \<Rightarrow> bool \<Rightarrow> (instant \<times> bool) list \<Rightarrow> instant \<Rightarrow> duration" where
  "untrusted_time t d [] now = (if d then now - t else 0)"
| "untrusted_time t d ((t', d') # rows) now = (if d then t' - t else 0) + untrusted_time t' d' rows now"

fun entries :: "bool \<Rightarrow> (instant \<times> bool) list \<Rightarrow> nat" where
  "entries d [] = 0"
| "entries d ((_, d') # rows) = (if \<not> d \<and> d' then 1 else 0) + entries d' rows"

text \<open>Times that never go back, from a start to an end.\<close>

fun steady :: "instant \<Rightarrow> instant list \<Rightarrow> instant \<Rightarrow> bool" where
  "steady t [] now = (t \<le> now)"
| "steady t (t' # ts) now = (t \<le> t' \<and> steady t' ts now)"

definition stream_times :: "stream_id \<Rightarrow> 'd ingest_message list \<Rightarrow> instant list" where
  "stream_times s ms = map (\<lambda>m. mono_t (message_time m)) (filter (\<lambda>m. message_stream m = s) ms)"

definition spent :: "('d, 's) venue_state \<Rightarrow> instant \<Rightarrow> duration" where
  "spent st t = vt_desynced_total st + (case vt_desynced_since st of None \<Rightarrow> 0 | Some start \<Rightarrow> t - mono_t start)"

definition accounted :: "('d, 's) venue_state \<Rightarrow> instant \<Rightarrow> bool" where
  "accounted st t = (case vt_desynced_since st of
     None \<Rightarrow> \<not> is_desynced (vt_state st) | Some start \<Rightarrow> is_desynced (vt_state st) \<and> mono_t start \<le> t)"

lemma desynced_total_spent: "desynced_total now st = spent st (mono_t now)"
  by (simp add: desynced_total_def spent_def since_def split: option.split)

lemma account_step:
  assumes "apply_to_stream D m st resync sink = Returned (st', resync', sink')"
    and "accounted st t" and "t \<le> mono_t (message_time m)"
  shows "accounted st' (mono_t (message_time m))"
    "spent st' (mono_t (message_time m))
       = spent st t + (if is_desynced (vt_state st) then mono_t (message_time m) - t else 0)"
    "vc_desyncs (vt_counters st') = vc_desyncs (vt_counters st)
       + (if \<not> is_desynced (vt_state st) \<and> is_desynced (vt_state st') then 1 else 0)"
proof -
  note parts = applied_parts [OF assms(1)]
  let ?a = "vt_state st" and ?b = "vt_state st'" and ?t = "message_time m"
  have same: "is_desynced ?a = is_desynced ?b" if "same_status D ?a ?b"
    using same_status_desynced [OF that] .
  have m: "moved D ?a ?b ?t st = (if same_status D ?a ?b then st else note_transition ?a ?b ?t st)"
    by (simp add: moved_def)
  show "accounted st' (mono_t ?t)"
    using assms(2,3) parts(2) same unfolding accounted_def m
    by (auto simp: note_transition_def Let_def split: option.splits bool.splits if_splits)
  show "spent st' (mono_t ?t) = spent st t + (if is_desynced ?a then mono_t ?t - t else 0)"
    using assms(2,3) parts(2,3) same unfolding accounted_def spent_def m
    by (auto simp: note_transition_def Let_def since_def split: option.splits bool.splits if_splits)
  show "vc_desyncs (vt_counters st') = vc_desyncs (vt_counters st)
       + (if \<not> is_desynced ?a \<and> is_desynced ?b then 1 else 0)"
    using assms(2) parts(4) same unfolding accounted_def m
    by (auto simp: note_transition_def Let_def split: option.splits bool.splits if_splits)
qed

lemma account_run:
  assumes "apply_all D ms a = Returned a'" and "stream_state s a = Some st"
    and "accounted st t" and "steady t (stream_times s ms) now"
  shows "\<exists>st'. stream_state s a' = Some st'
    \<and> spent st' now = spent st t + untrusted_time t (is_desynced (vt_state st)) (trust_log D s ms a) now
    \<and> vc_desyncs (vt_counters st') = vc_desyncs (vt_counters st)
        + of_nat (entries (is_desynced (vt_state st)) (trust_log D s ms a))
    \<and> accounted st' now"
  using assms
proof (induction ms arbitrary: a st t)
  case Nil
  then have "t \<le> now" by (simp add: stream_times_def)
  with Nil show ?case
    by (auto simp: spent_def accounted_def split: option.split)
next
  case (Cons m ms)
  from Cons.prems(1) obtain a1 where step: "aggregator_apply D m a = Returned a1"
    and rest: "apply_all D ms a1 = Returned a'" by (auto split: rust.splits)
  show ?case
  proof (cases "message_stream m = s")
    case False
    from step have "stream_state s a1 = Some st"
      using False Cons.prems(2) by (cases rule: aggregator_apply_cases) auto
    moreover from Cons.prems(4) False have "steady t (stream_times s ms) now" by (simp add: stream_times_def)
    ultimately show ?thesis using Cons.IH [OF rest _ Cons.prems(3)] step False by simp
  next
    case True
    let ?t = "mono_t (message_time m)"
    from Cons.prems(4) True have le: "t \<le> ?t" and steady: "steady ?t (stream_times s ms) now"
      by (simp_all add: stream_times_def)
    from step obtain st1 where ap: "apply_to_stream D m st (ag_resync a) (ag_events a)
        = Returned (st1, ag_resync a1, ag_events a1)" and st1: "stream_state s a1 = Some st1"
      using True Cons.prems(2) by (cases rule: aggregator_apply_cases) auto
    note acc = account_step [OF ap Cons.prems(3) le]
    from Cons.IH [OF rest st1 acc(1) steady] obtain st' where st': "stream_state s a' = Some st'"
      "spent st' now = spent st1 ?t + untrusted_time ?t (is_desynced (vt_state st1)) (trust_log D s ms a1) now"
      "vc_desyncs (vt_counters st') = vc_desyncs (vt_counters st1)
        + of_nat (entries (is_desynced (vt_state st1)) (trust_log D s ms a1))" "accounted st' now" by blast
    have "stream_desynced s a1 = is_desynced (vt_state st1)" by (simp add: stream_desynced_def st1)
    with st' acc(2,3) step True show ?thesis by (simp add: algebra_simps)
  qed
qed

lemma fresh_stream:
  assumes "stream_state s (with_window_spec D specs start metrics spec) = Some st"
  shows "vt_state st = Uninitialized" "vt_desynced_since st = None" "vt_desynced_total st = 0"
proof -
  have "(s, st) \<in> set (map (\<lambda>(V, s, symbol, max_depth).
         (StreamId (vs_venue V) symbol, venue_state_new D V s symbol max_depth spec metrics start)) specs)"
    using assms set_om_collect om_get_mem [of id s] unfolding stream_state_def with_window_spec_def by fastforce
  then show "vt_state st = Uninitialized" "vt_desynced_since st = None" "vt_desynced_total st = 0"
    by (auto simp: venue_state_new_def Let_def venue_book_new_def venue_book_with_max_depth_def new_book_def
        with_max_depth_def split: option.splits)
qed

text \<open>
  C27. The time a stream's book spends desynced is accounted exactly: after any run of messages whose
  times for the stream never go back, the published total is the sum of the intervals between the
  stream's messages over which its book was desynced, the counter has gone up once for each entry
  into distrust, and the stream is on the clock exactly while its book is desynced.
\<close>

theorem desynced_time_is_exact:
  assumes "apply_all D ms (with_window_spec D specs start metrics spec) = Returned a"
    and "stream_state s (with_window_spec D specs start metrics spec) = Some st0"
    and "steady (mono_t start) (stream_times s ms) (mono_t now)"
  shows "\<exists>st. stream_state s a = Some st
    \<and> desynced_total now st
        = untrusted_time (mono_t start) False (trust_log D s ms (with_window_spec D specs start metrics spec)) (mono_t now)
    \<and> vc_desyncs (vt_counters st) = vc_desyncs (vt_counters st0)
        + of_nat (entries False (trust_log D s ms (with_window_spec D specs start metrics spec)))
    \<and> (vt_desynced_since st \<noteq> None \<longleftrightarrow> is_desynced (vt_state st))"
proof -
  note fresh = fresh_stream [OF assms(2)]
  have "accounted st0 (mono_t start)" by (simp add: accounted_def fresh)
  from account_run [OF assms(1,2) this assms(3)] show ?thesis
    by (auto simp: desynced_total_spent fresh spent_def [of st0] accounted_def split: option.splits)
qed

section \<open>Requests for a fresh stream\<close>

text \<open>The requests a run makes for a stream, and where they come from.\<close>

lemma requested_request:
  "requested s (snd (request s' r)) = (if s = s' \<and> om_get id s r \<noteq> None then sat_u64 (requested s r + 1) else requested s r)"
  "om_get id s (snd (request s' r)) = None \<longleftrightarrow> om_get id s r = None"
  by (auto simp: requested_def request_def split: option.splits)

lemma unrequested: "request s' r = (h, r') \<Longrightarrow> s \<noteq> s' \<Longrightarrow> om_get id s r' = om_get id s r"
  by (auto simp: request_def split: option.splits)

text \<open>
  C29. A fresh stream is asked for exactly when the code means to. A message asks for its own stream,
  once, when the book was not desynced, is desynced after it, and for a reason only a new snapshot
  can repair, and the message was not the end of a session; it asks for no other stream, and it
  changes no other stream's state. A message for a stream that is not tracked changes nothing.
\<close>

theorem resync_requested_exactly:
  assumes "aggregator_apply D m a = Returned a'"
  shows "(\<forall>s. s \<noteq> message_stream m \<longrightarrow>
        stream_state s a' = stream_state s a \<and> om_get id s (ag_resync a') = om_get id s (ag_resync a))
    \<and> (stream_state (message_stream m) a = None \<longrightarrow> a' = a)
    \<and> (\<forall>st st'. stream_state (message_stream m) a = Some st \<longrightarrow> stream_state (message_stream m) a' = Some st' \<longrightarrow>
        om_get id (message_stream m) (ag_resync a) \<noteq> None \<longrightarrow>
        requested (message_stream m) (ag_resync a') =
          (if \<not> ends_session m \<and> \<not> is_desynced (vt_state st)
              \<and> (\<exists>t why. vt_state st' = Desynced t why \<and> needs_fresh_stream why)
           then sat_u64 (requested (message_stream m) (ag_resync a) + 1)
           else requested (message_stream m) (ag_resync a)))"
  using assms
proof (cases rule: aggregator_apply_cases)
  case (tracked st st')
  have "ag_resync a' = (if \<not> ends_session m \<and> wants_resync (vt_state st) (vt_state st')
      then snd (request (message_stream m) (ag_resync a)) else ag_resync a)"
    using applied_parts(5) [OF tracked(2)] .
  moreover have "wants_resync (vt_state st) (vt_state st') \<longleftrightarrow> \<not> is_desynced (vt_state st)
      \<and> (\<exists>t why. vt_state st' = Desynced t why \<and> needs_fresh_stream why)"
    by (auto simp: wants_resync_def split: book_state.splits)
  ultimately show ?thesis
    using tracked(1,3) unrequested [of "message_stream m" "ag_resync a"]
    by (auto simp: requested_request(1) prod_eq_iff)
qed auto

section \<open>The archive\<close>

definition book_of_stream :: "stream_id \<Rightarrow> ('d, 's) venue_state \<Rightarrow> bool" where
  "book_of_stream s st \<longleftrightarrow> bk_venue (vb_book (vt_book st)) = sid_venue s \<and> bk_symbol (vb_book (vt_book st)) = sid_symbol s"

definition books_placed :: "('d, 's) aggregator \<Rightarrow> bool" where
  "books_placed a \<longleftrightarrow> (\<forall>s st. stream_state s a = Some st \<longrightarrow> book_of_stream s st)"

definition event_stream :: "'d market_event \<Rightarrow> stream_id" where
  "event_stream ev = StreamId (ev_venue ev) (ev_symbol ev)"

lemma applied_book:
  assumes "apply_to_stream D m st resync sink = Returned (st', resync', sink')"
  shows "vt_book st' = (case m of
      FrameMessage f \<Rightarrow> (case feed D (vt_ops st) (vt_book st) f of Returned (_, vb) \<Rightarrow> vb | Panicked \<Rightarrow> vt_book st)
    | EventMessage _ ev \<Rightarrow> snd (apply_event D (vt_ops st) (vt_book st) ev (ev_ingest_ts ev))
    | SessionEnded _ t _ \<Rightarrow> venue_book_reset (vt_ops st) (vt_book st) t)"
  using assms
  by (auto simp: apply_to_stream_def Let_def case_prod_beta dest!: settle_parts(1)
      split: ingest_message.splits rust.splits sum.splits if_splits)

lemma feed_stream:
  assumes "feed D V vb f = Returned (r, vb')"
  shows "same_stream (vb_book vb') (vb_book vb)"
    "ev \<in> set (events_of r) \<Longrightarrow> ev_venue ev = bk_venue (vb_book vb) \<and> ev_symbol ev = bk_symbol (vb_book vb)"
proof -
  have actions: "same_stream (snd (apply_actions D V t ts now b as)) b" for t ts now b as
    using apply_actions_stream [of D V t ts now b as] by (cases "apply_actions D V t ts now b as") simp
  show "same_stream (vb_book vb') (vb_book vb)"
    using assms
  proof (cases rule: feed_cases)
    case (audited snapshot)
    with audit_book [of D vb snapshot "fr_ingest_ts f"] show ?thesis by auto
  qed (simp_all add: apply_ingested_parts actions)
  assume ev: "ev \<in> set (events_of r)"
  show "ev_venue ev = bk_venue (vb_book vb) \<and> ev_symbol ev = bk_symbol (vb_book vb)"
    using assms
  proof (cases rule: feed_cases)
    case (applied t ig)
    with ev have "ev \<in> set (fst (apply_actions D V t (ig_venue_ts ig) (fr_ingest_ts f) (vb_book vb) (ig_actions ig)))"
      by (simp add: events_of_applied del: events_of.simps)
    then show ?thesis by (metis apply_actions_events prod.collapse)
  next
    case (audited snapshot)
    with ev audit_outcomes [of D vb snapshot "fr_ingest_ts f"] show ?thesis
      by (auto simp: state_changed_def List.map_filter_def split: if_splits)
  qed (use ev in simp)
qed

lemma applied_placed:
  assumes "apply_to_stream D m st resync sink = Returned (st', resync', sink')"
    and "book_of_stream s st"
  shows "book_of_stream s st'" "ev \<in> set (events_from D st m) \<Longrightarrow> event_stream ev = s"
proof -
  have "same_stream (vb_book (vt_book st')) (vb_book (vt_book st))"
  proof (cases m)
    case (FrameMessage f)
    with applied_book [OF assms(1)] show ?thesis by (auto intro: feed_stream(1) split: rust.split prod.split)
  next
    case (EventMessage t e)
    with applied_book [OF assms(1)] show ?thesis
      using same_stream_action [of D "vt_ops st" "vb_sync (vt_book st)" "ev_ingest_ts e" "vb_book (vt_book st)"
          "action_of_kind (ev_kind e)"]
      by (auto simp: snd_apply_event prod_eq_iff)
  next
    case (SessionEnded t n e)
    with applied_book [OF assms(1)] show ?thesis by (simp add: venue_book_reset_def)
  qed
  with assms(2) show "book_of_stream s st'" by (simp add: book_of_stream_def same_stream_def)
  assume ev: "ev \<in> set (events_from D st m)"
  have "ev_venue ev = bk_venue (vb_book (vt_book st)) \<and> ev_symbol ev = bk_symbol (vb_book (vt_book st))"
  proof (cases m)
    case (FrameMessage f)
    with ev obtain r vb where "feed D (vt_ops st) (vt_book st) f = Returned (r, vb)" "ev \<in> set (events_of r)"
      by (cases "feed D (vt_ops st) (vt_book st) f") (auto simp: events_from_def)
    then show ?thesis by (rule feed_stream(2))
  next
    case (EventMessage t e)
    with ev have "ev \<in> set (fst (apply_actions D (vt_ops st) (vb_sync (vt_book st)) (ev_venue_ts e) (ev_ingest_ts e)
        (vb_book (vt_book st)) [action_of_kind (ev_kind e)]))"
      by (simp add: events_from_def apply_event_def events_of_applied del: events_of.simps apply_actions.simps)
    then show ?thesis by (metis apply_actions_events prod.collapse)
  qed (use ev in \<open>simp add: events_from_def\<close>)
  with assms(2) show "event_stream ev = s" by (cases s) (simp add: book_of_stream_def event_stream_def)
qed

lemma step_placed:
  assumes "aggregator_apply D m a = Returned a'" and "books_placed a"
  shows "books_placed a'"
  using assms
proof (cases rule: aggregator_apply_cases)
  case (tracked st st')
  have "book_of_stream (message_stream m) st" using assms(2) tracked(1) by (auto simp: books_placed_def)
  with applied_placed(1) [OF tracked(2)] assms(2) tracked(3) show ?thesis by (auto simp: books_placed_def)
qed simp

lemma new_books_placed: "books_placed (with_window_spec D specs start metrics spec)"
proof -
  have "book_of_stream s st" if "stream_state s (with_window_spec D specs start metrics spec) = Some st" for s st
  proof -
    have "(s, st) \<in> set (map (\<lambda>(V, s, symbol, max_depth).
           (StreamId (vs_venue V) symbol, venue_state_new D V s symbol max_depth spec metrics start)) specs)"
      using that set_om_collect om_get_mem [of id s] unfolding stream_state_def with_window_spec_def by fastforce
    then show ?thesis
      by (auto simp: venue_state_new_def Let_def venue_book_new_def venue_book_with_max_depth_def new_book_def
          with_max_depth_def book_of_stream_def split: option.splits)
  qed
  then show ?thesis by (simp add: books_placed_def)
qed

lemma step_archives:
  assumes "aggregator_apply D m a = Returned a'"
  shows "ag_events a' = map_option (\<lambda>sent. sent @ (case stream_state (message_stream m) a of
      None \<Rightarrow> [] | Some st \<Rightarrow> events_from D st m)) (ag_events a)"
  using assms
proof (cases rule: aggregator_apply_cases)
  case (tracked st st')
  with applied_parts(6) [OF tracked(2)] show ?thesis by simp
qed (simp add: option.map_id0 [unfolded id_def])

text \<open>One frame of a Kraken stream, replayed from what it archived.\<close>

lemma kraken_message_replays:
  assumes "apply_to_stream D (FrameMessage f) st resync sink = Returned (st', resync', sink')"
    and "vt_ops st = kraken_ops D crc J" and "fr_source f = WebSocket"
  shows "replay_events D (kraken_ops D crc J) (vt_book st) (events_from D st (FrameMessage f)) = vt_book st'"
proof -
  obtain r vb where fd: "feed D (vt_ops st) (vt_book st) f = Returned (r, vb)"
    using assms(1) by (auto simp: apply_to_stream_def Let_def split: rust.splits)
  with applied_book [OF assms(1)] have "vt_book st' = vb" by simp
  with kraken_feed_replays [OF fd [unfolded assms(2)] assms(3)] fd show ?thesis
    by (simp add: events_from_def)
qed


section \<open>Draining the queue\<close>

lemma try_recv_cases:
  "try_recv c = (case ch_queue c of [] \<Rightarrow> (None, c) | x # xs \<Rightarrow> (Some x, c\<lparr> ch_queue := xs \<rparr>))"
  by (simp add: try_recv_def pop_def split: list.split)

lemma drain_applies_the_queue:
  "drain D rx a = (case apply_all D (ch_queue rx) a of
      Panicked \<Rightarrow> Panicked | Returned a' \<Rightarrow> Returned (rx\<lparr> ch_queue := [] \<rparr>, a'))"
proof (induction "ch_queue rx" arbitrary: rx a)
  case Nil
  then show ?case by (subst drain.simps) (simp add: try_recv_cases flip: Nil)
next
  case (Cons m ms)
  have "ch_queue (rx\<lparr> ch_queue := ms \<rparr>) = ms" by simp
  note IH = Cons.hyps(1) [OF this [symmetric]]
  have "drain D rx a = (case aggregator_apply D m a of
      Panicked \<Rightarrow> Panicked | Returned a' \<Rightarrow> drain D (rx\<lparr> ch_queue := ms \<rparr>) a')"
    by (subst drain.simps) (simp add: try_recv_cases flip: Cons.hyps(2))
  with IH show ?case by (simp add: Cons.hyps(2) [symmetric] split: rust.split)
qed

section \<open>A book that needs a fresh stream and never asks\<close>

text \<open>
  A Kraken stream whose frames are all for its symbol, a \<open>snapshot\<close> or an \<open>update\<close> as the payload
  says, with a checksum the book will not match.
\<close>

definition mismatching_json :: "unit kraken_json" where
  "mismatching_json = \<lparr> kj_envelope = (\<lambda>payload. Some \<lparr> ke_channel = Some ''book'', ke_kind = Some payload, ke_data = Some () \<rparr>),
     kj_book = (\<lambda>_. Some [\<lparr> kb_symbol = ''BTC/USD'', kb_bids = [], kb_asks = [], kb_checksum = Some 7, kb_timestamp = None \<rparr>]),
     kj_trades = (\<lambda>_. None) \<rparr>"

definition mismatching_kraken :: "(rat, kraken_sync) venue_ops" where
  "mismatching_kraken = kraken_ops rat_decimals (\<lambda>_. 8) mismatching_json"

abbreviation mismatching_stream :: stream_id where
  "mismatching_stream \<equiv> StreamId Kraken ''BTC-USD''"

definition mismatching_frame :: "string \<Rightarrow> ingest_time \<Rightarrow> rat ingest_message" where
  "mismatching_frame kind t = FrameMessage (frame_new mismatching_stream kind t)"

definition mismatching_start :: "(rat, kraken_sync) aggregator" where
  "mismatching_start = requesting_resync_through
     (with_window_spec rat_decimals [(mismatching_kraken, kraken_new ''BTC/USD'', ''BTC-USD'', None)]
        (sample_time 0) [] window_spec_default)
     (snd (subscribe mismatching_stream (resync_new [mismatching_stream])))"

definition stuck :: "(rat, kraken_sync) aggregator \<Rightarrow> bool" where
  "stuck a \<longleftrightarrow> requested mismatching_stream (ag_resync a) = 0
    \<and> (\<exists>st t. stream_state mismatching_stream a = Some st \<and> vt_ops st = mismatching_kraken
        \<and> vb_sync (vt_book st) = kraken_new ''BTC/USD'' \<and> vt_state st = Desynced t (ChecksumMismatch 7 8))"

lemma mismatching_actions:
  "vs_ingest mismatching_kraken (frame_new s ''snapshot'' t) (kraken_new ''BTC/USD'')
     = Returned (Inr \<lparr> ig_actions = [DoSnapshot [] [], Verify 7], ig_venue_ts = None \<rparr>, kraken_new ''BTC/USD'')"
  "vs_ingest mismatching_kraken (frame_new s ''update'' t) (kraken_new ''BTC/USD'')
     = Returned (Inr \<lparr> ig_actions = [DoDelta [] [], Verify 7], ig_venue_ts = None \<rparr>, kraken_new ''BTC/USD'')"
  by (simp_all add: mismatching_kraken_def kraken_ingest_def mismatching_json_def kraken_frame_def kraken_book_entries_def
      frame_new_def kraken_new_def later_time_def kraken_to_levels_def finish_loop_def timed_at_def untimed_def)

lemma mismatching_feeds:
  assumes "vb_sync vb = kraken_new ''BTC/USD''"
  shows "\<exists>outs b. feed rat_decimals mismatching_kraken vb (frame_new s ''snapshot'' t)
      = Returned (Inr outs, vb\<lparr> vb_book := b \<rparr>) \<and> bk_state b = Desynced t (ChecksumMismatch 7 8)"
    "\<not> is_live (bk_state (vb_book vb)) \<Longrightarrow>
     \<exists>outs. feed rat_decimals mismatching_kraken vb (frame_new s ''update'' t) = Returned (Inr outs, vb)"
proof -
  let ?b = "(vb_book vb)\<lparr> bk_bids := [], bk_asks := [], bk_state := Live Verified t None, bk_last_update := Some t \<rparr>"
  have "prune_asks rat_decimals cap [] = []" for cap by (simp add: prune_asks.simps)
  then have snap: "snd (apply_snapshot rat_decimals (vb_book vb) [] [] Verified t) = ?b"
    by (simp add: apply_snapshot_def guard_crossed_def prune_def fill_side_def best.simps split: option.split)
  have checksum: "kraken_checksum rat_decimals (\<lambda>_. 8) b = 8" for b :: "rat book"
    by (simp add: kraken_checksum_def)
  have fields: "fr_source (frame_new s p t) = WebSocket" "fr_ingest_ts (frame_new s p t) = t" for p
    by (simp_all add: frame_new_def)
  have ver: "verify mismatching_kraken x b 7 t = (if is_live (bk_state b) then mark_desynced b (ChecksumMismatch 7 8) t else b)" for x b
    by (simp add: verify_def mismatching_kraken_def checksum)
  have int: "vs_integrity mismatching_kraken = Verified" by (simp add: mismatching_kraken_def)
  have sync: "vb\<lparr> vb_sync := kraken_new ''BTC/USD'' \<rparr> = vb" using assms by simp
  show "\<exists>outs b. feed rat_decimals mismatching_kraken vb (frame_new s ''snapshot'' t)
      = Returned (Inr outs, vb\<lparr> vb_book := b \<rparr>) \<and> bk_state b = Desynced t (ChecksumMismatch 7 8)"
    using assms
    by (simp add: feed_def fields mismatching_actions sync apply_ingested_def Let_def int snap ver)
      (intro exI conjI, rule refl, simp add: mark_desynced_def)
  assume "\<not> is_live (bk_state (vb_book vb))"
  then show "\<exists>outs. feed rat_decimals mismatching_kraken vb (frame_new s ''update'' t) = Returned (Inr outs, vb)"
    using assms
    by (simp add: feed_def fields mismatching_actions sync apply_ingested_def Let_def ver apply_delta_def)
qed

lemma frame_applies:
  assumes "stream_state s a = Some st" and "feed D (vt_ops st) (vt_book st) f = Returned (Inr outs, vb)"
    and "fr_stream f = s"
  shows "\<exists>a' st'. aggregator_apply D (FrameMessage f) a = Returned a' \<and> stream_state s a' = Some st'
    \<and> vt_ops st' = vt_ops st \<and> vt_book st' = vb
    \<and> requested s (ag_resync a') =
        requested s (if wants_resync (vt_state st) (bk_state (vb_book vb)) then snd (request s (ag_resync a)) else ag_resync a)"
proof -
  obtain st' r' k' where ap: "apply_to_stream D (FrameMessage f) st (ag_resync a) (ag_events a) = Returned (st', r', k')"
    using assms(2) by (simp add: apply_to_stream_def Let_def) (metis surj_pair)
  have "vt_book st' = vb" using applied_book [OF ap] assms(2) by simp
  moreover have "r' = (if wants_resync (vt_state st) (vt_state st') then snd (request s (ag_resync a)) else ag_resync a)"
    using applied_parts(5) [OF ap] assms(3) by simp
  moreover have "aggregator_apply D (FrameMessage f) a
      = Returned (a\<lparr> ag_streams := om_insert id s st' (ag_streams a), ag_resync := r', ag_events := k' \<rparr>)"
    using assms(1,3) ap by (simp add: aggregator_apply_def stream_state_def)
  ultimately show ?thesis using applied_parts(1) [OF ap] by (simp add: stream_state_def)
qed

lemma stuck_step:
  assumes "stuck a"
  shows "\<exists>a'. aggregator_apply rat_decimals (mismatching_frame ''update'' t) a = Returned a' \<and> stuck a'"
proof -
  from assms obtain st u where st: "stream_state mismatching_stream a = Some st" "vt_ops st = mismatching_kraken"
    "vb_sync (vt_book st) = kraken_new ''BTC/USD''" "vt_state st = Desynced u (ChecksumMismatch 7 8)"
    and none: "requested mismatching_stream (ag_resync a) = 0" by (auto simp: stuck_def)
  obtain outs where fd: "feed rat_decimals (vt_ops st) (vt_book st) (frame_new mismatching_stream ''update'' t)
      = Returned (Inr outs, vt_book st)"
    using mismatching_feeds(2) [OF st(3), of mismatching_stream t] st(2,4) by auto
  have "fr_stream (frame_new mismatching_stream ''update'' t) = mismatching_stream" by (simp add: frame_new_def)
  from frame_applies [OF st(1) fd this] st none show ?thesis
    by (fastforce simp: stuck_def mismatching_frame_def wants_resync_def)
qed

lemma stuck_updates: "stuck a \<Longrightarrow>
    \<exists>a'. apply_all rat_decimals (map (mismatching_frame ''update'') ts) a = Returned a' \<and> stuck a'"
proof (induction ts arbitrary: a)
  case (Cons t ts)
  from stuck_step [OF Cons.prems, of t] obtain a1 where
    "aggregator_apply rat_decimals (mismatching_frame ''update'' t) a = Returned a1" "stuck a1" by blast
  with Cons.IH [of a1] show ?case by simp
qed simp

lemma stream_state_new:
  "stream_state (StreamId (vs_venue V) symbol) (with_window_spec D [(V, s, symbol, depth)] start metrics spec)
     = Some (venue_state_new D V s symbol depth spec metrics start)"
  by (simp add: stream_state_def with_window_spec_def om_collect_def)

lemma session_end_applies:
  assumes "stream_state s a = Some st"
  shows "\<exists>a' st'. aggregator_apply D (SessionEnded s t e) a = Returned a' \<and> stream_state s a' = Some st'
    \<and> vt_ops st' = vt_ops st \<and> vt_book st' = venue_book_reset (vt_ops st) (vt_book st) t \<and> ag_resync a' = ag_resync a"
proof -
  obtain st' r' k' where ap: "apply_to_stream D (SessionEnded s t e) st (ag_resync a) (ag_events a) = Returned (st', r', k')"
    by (simp add: apply_to_stream_def Let_def)
  have "aggregator_apply D (SessionEnded s t e) a
      = Returned (a\<lparr> ag_streams := om_insert id s st' (ag_streams a), ag_resync := r', ag_events := k' \<rparr>)"
    using assms ap by (simp add: aggregator_apply_def stream_state_def)
  with applied_parts(1,5) [OF ap] applied_book [OF ap] show ?thesis by (simp add: stream_state_def)
qed

lemma stuck_opening:
  "\<exists>a. apply_all rat_decimals [SessionEnded mismatching_stream t1 Idle, mismatching_frame ''snapshot'' t2] mismatching_start
     = Returned a \<and> stuck a"
proof -
  let ?s = mismatching_stream
  have venue: "vs_venue mismatching_kraken = Kraken" by (simp add: mismatching_kraken_def)
  let ?st = "venue_state_new rat_decimals mismatching_kraken (kraken_new ''BTC/USD'') ''BTC-USD'' None
      window_spec_default [] (sample_time 0)"
  have start: "stream_state ?s mismatching_start = Some ?st"
    using stream_state_new [of mismatching_kraken "''BTC-USD''" rat_decimals "kraken_new ''BTC/USD''" None "sample_time 0"
        "[]" window_spec_default]
    by (simp add: mismatching_start_def requesting_resync_through_def venue stream_state_def)
  have none: "requested ?s (ag_resync mismatching_start) = 0"
    by (simp add: mismatching_start_def requesting_resync_through_def requested_def subscribe_def resync_new_def om_collect_def)
  obtain a1 st1 where end1: "aggregator_apply rat_decimals (SessionEnded ?s t1 Idle) mismatching_start = Returned a1"
    "stream_state ?s a1 = Some st1" "vt_ops st1 = mismatching_kraken"
    "vt_book st1 = venue_book_reset mismatching_kraken (vt_book ?st) t1" "ag_resync a1 = ag_resync mismatching_start"
    using session_end_applies [OF start, of rat_decimals t1 Idle] by (auto simp: venue_state_new_def Let_def)
  have sync: "vb_sync (vt_book st1) = kraken_new ''BTC/USD''" and down: "is_desynced (vt_state st1)"
    using end1(4) by (simp_all add: venue_book_reset_def mismatching_kraken_def kraken_ops_def venue_state_new_def Let_def
        venue_book_new_def mark_desynced_def)
  obtain outs b where fd: "feed rat_decimals (vt_ops st1) (vt_book st1) (frame_new ?s ''snapshot'' t2)
      = Returned (Inr outs, (vt_book st1)\<lparr> vb_book := b \<rparr>)" and b: "bk_state b = Desynced t2 (ChecksumMismatch 7 8)"
    using mismatching_feeds(1) [OF sync, of ?s t2] end1(3) by auto
  have "fr_stream (frame_new ?s ''snapshot'' t2) = ?s" by (simp add: frame_new_def)
  from frame_applies [OF end1(2) fd this] obtain a2 st2 where
    "aggregator_apply rat_decimals (mismatching_frame ''snapshot'' t2) a1 = Returned a2" "stream_state ?s a2 = Some st2"
    "vt_ops st2 = vt_ops st1" "vt_book st2 = (vt_book st1)\<lparr> vb_book := b \<rparr>"
    "requested ?s (ag_resync a2) = requested ?s (ag_resync a1)"
    using down b by (auto simp: mismatching_frame_def wants_resync_def)
  then show ?thesis using end1 b sync none
    by (intro exI [of _ a2] conjI) (auto simp: stuck_def)
qed


section \<open>Witnesses\<close>

abbreviation plain_start :: "(rat, kraken_sync) aggregator" where
  "plain_start \<equiv> with_window_spec rat_decimals
     [(mismatching_kraken, kraken_new ''BTC/USD'', ''BTC-USD'', None)] (sample_time 0) [] window_spec_default"

lemma plain_stream: "\<exists>st. stream_state mismatching_stream plain_start = Some st \<and> vt_ops st = mismatching_kraken"
  using stream_state_new [of mismatching_kraken "''BTC-USD''" rat_decimals "kraken_new ''BTC/USD''" None "sample_time 0"
      "[]" window_spec_default]
  by (simp add: venue_state_new_def Let_def mismatching_kraken_def)

lemma plain_ends:
  "\<exists>a. aggregator_apply rat_decimals (SessionEnded mismatching_stream t e) plain_start = Returned a
    \<and> stream_desynced mismatching_stream a"
  using plain_stream session_end_applies [of mismatching_stream plain_start _ rat_decimals t e]
  by (fastforce simp: stream_desynced_def venue_book_reset_def mark_desynced_def)

lemma desynced_time_is_exact_witness:
  "\<exists>a st. apply_all rat_decimals [SessionEnded mismatching_stream (sample_time 3) Idle] plain_start = Returned a
    \<and> stream_state mismatching_stream a = Some st \<and> desynced_total (sample_time 10) st = 7"
proof -
  let ?ms = "[SessionEnded mismatching_stream (sample_time 3) Idle] :: rat ingest_message list"
  obtain a where a: "aggregator_apply rat_decimals (SessionEnded mismatching_stream (sample_time 3) Idle) plain_start = Returned a"
    "stream_desynced mismatching_stream a" using plain_ends by blast
  obtain st0 where st0: "stream_state mismatching_stream plain_start = Some st0" using plain_stream by blast
  from a have run: "apply_all rat_decimals ?ms plain_start = Returned a" by simp
  have "steady (mono_t (sample_time 0)) (stream_times mismatching_stream ?ms) (mono_t (sample_time 10))"
    by (simp add: stream_times_def sample_time_def)
  from desynced_time_is_exact [OF run st0 this] a run show ?thesis
    by (auto simp: sample_time_def)
qed

lemma resync_requested_exactly_witness:
  "\<exists>a. aggregator_apply rat_decimals (SessionEnded mismatching_stream (sample_time 3) Idle) plain_start = Returned a
    \<and> (\<forall>s. s \<noteq> mismatching_stream \<longrightarrow> stream_state s a = stream_state s plain_start)"
proof -
  obtain a where a: "aggregator_apply rat_decimals (SessionEnded mismatching_stream (sample_time 3) Idle) plain_start = Returned a"
    using plain_ends by blast
  from resync_requested_exactly [OF a] a show ?thesis by auto
qed


end
