(* ===== verification/Publishing.thy ===== *)
theory Publishing
  imports Aggregator Lease
begin

text \<open>
  What the aggregator publishes each tick (\<open>Aggregator::snapshot\<close> and the views of
  \<open>ma-pipeline/src/aggregator.rs\<close>). Prices leave as text; rates are floats of type \<open>'f\<close>.
\<close>

section \<open>Views\<close>

record trade_view =
  tv_price :: string
  tv_qty :: string
  tv_taker_side :: "side option"
  tv_age_ms :: nat

record ('d, 'f) venue_view =
  vv_venue :: venue_id
  vv_status :: book_status
  vv_integrity :: "integrity option"
  vv_desync_reason :: "string option"
  vv_bid :: "'d level option"
  vv_ask :: "'d level option"
  vv_bids :: "'d level list"
  vv_asks :: "'d level list"
  vv_spread :: "string option"
  vv_mid :: "string option"
  vv_age_ms :: "nat option"
  vv_status_for_ms :: nat
  vv_desynced_total_ms :: nat
  vv_last_verified_ms :: "nat option"
  vv_audits :: u64
  vv_audit_mismatches :: u64
  vv_levels_held :: "nat \<times> nat"
  vv_windows :: "'d window_reading list"
  vv_last_trade :: "trade_view option"
  vv_counters :: venue_counters
  vv_rates :: "'f rates"

record exclusion_view =
  xv_venue :: venue_id
  xv_reason :: string

record 'd cross_view =
  xw_bid :: "'d cross_leg option"
  xw_ask :: "'d cross_leg option"
  xw_spread :: "string option"
  xw_spread_bps :: "string option"
  xw_mid :: "string option"
  xw_integrity_floor :: "integrity option"
  xw_oldest_leg_ms :: "nat option"
  xw_venues_used :: nat
  xw_crossed :: bool
  xw_single_venue :: bool
  xw_excluded :: "exclusion_view list"
  xw_clock :: string

record ('d, 'f) symbol_view =
  yv_symbol :: string
  yv_weakest_integrity :: "integrity option"
  yv_cross :: "'d cross_view"
  yv_cross_windows :: "'d cross_window_reading list"
  yv_venues :: "('d, 'f) venue_view list"

record ('d, 'f) snapshot =
  sn_seq :: u64
  sn_wall_unix_ms :: nat
  sn_clock :: string
  sn_symbols :: "('d, 'f) symbol_view list"
  sn_channel :: channel_metrics

definition snapshot_symbol :: "('d, 'f) snapshot \<Rightarrow> string \<Rightarrow> ('d, 'f) symbol_view option" where
  "snapshot_symbol s symbol = find (\<lambda>v. yv_symbol v = symbol) (sn_symbols s)"

definition snapshot_views :: "('d, 'f) snapshot \<Rightarrow> (string \<times> ('d, 'f) venue_view) list" where
  "snapshot_views s = concat (map (\<lambda>y. map (\<lambda>v. (yv_symbol y, v)) (yv_venues y)) (sn_symbols s))"

definition ingest_monotonic :: string where
  "ingest_monotonic = ''ingest_monotonic''"

fun describe :: "('d, 'z) decimal_ops_scheme \<Rightarrow> 'd desync_reason \<Rightarrow> string" where
  "describe D (SequenceGap expected got) =
     ''sequence gap: expected '' @ show_nat (unat expected) @ '', got '' @ show_nat (unat got)"
| "describe D (ChecksumMismatch expected computed) =
     ''checksum mismatch: venue said '' @ show_nat (unat expected) @ '', we computed '' @ show_nat (unat computed)"
| "describe D (TimestampRegression last_micros got_micros) =
     ''timestamps went backwards: after '' @ show_nat (unat last_micros) @ '', got '' @ show_nat (unat got_micros)"
| "describe D (CrossedBook best_bid best_ask) =
     ''crossed book: bid '' @ d_to_string D best_bid @ '' >= ask '' @ d_to_string D best_ask"
| "describe D (AuditMismatch price consecutive) =
     ''depth audit disagreed at '' @ d_to_string D price @ '', '' @ show_nat consecutive @ '' audits running''"
| "describe D ConnectionLost = ''connection lost''"
| "describe D AwaitingSnapshot = ''awaiting a REST depth snapshot''"
| "describe D SnapshotGap = ''buffered deltas did not join onto the snapshot''"

text \<open>\<open>Display\<close> of an exclusion (\<open>ma-core/src/cross.rs\<close>).\<close>

fun show_exclusion :: "exclusion_reason \<Rightarrow> string" where
  "show_exclusion Untrusted = ''book is not trusted''"
| "show_exclusion (Stale age) = ''no update for '' @ show_nat (age div 1000000) @ ''ms''"
| "show_exclusion NoQuote = ''book holds no levels''"

definition make_cross_view ::
  "('d, 'z) decimal_ops_scheme \<Rightarrow> 'd quote_entry list \<Rightarrow> duration \<Rightarrow> string \<Rightarrow> 'd cross_view" where
  "make_cross_view D tops max_age clock =
     (let c = consolidate D tops max_age
      in \<lparr> xw_bid = cv_bid c, xw_ask = cv_ask c,
           xw_spread = map_option (d_to_string D) (cv_spread c),
           xw_spread_bps = map_option (d_to_string D) (cv_spread_bps c),
           xw_mid = map_option (d_to_string D) (cv_mid c),
           xw_integrity_floor = cv_integrity_floor c, xw_oldest_leg_ms = cv_oldest_leg_ms c,
           xw_venues_used = cv_venues_used c, xw_crossed = is_crossed D c,
           xw_single_venue = is_single_venue c,
           xw_excluded = map (\<lambda>e. \<lparr> xv_venue = ex_venue e, xv_reason = show_exclusion (ex_reason e) \<rparr>) (cv_excluded c),
           xw_clock = clock \<rparr>)"

definition consolidated_windows ::
  "('d, 'z) decimal_ops_scheme \<Rightarrow> (('d, 'f) venue_view \<times> nat) list \<Rightarrow> 'd cross_window_reading list" where
  "consolidated_windows D pairs = consolidate_windows D (map (\<lambda>(view, lag_ms).
     \<lparr> wl_venue = vv_venue view, wl_lag_ms = lag_ms, wl_windows = vv_windows view \<rparr>) pairs)"

section \<open>The snapshot\<close>

text \<open>One stream's turn of the loop: its view, its quote, and the state it leaves.\<close>

definition view_stream ::
  "'f float_ops \<Rightarrow> ('d, 'z) decimal_ops_scheme \<Rightarrow> ingest_time \<Rightarrow> duration \<Rightarrow> nat \<Rightarrow> venue_id
     \<Rightarrow> ('d, 's) venue_state \<Rightarrow> (('d, 'f) venue_view \<times> 'd top_of_book_view) \<times> ('d, 's) venue_state" where
  "view_stream F D now tick depth_levels venue st =
     (let counters = counters_snapshot (vt_counters st);
          rates = rates_between F (vt_previous st) counters tick;
          st = st\<lparr> vt_previous := counters \<rparr>;
          trail = vb_audit_trail (vt_book st);
          (windows, w) = read_windows D (vt_windows st) now;
          st = st\<lparr> vt_windows := w \<rparr>;
          b = vb_book (vt_book st);
          tob = top_of_book b now;
          (integrity, last_verified_ms) =
            (case top_state tob of
               Live i _ verified \<Rightarrow> (Some i, map_option (\<lambda>t. millis_u64 (since now t)) verified)
             | _ \<Rightarrow> (None, None))
      in ((\<lparr> vv_venue = venue, vv_status = status_of st, vv_integrity = integrity,
             vv_desync_reason = (case top_state tob of Desynced _ reason \<Rightarrow> Some (describe D reason) | _ \<Rightarrow> None),
             vv_bid = top_bid tob, vv_ask = top_ask tob,
             vv_bids = top_levels b Bid depth_levels, vv_asks = top_levels b Ask depth_levels,
             vv_spread = map_option (d_to_string D) (top_spread D tob),
             vv_mid = map_option (d_to_string D) (top_mid D tob),
             vv_age_ms = map_option millis_u64 (top_age tob),
             vv_status_for_ms = millis_u64 (since now (vt_status_since st)),
             vv_desynced_total_ms = millis_u64 (desynced_total now st),
             vv_last_verified_ms = last_verified_ms,
             vv_audits = at_audits trail, vv_audit_mismatches = at_mismatches trail,
             vv_levels_held = book_depth b, vv_windows = windows,
             vv_last_trade = map_option (\<lambda>(price, qty, side, t).
               \<lparr> tv_price = d_to_string D price, tv_qty = d_to_string D qty, tv_taker_side = side,
                 tv_age_ms = millis_u64 (since now t) \<rparr>) (vt_last_trade st),
             vv_counters = counters, vv_rates = rates \<rparr>, tob), st))"

text \<open>\<open>entry(k).or_default().push(v)\<close> on a \<open>BTreeMap\<close> of lists.\<close>

definition push_entry :: "'k::linorder \<Rightarrow> 'v \<Rightarrow> ('k \<times> 'v list) list \<Rightarrow> ('k \<times> 'v list) list" where
  "push_entry k v m = om_insert id k ((case om_get id k m of None \<Rightarrow> [] | Some vs \<Rightarrow> vs) @ [v]) m"

definition publishes :: "('d, 's) aggregator \<Rightarrow> stream_id \<Rightarrow> bool" where
  "publishes a s = (case ag_owned a of None \<Rightarrow> True | Some owned \<Rightarrow> s \<in> set owned)"

text \<open>
  The loop over the streams, the views and quotes of each symbol gathered in one map.
\<close>

definition gather ::
  "'f float_ops \<Rightarrow> ('d, 'z) decimal_ops_scheme \<Rightarrow> ingest_time \<Rightarrow> ('d, 's) aggregator
     \<Rightarrow> (symbol \<times> (('d, 'f) venue_view \<times> 'd top_of_book_view) list) list
     \<Rightarrow> (stream_id \<times> ('d, 's) venue_state)
     \<Rightarrow> (symbol \<times> (('d, 'f) venue_view \<times> 'd top_of_book_view) list) list" where
  "gather F D now a m entry = (case entry of (stream, st) \<Rightarrow>
     if \<not> publishes a stream then m
     else push_entry (sid_symbol stream)
       (fst (view_stream F D now (ag_tick a) (ag_depth_levels a) (sid_venue stream) st)) m)"

definition after_viewing ::
  "'f float_ops \<Rightarrow> ('d, 'z) decimal_ops_scheme \<Rightarrow> ingest_time \<Rightarrow> ('d, 's) aggregator
     \<Rightarrow> (stream_id \<times> ('d, 's) venue_state) \<Rightarrow> (stream_id \<times> ('d, 's) venue_state)" where
  "after_viewing F D now a entry = (case entry of (stream, st) \<Rightarrow>
     if \<not> publishes a stream then (stream, st)
     else (stream, snd (view_stream F D now (ag_tick a) (ag_depth_levels a) (sid_venue stream) st)))"

definition symbol_view_of ::
  "('d, 'z) decimal_ops_scheme \<Rightarrow> duration \<Rightarrow> symbol \<times> (('d, 'f) venue_view \<times> 'd top_of_book_view) list
     \<Rightarrow> ('d, 'f) symbol_view" where
  "symbol_view_of D max_age entry = (case entry of (symbol, rows) \<Rightarrow>
     \<lparr> yv_symbol = symbol,
       yv_weakest_integrity = foldl (\<lambda>acc v. opt_join min acc (vv_integrity v)) None (map fst rows),
       yv_cross = make_cross_view D (map (\<lambda>(v, tob). (vv_venue v, tob)) rows) max_age ingest_monotonic,
       yv_cross_windows = consolidated_windows D (map (\<lambda>(v, _). (v, 0)) rows),
       yv_venues = map fst rows \<rparr>)"

definition aggregator_snapshot ::
  "'f float_ops \<Rightarrow> ('d, 'z) decimal_ops_scheme \<Rightarrow> ingest_time \<Rightarrow> channel_metrics \<Rightarrow> ('d, 's) aggregator
     \<Rightarrow> ('d, 'f) snapshot \<times> ('d, 's) aggregator" where
  "aggregator_snapshot F D now channel a =
     (let a = a\<lparr> ag_seq := ag_seq a + 1 \<rparr>;
          by_symbol = foldl (gather F D now a) [] (ag_streams a)
      in (\<lparr> sn_seq = ag_seq a, sn_wall_unix_ms = unix_millis (wall_t now), sn_clock = ingest_monotonic,
            sn_symbols = map (symbol_view_of D (ag_cross_max_age a)) by_symbol, sn_channel = channel \<rparr>,
          a\<lparr> ag_streams := map (after_viewing F D now a) (ag_streams a) \<rparr>))"

section \<open>Grouping\<close>

abbreviation row_of ::
  "'f float_ops \<Rightarrow> ('d, 'z) decimal_ops_scheme \<Rightarrow> ingest_time \<Rightarrow> ('d, 's) aggregator
     \<Rightarrow> (stream_id \<times> ('d, 's) venue_state) \<Rightarrow> ('d, 'f) venue_view \<times> 'd top_of_book_view" where
  "row_of F D now a e \<equiv> fst (view_stream F D now (ag_tick a) (ag_depth_levels a) (sid_venue (fst e)) (snd e))"

text \<open>The streams of a symbol that this node publishes, in the order of the map.\<close>

definition shown ::
  "('d, 's) aggregator \<Rightarrow> symbol \<Rightarrow> (stream_id \<times> ('d, 's) venue_state) list \<Rightarrow> (stream_id \<times> ('d, 's) venue_state) list" where
  "shown a symbol = filter (\<lambda>e. publishes a (fst e) \<and> sid_symbol (fst e) = symbol)"

definition rows_in :: "'k::linorder \<Rightarrow> ('k \<times> 'r list) list \<Rightarrow> 'r list" where
  "rows_in symbol m = (case om_get id symbol m of None \<Rightarrow> [] | Some rows \<Rightarrow> rows)"

lemma rows_in_push: "rows_in k (push_entry k' v m) = (if k = k' then rows_in k m @ [v] else rows_in k m)"
  by (simp add: rows_in_def push_entry_def)

lemma gathered:
  fixes m :: "(symbol \<times> (('d, 'f) venue_view \<times> 'd top_of_book_view) list) list"
  assumes "om_sorted id m" and "\<forall>(k, rows) \<in> set m. rows \<noteq> []"
  shows "rows_in k (foldl (gather F D now a) m es) = rows_in k m @ map (row_of F D now a) (shown a k es)
    \<and> om_sorted id (foldl (gather F D now a) m es)
    \<and> (\<forall>(k, rows) \<in> set (foldl (gather F D now a) m es). rows \<noteq> [])"
  using assms
proof (induction es arbitrary: m)
  case Nil
  then show ?case by (simp add: shown_def)
next
  case (Cons e es)
  obtain s st where e: "e = (s, st)" by (cases e)
  show ?case
  proof (cases "publishes a s")
    case True
    let ?m = "push_entry (sid_symbol s) (row_of F D now a e) m"
    have step: "gather F D now a m e = ?m" using True by (simp add: gather_def e)
    have sorted: "om_sorted id ?m" unfolding push_entry_def by (rule om_sorted_insert [OF Cons.prems(1)])
    have full: "\<forall>(k, rows) \<in> set ?m. rows \<noteq> []"
      using Cons.prems(2) set_om_insert [of id "sid_symbol s" _ m] by (fastforce simp: push_entry_def)
    show ?thesis
      using Cons.IH [OF sorted full] True by (auto simp: step [unfolded e] rows_in_push shown_def e)
  next
    case False
    then have "gather F D now a m e = m" by (simp add: gather_def e)
    with Cons.IH [OF Cons.prems] False show ?thesis by (simp add: shown_def e)
  qed
qed

lemma gathered_start:
  "rows_in k (foldl (gather F D now a) [] es) = map (row_of F D now a) (shown a k es)"
  "om_sorted id (foldl (gather F D now a) [] es)"
  "(k, rows) \<in> set (foldl (gather F D now a) [] es) \<Longrightarrow> rows \<noteq> []"
  using gathered [of "[]" k F D now a es] by (auto simp: rows_in_def)

lemma gathered_entries:
  "(k, rows) \<in> set (foldl (gather F D now a) [] es) \<longleftrightarrow> rows = map (row_of F D now a) (shown a k es) \<and> shown a k es \<noteq> []"
proof -
  let ?m = "foldl (gather F D now a) [] es"
  note get = gathered_start(1) [of k F D now a es]
  show ?thesis
  proof
    assume mem: "(k, rows) \<in> set ?m"
    have "om_get id (id k) ?m = Some rows" by (rule om_get_in [OF gathered_start(2) mem])
    with get gathered_start(3) [OF mem] show "rows = map (row_of F D now a) (shown a k es) \<and> shown a k es \<noteq> []"
      by (auto simp: rows_in_def)
  next
    assume r: "rows = map (row_of F D now a) (shown a k es) \<and> shown a k es \<noteq> []"
    with get have "om_get id k ?m = Some rows" by (auto simp: rows_in_def split: option.splits)
    then show "(k, rows) \<in> set ?m" using om_get_mem by fastforce
  qed
qed

section \<open>The whole of a snapshot\<close>

lemma snapshot_parts:
  assumes "aggregator_snapshot F D now channel a = (sn, a')"
  defines "a1 \<equiv> a\<lparr> ag_seq := ag_seq a + 1 \<rparr>"
  shows "sn_seq sn = ag_seq a + 1" "ag_seq a' = ag_seq a + 1" "sn_channel sn = channel"
    "sn_symbols sn = map (symbol_view_of D (ag_cross_max_age a)) (foldl (gather F D now a1) [] (ag_streams a))"
    "ag_streams a' = map (after_viewing F D now a1) (ag_streams a)"
  using assms(1) by (auto simp: aggregator_snapshot_def Let_def a1_def)

lemma same_rows:
  "gather F D now (a\<lparr> ag_seq := n \<rparr>) = gather F D now a" "shown (a\<lparr> ag_seq := n \<rparr>) = shown a"
  "publishes (a\<lparr> ag_seq := n \<rparr>) s = publishes a s"
proof -
  show pub: "publishes (a\<lparr> ag_seq := n \<rparr>) s = publishes a s" for s by (simp add: publishes_def)
  show "gather F D now (a\<lparr> ag_seq := n \<rparr>) = gather F D now a"
    by (intro ext) (simp add: gather_def pub split: prod.split)
  show "shown (a\<lparr> ag_seq := n \<rparr>) = shown a" by (intro ext) (simp add: shown_def pub)
qed

section \<open>What a card may claim\<close>

definition stream_ok :: "('d, 'z) decimal_ops_scheme \<Rightarrow> ('d, 's) venue_state \<Rightarrow> bool" where
  "stream_ok D st \<longleftrightarrow> venue_book_ok D (vt_ops st) (vb_book (vt_book st))"

text \<open>A card that claims no more than its book can support.\<close>

definition honest_view ::
  "('d, 'z) decimal_ops_scheme \<Rightarrow> integrity \<Rightarrow> nat \<Rightarrow> ('d, 'f) venue_view \<Rightarrow> bool" where
  "honest_view D i depth v \<longleftrightarrow>
     vv_integrity v = (if vv_status v = StatusLive then Some i else None)
     \<and> (vv_desync_reason v \<noteq> None \<longleftrightarrow> vv_status v = StatusDesynced)
     \<and> (vv_last_verified_ms v \<noteq> None \<longrightarrow> vv_status v = StatusLive \<and> i = Verified)
     \<and> length (vv_bids v) \<le> depth \<and> length (vv_asks v) \<le> depth
     \<and> sorted_wrt (\<lambda>x y. d_lt D (lv_price y) (lv_price x)) (vv_bids v)
     \<and> sorted_wrt (\<lambda>x y. d_lt D (lv_price x) (lv_price y)) (vv_asks v)
     \<and> (0 < depth \<longrightarrow> vv_bid v = (case vv_bids v of [] \<Rightarrow> None | l # _ \<Rightarrow> Some l)
          \<and> vv_ask v = (case vv_asks v of [] \<Rightarrow> None | l # _ \<Rightarrow> Some l))
     \<and> (vv_status v = StatusLive \<longrightarrow>
          (\<forall>bid ask. vv_bid v = Some bid \<longrightarrow> vv_ask v = Some ask \<longrightarrow> d_lt D (lv_price bid) (lv_price ask)))"

lemma view_fields:
  fixes F D now tick depth venue and st :: "('d, 's) venue_state"
  defines "v \<equiv> fst (fst (view_stream F D now tick depth venue st))"
  shows "vv_status v = status_of st" "vv_bid v = best (vb_book (vt_book st)) Bid"
    "vv_ask v = best (vb_book (vt_book st)) Ask"
    "vv_bids v = top_levels (vb_book (vt_book st)) Bid depth" "vv_asks v = top_levels (vb_book (vt_book st)) Ask depth"
    "vv_integrity v = state_integrity (vt_state st)"
    "vv_desync_reason v = (case vt_state st of Desynced _ reason \<Rightarrow> Some (describe D reason) | _ \<Rightarrow> None)"
    "vv_last_verified_ms v = (case vt_state st of
       Live i _ verified \<Rightarrow> map_option (\<lambda>t. millis_u64 (since now t)) verified | _ \<Rightarrow> None)"
    "vv_venue v = venue"
  unfolding v_def
  by (simp_all add: view_stream_def Let_def case_prod_beta top_of_book_def status_of_def split: book_state.split)

lemma view_honest:
  assumes "stream_ok D st"
  shows "honest_view D (vs_integrity (vt_ops st)) depth (fst (fst (view_stream F D now tick depth venue st)))"
proof -
  let ?b = "vb_book (vt_book st)"
  have wf: "book_wf D ?b" and who: "\<And>i. state_integrity (bk_state ?b) = Some i \<Longrightarrow> i = vs_integrity (vt_ops st)"
    using assms by (auto simp: stream_ok_def venue_book_ok_def)
  note bids = top_levels_best_first [OF wf, of Bid] and asks = top_levels_best_first [OF wf, of Ask]
  have head: "best ?b s = (case top_levels ?b s depth of [] \<Rightarrow> None | l # _ \<Rightarrow> Some l)" if "0 < depth" for s
    using top_levels_best_first [OF wf, of s "depth - 1"] that by simp
  have gap: "d_lt D (lv_price bid) (lv_price ask)"
    if "is_live (bk_state ?b)" "best ?b Bid = Some bid" "best ?b Ask = Some ask" for bid ask
  proof -
    have "d_lt D (fst x) (fst y)" if "x \<in> set (bk_bids ?b)" "y \<in> set (bk_asks ?b)" for x y
      using wf \<open>is_live (bk_state ?b)\<close> that by (cases x; cases y) (auto simp: book_wf_def uncrossed_def)
    moreover have "bk_bids ?b \<noteq> []" "lv_price bid = fst (last (bk_bids ?b))"
      "bk_asks ?b \<noteq> []" "lv_price ask = fst (hd (bk_asks ?b))"
      using that(2,3) by (auto simp: best.simps split: if_splits)
    ultimately show ?thesis by simp
  qed
  have verified: "verified_honest (vt_state st)" using wf by (simp add: book_wf_def)
  have live: "status_of st = StatusLive \<longleftrightarrow> is_live (vt_state st)"
    by (cases "vt_state st") (simp_all add: status_of_def)
  show ?thesis
    unfolding honest_view_def view_fields
  proof (intro conjI impI allI)
    show "state_integrity (vt_state st) = (if status_of st = StatusLive then Some (vs_integrity (vt_ops st)) else None)"
      using who by (cases "vt_state st") (auto simp: status_of_def)
    show "((case vt_state st of Desynced _ reason \<Rightarrow> Some (describe D reason) | _ \<Rightarrow> None) \<noteq> None)
        = (status_of st = StatusDesynced)"
      by (cases "vt_state st") (auto simp: status_of_def)
    assume "(case vt_state st of Live i _ verified \<Rightarrow> map_option (\<lambda>t. millis_u64 (since now t)) verified | _ \<Rightarrow> None) \<noteq> None"
    then show "status_of st = StatusLive" "vs_integrity (vt_ops st) = Verified"
      using who verified by (cases "vt_state st"; auto simp: status_of_def)+
  qed (use bids asks head gap live in \<open>auto\<close>)
qed

lemma weakest:
  fixes views :: "('d, 'f) venue_view list"
  shows "foldl (\<lambda>acc v. opt_join min acc (vv_integrity v)) None views = opt_Min {i. \<exists>v \<in> set views. vv_integrity v = Some i}"
proof (induction views rule: rev_induct)
  case Nil
  then show ?case by (simp add: opt_Min_def)
next
  case (snoc v views)
  have split: "{i. \<exists>w \<in> set (views @ [v]). vv_integrity w = Some i}
      = {i. \<exists>w \<in> set views. vv_integrity w = Some i} \<union> set_option (vv_integrity v)" by auto
  have "finite {i. \<exists>w \<in> set views. vv_integrity w = Some i}"
    by (rule finite_subset [of _ "\<Union>w \<in> set views. set_option (vv_integrity w)"]) auto
  then show ?case using snoc.IH unfolding split by (simp add: opt_Min_Un)
qed

text \<open>
  When the books are well formed every view of a snapshot is honest, and the headline integrity of a
  symbol is the weakest of its live books.
\<close>

lemma snapshot_honest:
  assumes "aggregator_snapshot F D now channel a = (sn, a')"
    and "\<forall>(s, st) \<in> set (ag_streams a). stream_ok D st"
    and "y \<in> set (sn_symbols sn)"
  shows "(\<forall>v \<in> set (yv_venues y). \<exists>(s, st) \<in> set (ag_streams a). publishes a s \<and> sid_symbol s = yv_symbol y
        \<and> vv_venue v = sid_venue s \<and> honest_view D (vs_integrity (vt_ops st)) (ag_depth_levels a) v)
    \<and> yv_weakest_integrity y = opt_Min {i. \<exists>v \<in> set (yv_venues y). vv_integrity v = Some i}"
proof -
  note parts = snapshot_parts(4) [OF assms(1), unfolded same_rows]
  from assms(3) obtain k rows where y: "y = symbol_view_of D (ag_cross_max_age a) (k, rows)"
    and mem: "(k, rows) \<in> set (foldl (gather F D now a) [] (ag_streams a))" unfolding parts by auto
  then have rows: "rows = map (row_of F D now a) (shown a k (ag_streams a))" by (simp add: gathered_entries)
  have "\<exists>(s, st) \<in> set (ag_streams a). publishes a s \<and> sid_symbol s = yv_symbol y
      \<and> vv_venue v = sid_venue s \<and> honest_view D (vs_integrity (vt_ops st)) (ag_depth_levels a) v"
    if "v \<in> set (yv_venues y)" for v
  proof -
    from that obtain e where e: "e \<in> set (shown a k (ag_streams a))" "v = fst (row_of F D now a e)"
      by (auto simp: y symbol_view_of_def rows)
    then have "e \<in> set (ag_streams a)" "publishes a (fst e)" "sid_symbol (fst e) = k" by (auto simp: shown_def)
    moreover have "stream_ok D (snd e)" using assms(2) e(1) by (auto simp: shown_def)
    ultimately show ?thesis
      using view_honest e(2) view_fields(9) y by (intro bexI [of _ e]) (auto simp: symbol_view_of_def case_prod_beta)
  qed
  moreover have "yv_weakest_integrity y = opt_Min {i. \<exists>v \<in> set (yv_venues y). vv_integrity v = Some i}"
    by (simp add: y symbol_view_of_def weakest)
  ultimately show ?thesis by blast
qed

end
