(* ===== verification/Running.thy ===== *)
theory Running
  imports Aggregating Publishing
begin

text \<open>
  The aggregator's loop (\<open>Aggregator::run\<close> of \<open>ma-pipeline/src/aggregator.rs\<close>) against its
  environment: messages arrive on the channel at any moment, the supervisor changes the set of owned
  streams, and each \<open>select!\<close> takes the shutdown, a tick or a message.
\<close>

section \<open>The loop\<close>

text \<open>\<open>Draining\<close> is the batch at the top of a turn, \<open>Selecting\<close> the \<open>select!\<close> after it.\<close>

datatype run_phase = Draining | Selecting | Finished

record ('d, 's, 'f) running =
  rn_phase :: run_phase
  rn_rx :: "'d ingest_message channel"
  rn_agg :: "('d, 's) aggregator"
  rn_published :: "('d, 'f) snapshot list"

text \<open>
  What happens next. An event the phase does not wait for leaves the loop as it is.
\<close>

datatype 'd run_event =
    Arrives "'d ingest_message"
  | ProducersGone
  | Reassigned "stream_id list"
  | LoopStep
  | ShutdownFires ingest_time
  | TickFires ingest_time
  | Receives ingest_time

definition publish_at ::
  "'f float_ops \<Rightarrow> ('d, 'z) decimal_ops_scheme \<Rightarrow> ingest_time \<Rightarrow> run_phase
     \<Rightarrow> ('d, 's, 'f) running \<Rightarrow> ('d, 's, 'f) running" where
  "publish_at F D now phase r =
     (let (sn, a) = aggregator_snapshot F D now (metrics_of (rn_rx r)) (rn_agg r)
      in r\<lparr> rn_phase := phase, rn_agg := a, rn_published := rn_published r @ [sn] \<rparr>)"

definition apply_received ::
  "('d, 'z) decimal_ops_scheme \<Rightarrow> 'd ingest_message \<Rightarrow> 'd ingest_message channel
     \<Rightarrow> ('d, 's, 'f) running \<Rightarrow> ('d, 's, 'f) running rust" where
  "apply_received D m rx r =
     (case aggregator_apply D m (rn_agg r) of
        Panicked \<Rightarrow> Panicked
      | Returned a \<Rightarrow> Returned (r\<lparr> rn_phase := Draining, rn_rx := rx, rn_agg := a \<rparr>))"

fun run_step ::
  "'f float_ops \<Rightarrow> ('d, 'z) decimal_ops_scheme \<Rightarrow> 'd run_event \<Rightarrow> ('d, 's, 'f) running
     \<Rightarrow> ('d, 's, 'f) running rust" where
  "run_step F D (Arrives m) r = Returned (r\<lparr> rn_rx := snd (send m (rn_rx r)) \<rparr>)"
| "run_step F D ProducersGone r = Returned (r\<lparr> rn_rx := close (rn_rx r) \<rparr>)"
| "run_step F D (Reassigned owned) r =
     Returned (if ag_owned (rn_agg r) = None then r else r\<lparr> rn_agg := restricted_to (rn_agg r) owned \<rparr>)"
| "run_step F D LoopStep r =
     (if rn_phase r = Draining then
        (case try_recv (rn_rx r) of
           (Some m, rx) \<Rightarrow> apply_received D m rx r
         | (None, rx) \<Rightarrow> Returned (r\<lparr> rn_phase := Selecting, rn_rx := rx \<rparr>))
      else Returned r)"
| "run_step F D (ShutdownFires now) r =
     Returned (if rn_phase r = Selecting then publish_at F D now Finished r else r)"
| "run_step F D (TickFires now) r =
     Returned (if rn_phase r = Selecting then publish_at F D now Draining r else r)"
| "run_step F D (Receives now) r =
     (if rn_phase r = Selecting then
        (case recv_turn (rn_rx r) of
           (Item m, rx) \<Rightarrow> apply_received D m rx r
         | (Ended, rx) \<Rightarrow> Returned (publish_at F D now Finished (r\<lparr> rn_rx := rx \<rparr>))
         | (Waiting, rx) \<Rightarrow> Returned r)
      else Returned r)"

fun run_events ::
  "'f float_ops \<Rightarrow> ('d, 'z) decimal_ops_scheme \<Rightarrow> 'd run_event list \<Rightarrow> ('d, 's, 'f) running
     \<Rightarrow> ('d, 's, 'f) running rust" where
  "run_events F D [] r = Returned r"
| "run_events F D (e # es) r = (case run_step F D e r of Panicked \<Rightarrow> Panicked | Returned r' \<Rightarrow> run_events F D es r')"

definition run_begin :: "'d ingest_message channel \<Rightarrow> ('d, 's) aggregator \<Rightarrow> ('d, 's, 'f) running" where
  "run_begin rx a = \<lparr> rn_phase = Draining, rn_rx = rx, rn_agg = a, rn_published = [] \<rparr>"

section \<open>Well-formed books, whatever arrives\<close>

definition streams_ok :: "('d, 'z) decimal_ops_scheme \<Rightarrow> ('d, 's) aggregator \<Rightarrow> bool" where
  "streams_ok D a \<longleftrightarrow> om_sorted id (ag_streams a) \<and> (\<forall>s st. stream_state s a = Some st \<longrightarrow> stream_ok D st)"

lemma stream_state_mem: "om_sorted id (ag_streams a) \<Longrightarrow> (s, st) \<in> set (ag_streams a) \<longleftrightarrow> stream_state s a = Some st"
  unfolding stream_state_def using om_get_in [of id "ag_streams a" s st] om_get_mem [of id s "ag_streams a" st] by auto

text \<open>The venue behind each stream and the depth published, which no operation changes.\<close>

definition same_setup :: "('d, 's) aggregator \<Rightarrow> ('d, 's) aggregator \<Rightarrow> bool" where
  "same_setup a b \<longleftrightarrow> ag_depth_levels a = ag_depth_levels b
     \<and> (\<forall>s. map_option vt_ops (stream_state s a) = map_option vt_ops (stream_state s b))"

lemma applied_ok:
  assumes "apply_to_stream D m st resync sink = Returned (st', resync', sink')" and "stream_ok D st"
  shows "stream_ok D st'"
proof -
  have ops: "vt_ops st' = vt_ops st" by (rule applied_parts(1) [OF assms(1)])
  show ?thesis
  proof (cases m)
    case (FrameMessage f)
    with applied_book [OF assms(1)] assms(2) ops show ?thesis
      by (auto simp: stream_ok_def split: rust.splits prod.splits dest: feed_keeps_ok)
  qed (use applied_book [OF assms(1)] assms(2) ops reset_keeps_ok event_keeps_ok in \<open>auto simp: stream_ok_def\<close>)
qed

lemma step_ok:
  assumes "aggregator_apply D m a = Returned a'" and "streams_ok D a"
  shows "streams_ok D a' \<and> same_setup a' a \<and> ag_seq a' = ag_seq a"
  using assms(1)
proof (cases rule: aggregator_apply_cases)
  case untracked
  with assms(2) show ?thesis by (simp add: same_setup_def)
next
  case (tracked st st')
  have "om_sorted id (ag_streams a')"
    using assms tracked(1) by (auto simp: aggregator_apply_def streams_ok_def split: option.splits rust.splits)
  moreover have "stream_ok D st'"
    using applied_ok [OF tracked(2)] assms(2) tracked(1) by (simp add: streams_ok_def)
  moreover have "vt_ops st' = vt_ops st" by (rule applied_parts(1) [OF tracked(2)])
  moreover have "ag_depth_levels a' = ag_depth_levels a" "ag_seq a' = ag_seq a" by (subst tracked(4), simp)+
  ultimately show ?thesis
    using assms(2) tracked(1,3) by (auto simp: streams_ok_def same_setup_def)
qed

lemma start_ok: "streams_ok D (with_window_spec D specs start metrics spec)"
proof -
  have "stream_ok D st" if "stream_state s (with_window_spec D specs start metrics spec) = Some st" for s st
  proof -
    have "(s, st) \<in> set (map (\<lambda>(V, s, symbol, max_depth).
           (StreamId (vs_venue V) symbol, venue_state_new D V s symbol max_depth spec metrics start)) specs)"
      using that set_om_collect om_get_mem [of id s] unfolding stream_state_def with_window_spec_def by fastforce
    then show ?thesis
      by (auto simp: venue_state_new_def Let_def venue_book_new_def venue_book_with_max_depth_def new_book_def
          with_max_depth_def stream_ok_def venue_book_ok_def book_wf_def sides_ok_def split: option.splits)
  qed
  then show ?thesis by (simp add: streams_ok_def with_window_spec_def om_sorted_collect del: id_apply)
qed

section \<open>Publishing changes no stream\<close>

lemma after_viewing_simps:
  "fst (after_viewing F D now a (s, st)) = s"
  "vt_book (snd (after_viewing F D now a (s, st))) = vt_book st"
  "vt_ops (snd (after_viewing F D now a (s, st))) = vt_ops st"
  by (simp_all add: after_viewing_def view_stream_def Let_def case_prod_beta)

lemma get_after_viewing:
  "om_get id x (map (after_viewing F D now a) m) = map_option (\<lambda>st. snd (after_viewing F D now a (x, st))) (om_get id x m)"
  by (induction m) (auto simp: after_viewing_def)

lemma snapshot_ok:
  assumes "aggregator_snapshot F D now channel a = (sn, a')" and "streams_ok D a"
  shows "streams_ok D a'" "same_setup a' a" "ag_seq a' = ag_seq a + 1" "sn_seq sn = ag_seq a + 1"
proof -
  note parts = snapshot_parts [OF assms(1)]
  have get: "stream_state s a' = map_option (\<lambda>st. snd (after_viewing F D now (a\<lparr> ag_seq := ag_seq a + 1 \<rparr>) (s, st))) (stream_state s a)" for s
    unfolding stream_state_def parts(5) by (rule get_after_viewing)
  have "map (\<lambda>p. id (fst p)) (ag_streams a') = map (\<lambda>p. id (fst p)) (ag_streams a)"
    unfolding parts(5) by (auto simp: after_viewing_simps(1))
  then have "om_sorted id (ag_streams a')" using assms(2) unfolding om_sorted_def streams_ok_def by simp
  then show "streams_ok D a'"
    using assms(2) by (auto simp: streams_ok_def get stream_ok_def after_viewing_simps)
  have "ag_depth_levels a' = ag_depth_levels a"
    using assms(1) by (auto simp: aggregator_snapshot_def Let_def)
  then show "same_setup a' a"
    by (auto simp: same_setup_def get after_viewing_simps map_option.compositionality o_def)
  show "ag_seq a' = ag_seq a + 1" "sn_seq sn = ag_seq a + 1" by (rule parts(2), rule parts(1))
qed

section \<open>Every snapshot of every run\<close>

text \<open>A snapshot whose cards are honest about the venues of \<open>a\<close>.\<close>

definition honest_snapshot ::
  "('d, 'z) decimal_ops_scheme \<Rightarrow> ('d, 's) aggregator \<Rightarrow> ('d, 'f) snapshot \<Rightarrow> bool" where
  "honest_snapshot D a sn \<longleftrightarrow> (\<forall>y \<in> set (sn_symbols sn).
     (\<forall>v \<in> set (yv_venues y). \<exists>s st. stream_state s a = Some st \<and> sid_symbol s = yv_symbol y
        \<and> sid_venue s = vv_venue v \<and> honest_view D (vs_integrity (vt_ops st)) (ag_depth_levels a) v)
     \<and> yv_weakest_integrity y = opt_Min {i. \<exists>v \<in> set (yv_venues y). vv_integrity v = Some i})"

lemma honest_published:
  assumes "aggregator_snapshot F D now channel a = (sn, a')" and "streams_ok D a" and "same_setup a b"
  shows "honest_snapshot D b sn"
  unfolding honest_snapshot_def
proof (intro ballI)
  fix y assume y: "y \<in> set (sn_symbols sn)"
  have "\<forall>(s, st) \<in> set (ag_streams a). stream_ok D st"
    using assms(2) by (auto simp: streams_ok_def stream_state_mem)
  from snapshot_honest [OF assms(1) this y]
  have views: "\<forall>v \<in> set (yv_venues y). \<exists>s st. (s, st) \<in> set (ag_streams a) \<and> sid_symbol s = yv_symbol y
        \<and> vv_venue v = sid_venue s \<and> honest_view D (vs_integrity (vt_ops st)) (ag_depth_levels a) v"
    and weakest: "yv_weakest_integrity y = opt_Min {i. \<exists>v \<in> set (yv_venues y). vv_integrity v = Some i}" by blast+
  have "\<exists>s st. stream_state s b = Some st \<and> sid_symbol s = yv_symbol y
        \<and> sid_venue s = vv_venue v \<and> honest_view D (vs_integrity (vt_ops st)) (ag_depth_levels b) v"
    if "v \<in> set (yv_venues y)" for v
  proof -
    from views that obtain s st where s: "(s, st) \<in> set (ag_streams a)" "sid_symbol s = yv_symbol y"
      "vv_venue v = sid_venue s" "honest_view D (vs_integrity (vt_ops st)) (ag_depth_levels a) v" by blast
    then have "stream_state s a = Some st" using assms(2) by (simp add: streams_ok_def stream_state_mem)
    moreover have "map_option vt_ops (stream_state s a) = map_option vt_ops (stream_state s b)"
      and depth: "ag_depth_levels b = ag_depth_levels a" using assms(3) by (simp_all add: same_setup_def)
    ultimately obtain st' where "stream_state s b = Some st'" "vt_ops st' = vt_ops st"
      by (cases "stream_state s b") auto
    with s depth show ?thesis by (intro exI [of _ s] exI [of _ st']) simp
  qed
  with weakest show "(\<forall>v \<in> set (yv_venues y). \<exists>s st. stream_state s b = Some st \<and> sid_symbol s = yv_symbol y
        \<and> sid_venue s = vv_venue v \<and> honest_view D (vs_integrity (vt_ops st)) (ag_depth_levels b) v)
     \<and> yv_weakest_integrity y = opt_Min {i. \<exists>v \<in> set (yv_venues y). vv_integrity v = Some i}" by blast
qed

definition run_inv ::
  "('d, 'z) decimal_ops_scheme \<Rightarrow> ('d, 's) aggregator \<Rightarrow> ('d, 's, 'f) running \<Rightarrow> bool" where
  "run_inv D b r \<longleftrightarrow> streams_ok D (rn_agg r) \<and> same_setup (rn_agg r) b
     \<and> ag_seq (rn_agg r) = ag_seq b + of_nat (length (rn_published r))
     \<and> (\<forall>i < length (rn_published r). sn_seq (rn_published r ! i) = ag_seq b + of_nat (Suc i)
          \<and> honest_snapshot D b (rn_published r ! i))"

lemma same_setup_trans: "same_setup a b \<Longrightarrow> same_setup b c \<Longrightarrow> same_setup a c"
  by (simp add: same_setup_def)

lemma publish_inv:
  assumes "run_inv D b r"
  shows "run_inv D b (publish_at F D now phase r)"
proof -
  obtain sn a where sn: "aggregator_snapshot F D now (metrics_of (rn_rx r)) (rn_agg r) = (sn, a)" by fastforce
  have ok: "streams_ok D (rn_agg r)" and like: "same_setup (rn_agg r) b" using assms by (simp_all add: run_inv_def)
  note kept = snapshot_ok [OF sn ok] and honest = honest_published [OF sn ok like]
  show ?thesis
    using assms kept(1,3,4) honest same_setup_trans [OF kept(2) like]
    by (simp add: run_inv_def publish_at_def sn nth_append less_Suc_eq)
qed

lemma apply_inv:
  assumes "apply_received D m rx r = Returned r'" and "run_inv D b r"
  shows "run_inv D b r'"
proof -
  from assms(1) obtain a where a: "aggregator_apply D m (rn_agg r) = Returned a"
    "r' = r\<lparr> rn_phase := Draining, rn_rx := rx, rn_agg := a \<rparr>"
    by (auto simp: apply_received_def split: rust.splits)
  with step_ok [OF a(1)] assms(2) show ?thesis
    by (auto simp: run_inv_def intro: same_setup_trans)
qed

lemma run_step_inv:
  assumes "run_step F D e r = Returned r'" and "run_inv D b r"
  shows "run_inv D b r'"
proof (cases e)
  case (Reassigned owned)
  have "run_inv D b (r\<lparr> rn_agg := restricted_to (rn_agg r) owned \<rparr>)"
    using assms(2) by (simp add: run_inv_def restricted_to_def streams_ok_def stream_state_def same_setup_def)
  with Reassigned assms show ?thesis by (auto split: if_splits)
next
  case LoopStep
  with assms show ?thesis
    by (auto split: if_splits option.splits prod.splits intro: apply_inv) (simp add: run_inv_def)
next
  case (Receives now)
  have rx: "run_inv D b (r\<lparr> rn_rx := rx \<rparr>)" for rx using assms(2) by (simp add: run_inv_def)
  with Receives assms show ?thesis
    by (auto split: if_splits received.splits prod.splits intro: apply_inv publish_inv)
next
  case (Arrives m)
  with assms show ?thesis by (auto simp: run_inv_def)
next
  case ProducersGone
  with assms show ?thesis by (auto simp: run_inv_def)
qed (use assms in \<open>auto intro: publish_inv split: if_splits\<close>)

lemma run_events_inv: "run_events F D es r = Returned r' \<Longrightarrow> run_inv D b r \<Longrightarrow> run_inv D b r'"
  by (induction es arbitrary: r) (auto split: rust.splits intro: run_step_inv)


lemma loop_steps_drain:
  assumes "rn_phase r = Draining" and "apply_all D (ch_queue (rn_rx r)) (rn_agg r) = Returned a'"
  shows "run_events F D (replicate (Suc (length (ch_queue (rn_rx r)))) LoopStep) r
    = Returned (r\<lparr> rn_phase := Selecting, rn_rx := (rn_rx r)\<lparr> ch_queue := [] \<rparr>, rn_agg := a' \<rparr>)"
  using assms
proof (induction "ch_queue (rn_rx r)" arbitrary: r)
  case Nil
  then have "ch_queue (rn_rx r) = []" by simp
  with Nil.prems show ?case by (simp add: try_recv_cases)
next
  case (Cons m ms)
  have q: "ch_queue (rn_rx r) = m # ms" using Cons.hyps(2) by simp
  with Cons.prems(2) obtain a1 where a1: "aggregator_apply D m (rn_agg r) = Returned a1" "apply_all D ms a1 = Returned a'"
    by (auto split: rust.splits)
  let ?r = "r\<lparr> rn_phase := Draining, rn_rx := (rn_rx r)\<lparr> ch_queue := ms \<rparr>, rn_agg := a1 \<rparr>"
  have "run_step F D LoopStep r = Returned ?r"
    by (simp add: Cons.prems(1) try_recv_cases q apply_received_def a1(1))
  moreover have "run_events F D (replicate (Suc (length ms)) LoopStep) ?r
      = Returned (?r\<lparr> rn_phase := Selecting, rn_rx := (rn_rx ?r)\<lparr> ch_queue := [] \<rparr>, rn_agg := a' \<rparr>)"
    using Cons.hyps(1) [of ?r] a1(2) by simp
  ultimately show ?case by (simp add: q)
qed


text \<open>
  Every tick publishes each stream of this node once, under its symbol, and no other stream. The
  sequence number goes up by one; symbols come in strictly increasing order and none is empty; the
  venues of a symbol are exactly the owned streams of that symbol in the order of the map, each shown
  by its own state; and publishing moves no book.
\<close>

theorem snapshot_shows_each_stream_once:
  assumes "aggregator_snapshot F D now channel a = (sn, a')"
  shows "sn_seq sn = ag_seq a + 1 \<and> ag_seq a' = ag_seq a + 1
    \<and> sorted_wrt (<) (map yv_symbol (sn_symbols sn))
    \<and> (\<forall>y \<in> set (sn_symbols sn). yv_venues y \<noteq> []
        \<and> yv_venues y = map (\<lambda>e. fst (row_of F D now a e)) (shown a (yv_symbol y) (ag_streams a)))
    \<and> (\<forall>e \<in> set (ag_streams a). publishes a (fst e) \<longrightarrow>
        (\<exists>y \<in> set (sn_symbols sn). yv_symbol y = sid_symbol (fst e) \<and> fst (row_of F D now a e) \<in> set (yv_venues y)))
    \<and> map (\<lambda>(s, st). (s, vt_book st)) (ag_streams a') = map (\<lambda>(s, st). (s, vt_book st)) (ag_streams a)"
proof -
  note parts = snapshot_parts [OF assms, unfolded same_rows]
  let ?m = "foldl (gather F D now a) [] (ag_streams a)"
  have symbols: "map yv_symbol (sn_symbols sn) = map fst ?m"
    by (simp add: parts(4) symbol_view_of_def case_prod_beta)
  have "sorted_wrt (<) (map fst ?m)"
    using gathered_start(2) [of F D now a "ag_streams a"] by (simp add: om_sorted_def)
  moreover have "\<forall>y \<in> set (sn_symbols sn). yv_venues y \<noteq> []
      \<and> yv_venues y = map (\<lambda>e. fst (row_of F D now a e)) (shown a (yv_symbol y) (ag_streams a))"
    using gathered_entries [of _ _ F D now a "ag_streams a"]
    by (auto simp: parts(4) symbol_view_of_def)
  moreover have "\<exists>y \<in> set (sn_symbols sn). yv_symbol y = sid_symbol (fst e) \<and> fst (row_of F D now a e) \<in> set (yv_venues y)"
    if e: "e \<in> set (ag_streams a)" "publishes a (fst e)" for e
  proof -
    have mem: "e \<in> set (shown a (sid_symbol (fst e)) (ag_streams a))" using e by (simp add: shown_def)
    then have "(sid_symbol (fst e), map (row_of F D now a) (shown a (sid_symbol (fst e)) (ag_streams a))) \<in> set ?m"
      by (auto simp: gathered_entries)
    then have y: "symbol_view_of D (ag_cross_max_age a)
        (sid_symbol (fst e), map (row_of F D now a) (shown a (sid_symbol (fst e)) (ag_streams a))) \<in> set (sn_symbols sn)"
      unfolding parts(4) by (auto intro: imageI)
    show ?thesis by (rule bexI [OF _ y]) (use mem in \<open>simp add: symbol_view_of_def\<close>)
  qed
  moreover have "map (\<lambda>(s, st). (s, vt_book st)) (ag_streams a') = map (\<lambda>(s, st). (s, vt_book st)) (ag_streams a)"
    by (auto simp: parts(5) after_viewing_def view_stream_def Let_def case_prod_beta)
  ultimately show ?thesis using parts(1,2) symbols by auto
qed

section \<open>Witnesses\<close>

definition unit_floats :: "unit float_ops" where
  "unit_floats = \<lparr> fl_zero = (), fl_secs = (\<lambda>_. ()), fl_nonpos = (\<lambda>_. False), fl_of_u64 = (\<lambda>_. ()), fl_div = (\<lambda>_ _. ()) \<rparr>"

definition sample_channel :: "rat ingest_message channel" where
  "sample_channel = \<lparr> ch_capacity = 4, ch_queue = [SessionEnded mismatching_stream (sample_time 3) Idle],
     ch_dropped = 0, ch_senders = 1, ch_closed = False \<rparr>"

abbreviation sample_run :: "(rat, kraken_sync, unit) running" where
  "sample_run \<equiv> run_begin sample_channel plain_start"

lemma sample_drains: "\<exists>a. apply_all rat_decimals (ch_queue (rn_rx sample_run)) (rn_agg sample_run) = Returned a"
  using plain_ends [of "sample_time 3" Idle] by (auto simp: run_begin_def sample_channel_def)


lemma sample_publishes:
  "\<exists>r. run_events unit_floats rat_decimals [LoopStep, LoopStep, TickFires (sample_time 5)] sample_run = Returned r
    \<and> length (rn_published r) = 1"
proof -
  obtain a where a: "apply_all rat_decimals (ch_queue (rn_rx sample_run)) (rn_agg sample_run) = Returned a"
    using sample_drains by blast
  have start: "rn_phase sample_run = Draining" "rn_published sample_run = []" "length (ch_queue (rn_rx sample_run)) = 1"
    by (simp_all add: run_begin_def sample_channel_def)
  have append: "run_events F D (xs @ ys) r = (case run_events F D xs r of Panicked \<Rightarrow> Panicked | Returned r' \<Rightarrow> run_events F D ys r')"
    for F D xs ys and r :: "(rat, kraken_sync, unit) running"
    by (induction xs arbitrary: r) (auto split: rust.split)
  have "run_events unit_floats rat_decimals [LoopStep, LoopStep] sample_run
      = Returned (sample_run\<lparr> rn_phase := Selecting, rn_rx := (rn_rx sample_run)\<lparr> ch_queue := [] \<rparr>, rn_agg := a \<rparr>)"
    using loop_steps_drain [OF start(1) a, of unit_floats] start(3) by (simp del: run_events.simps run_step.simps)
  then have "run_events unit_floats rat_decimals ([LoopStep, LoopStep] @ [TickFires (sample_time 5)]) sample_run
      = Returned (publish_at unit_floats rat_decimals (sample_time 5) Draining
          (sample_run\<lparr> rn_phase := Selecting, rn_rx := (rn_rx sample_run)\<lparr> ch_queue := [] \<rparr>, rn_agg := a \<rparr>))"
    unfolding append by simp
  then show ?thesis using start(2) by (simp add: publish_at_def case_prod_beta del: run_events.simps run_step.simps)
qed


lemma snapshot_shows_each_stream_once_witness:
  "\<exists>sn a'. aggregator_snapshot unit_floats rat_decimals (sample_time 5) (metrics_of sample_channel) plain_start = (sn, a')
    \<and> (\<exists>y \<in> set (sn_symbols sn). yv_symbol y = ''BTC-USD'')"
proof -
  obtain sn a' where sn: "aggregator_snapshot unit_floats rat_decimals (sample_time 5) (metrics_of sample_channel) plain_start
      = (sn, a')" by fastforce
  obtain st where "stream_state mismatching_stream plain_start = Some st" using plain_stream by blast
  then have "(mismatching_stream, st) \<in> set (ag_streams plain_start)"
    using om_get_mem [of id mismatching_stream "ag_streams plain_start" st] by (auto simp: stream_state_def)
  moreover have "publishes plain_start mismatching_stream" by (simp add: publishes_def with_window_spec_def)
  ultimately show ?thesis using snapshot_shows_each_stream_once [OF sn] sn by fastforce
qed

end
