(* ===== verification/Ingest.thy ===== *)
theory Ingest
  imports Aggregating
begin

text \<open>
  The ingest task of one stream (\<open>ma-pipeline/src/ingest.rs\<close>): connect, subscribe, read, and
  reconnect. The network, the timers and the watches are the environment: an attempt carries how
  its connection went, and a session is driven by the events its \<open>select!\<close> wakes up on, in any
  order. Every publication is teed to the tape, when there is one, and pushed on the channel the
  tasks share.
\<close>

section \<open>The task\<close>

record ('d, 'j) ingest =
  in_stream :: stream_id
  in_endpoint :: venue_endpoint
  in_tx :: "'d ingest_message channel"
  in_counters :: venue_counters
  in_policy :: backoff_policy
  in_jitter :: 'j
  in_tape :: "'d ingest_message list option"

definition ingest_new ::
  "stream_id \<Rightarrow> venue_endpoint \<Rightarrow> 'd ingest_message channel \<Rightarrow> venue_counters \<Rightarrow> 'j \<Rightarrow> ('d, 'j) ingest" where
  "ingest_new stream endpoint tx counters j = \<lparr> in_stream = stream, in_endpoint = endpoint, in_tx = tx,
     in_counters = counters, in_policy = backoff_policy_default, in_jitter = j, in_tape = None \<rparr>"

definition ingest_with_backoff :: "('d, 'j) ingest \<Rightarrow> backoff_policy \<Rightarrow> ('d, 'j) ingest" where
  "ingest_with_backoff g policy = g\<lparr> in_policy := policy \<rparr>"

definition recording_to :: "('d, 'j) ingest \<Rightarrow> ('d, 'j) ingest" where
  "recording_to g = g\<lparr> in_tape := Some [] \<rparr>"

definition count :: "counter \<Rightarrow> ('d, 'j) ingest \<Rightarrow> ('d, 'j) ingest" where
  "count c g = g\<lparr> in_counters := bump c (in_counters g) \<rparr>"

text \<open>Hand a message to the tape and to the aggregator; whether anything downstream listens.\<close>

definition publish :: "'d ingest_message \<Rightarrow> ('d, 'j) ingest \<Rightarrow> bool \<times> ('d, 'j) ingest" where
  "publish m g =
     (let g = g\<lparr> in_tape := map_option (\<lambda>tape. tape @ [m]) (in_tape g) \<rparr>
      in case send m (in_tx g) of
           (Sent, tx) \<Rightarrow> (True, g\<lparr> in_tx := tx \<rparr>)
         | (DroppedOldest _, tx) \<Rightarrow> (True, count Dropped (g\<lparr> in_tx := tx \<rparr>))
         | (Closed _, tx) \<Rightarrow> (False, g\<lparr> in_tx := tx \<rparr>))"

definition emit :: "raw_frame \<Rightarrow> ('d, 'j) ingest \<Rightarrow> bool \<times> ('d, 'j) ingest" where
  "emit frame g = publish (FrameMessage frame)
     (g\<lparr> in_counters := record_frame (length (fr_payload frame)) (in_counters g) \<rparr>)"

section \<open>A session\<close>

text \<open>
  Where the REST snapshot and the audit are: the futures the \<open>select!\<close> polls beside the socket.
  \<open>RestOff\<close> and \<open>AuditOff\<close> are pending forever, and so is an audit whose channel has closed.
\<close>

datatype rest_phase = RestOff | RestUnpolled | RestFetching | RestSleeping | RestDone
datatype audit_phase = AuditOff | AuditWaiting | AuditFetching | AuditParked

record 'j session_state =
  ss_rest :: rest_phase
  ss_rest_backoff :: "'j backoff"
  ss_audit :: audit_phase

text \<open>What the \<open>select!\<close> and the futures in it can wake up on.\<close>

datatype session_event =
    ShutdownSeen
  | ResyncSeen
  | RestPolled
  | RestBody string ingest_time
  | RestFails
  | RestTimer
  | AuditTick
  | AuditBody string ingest_time
  | AuditFails
  | IdleElapsed
  | PeerClosed
  | SocketFails
  | Payload string ingest_time

definition session_start :: "('d, 'j) ingest \<Rightarrow> 'j session_state" where
  "session_start g = \<lparr> ss_rest = (case ve_rest_snapshot_url (in_endpoint g) of None \<Rightarrow> RestOff | Some _ \<Rightarrow> RestUnpolled),
     ss_rest_backoff = backoff_new (in_policy g) (in_jitter g),
     ss_audit = (case ve_rest_audit (in_endpoint g) of None \<Rightarrow> AuditOff | Some _ \<Rightarrow> AuditWaiting) \<rparr>"

text \<open>One turn of the fetch of \<open>rest_snapshot\<close>; an event its phase does not wait for is not its own.\<close>

fun rest_turn ::
  "(duration \<Rightarrow> 'j \<Rightarrow> (duration \<times> 'j) rust) \<Rightarrow> session_event \<Rightarrow> 'j session_state \<Rightarrow> ('d, 'j) ingest
     \<Rightarrow> ('j session_state \<times> ('d, 'j) ingest) rust" where
  "rest_turn sample RestPolled ss g =
     Returned (if ss_rest ss = RestUnpolled then (ss\<lparr> ss_rest := RestFetching \<rparr>, count RestFetches g) else (ss, g))"
| "rest_turn sample (RestBody body now) ss g =
     Returned (if ss_rest ss = RestFetching
       then (ss\<lparr> ss_rest := RestDone \<rparr>, snd (emit (frame_rest_snapshot (in_stream g) body now) g)) else (ss, g))"
| "rest_turn sample RestFails ss g =
     (if ss_rest ss = RestFetching
      then (case next_delay sample (ss_rest_backoff ss) of
              Panicked \<Rightarrow> Panicked
            | Returned (_, b) \<Rightarrow>
                Returned (ss\<lparr> ss_rest := RestSleeping, ss_rest_backoff := b \<rparr>, count RestFailures g))
      else Returned (ss, g))"
| "rest_turn sample RestTimer ss g =
     Returned (if ss_rest ss = RestSleeping then (ss\<lparr> ss_rest := RestFetching \<rparr>, count RestFetches g) else (ss, g))"
| "rest_turn sample _ ss g = Returned (ss, g)"

text \<open>One turn of \<open>audit_loop\<close>.\<close>

fun audit_turn :: "session_event \<Rightarrow> 'j session_state \<Rightarrow> ('d, 'j) ingest \<Rightarrow> 'j session_state \<times> ('d, 'j) ingest" where
  "audit_turn AuditTick ss g =
     (if ss_audit ss = AuditWaiting then (ss\<lparr> ss_audit := AuditFetching \<rparr>, count AuditFetches g) else (ss, g))"
| "audit_turn (AuditBody body now) ss g =
     (if ss_audit ss = AuditFetching
      then (let (heard, g) = emit (frame_rest_audit (in_stream g) body now) g
            in (ss\<lparr> ss_audit := (if heard then AuditWaiting else AuditParked) \<rparr>, g))
      else (ss, g))"
| "audit_turn AuditFails ss g =
     (if ss_audit ss = AuditFetching then (ss\<lparr> ss_audit := AuditWaiting \<rparr>, count AuditFailures g) else (ss, g))"
| "audit_turn _ ss g = (ss, g)"

text \<open>The arms of the \<open>select!\<close>: how the session ends, if it does.\<close>

fun session_turn ::
  "(duration \<Rightarrow> 'j \<Rightarrow> (duration \<times> 'j) rust) \<Rightarrow> session_event \<Rightarrow> 'j session_state \<Rightarrow> ('d, 'j) ingest
     \<Rightarrow> (session_end option \<times> 'j session_state \<times> ('d, 'j) ingest) rust" where
  "session_turn sample ShutdownSeen ss g = Returned (Some Stopped, ss, g)"
| "session_turn sample ResyncSeen ss g = Returned (Some ResyncRequested, ss, g)"
| "session_turn sample IdleElapsed ss g = Returned (Some Idle, ss, count IdleTimeouts g)"
| "session_turn sample PeerClosed ss g = Returned (Some SessionClosed, ss, count Disconnects g)"
| "session_turn sample SocketFails ss g = Returned (Some SessionErrored, ss, count Disconnects g)"
| "session_turn sample (Payload payload now) ss g =
     (let (heard, g) = emit (frame_new (in_stream g) payload now) g
      in Returned (if heard then None else Some Downstream, ss, g))"
| "session_turn sample ev ss g =
     (case rest_turn sample ev ss g of
        Panicked \<Rightarrow> Panicked
      | Returned (ss, g) \<Rightarrow> (case audit_turn ev ss g of (ss, g) \<Rightarrow> Returned (None, ss, g)))"

text \<open>The loop of a session over what wakes it; without an end it is still open.\<close>

fun session_loop ::
  "(duration \<Rightarrow> 'j \<Rightarrow> (duration \<times> 'j) rust) \<Rightarrow> session_event list \<Rightarrow> 'j session_state \<Rightarrow> ('d, 'j) ingest
     \<Rightarrow> (session_end option \<times> ('d, 'j) ingest) rust" where
  "session_loop sample [] ss g = Returned (None, g)"
| "session_loop sample (ev # evs) ss g =
     (case session_turn sample ev ss g of
        Panicked \<Rightarrow> Panicked
      | Returned (Some e, _, g) \<Rightarrow> Returned (Some e, g)
      | Returned (None, ss, g) \<Rightarrow> session_loop sample evs ss g)"

section \<open>The reconnect loop\<close>

text \<open>
  What the environment does in one attempt: whether the shutdown was seen before it, whether the
  connection opens and takes each subscription, what wakes the session, the clock readings when it
  starts, when it has ended and for the boundary, and whether the shutdown cuts the sleep short.
\<close>

record attempt =
  at_shut :: bool
  at_connects :: bool
  at_sends :: "string \<Rightarrow> bool"
  at_events :: "session_event list"
  at_started :: ingest_time
  at_finished :: ingest_time
  at_boundary :: ingest_time
  at_shut_asleep :: bool

definition session ::
  "(duration \<Rightarrow> 'j \<Rightarrow> (duration \<times> 'j) rust) \<Rightarrow> attempt \<Rightarrow> ('d, 'j) ingest
     \<Rightarrow> (session_end option \<times> ('d, 'j) ingest) rust" where
  "session sample att g =
     (if \<not> at_connects att \<or> \<not> list_all (at_sends att) (ve_subscribe (in_endpoint g))
      then Returned (Some ConnectFailed, count ConnectFailures g)
      else session_loop sample (at_events att) (session_start g) (count Connects g))"

text \<open>Whether the task has returned, and the schedule and task it leaves.\<close>

fun ingest_run ::
  "(duration \<Rightarrow> 'j \<Rightarrow> (duration \<times> 'j) rust) \<Rightarrow> attempt list \<Rightarrow> 'j backoff \<Rightarrow> ('d, 'j) ingest
     \<Rightarrow> (bool \<times> 'j backoff \<times> ('d, 'j) ingest) rust" where
  "ingest_run sample [] b g = Returned (False, b, g)"
| "ingest_run sample (att # atts) b g =
     (if at_shut att then Returned (True, b, g)
      else case session sample att g of
        Panicked \<Rightarrow> Panicked
      | Returned (None, g) \<Rightarrow> Returned (False, b, g)
      | Returned (Some e, g) \<Rightarrow>
          if \<not> should_retry e then Returned (True, b, g)
          else (let g = snd (publish (SessionEnded (in_stream g) (at_boundary att) e) g);
                    b = snd (note_session b (since (at_finished att) (at_started att)))
                in case next_delay sample b of
                     Panicked \<Rightarrow> Panicked
                   | Returned (_, b) \<Rightarrow>
                       if at_shut_asleep att then Returned (True, b, g) else ingest_run sample atts b g))"

section \<open>What a task hands on\<close>

fun evictions_by :: "'a list \<Rightarrow> 'a channel \<Rightarrow> nat" where
  "evictions_by [] c = 0"
| "evictions_by (x # xs) c =
     (case fst (send x c) of DroppedOldest _ \<Rightarrow> 1 | _ \<Rightarrow> 0) + evictions_by xs (snd (send x c))"

abbreviation sent_all :: "'a list \<Rightarrow> 'a channel \<Rightarrow> 'a channel" where
  "sent_all ms c \<equiv> foldl (\<lambda>c m. snd (send m c)) c ms"

fun is_frame :: "'d ingest_message \<Rightarrow> bool" where
  "is_frame (FrameMessage _) = True"
| "is_frame _ = False"

text \<open>
  The task is left as it was but for the messages handed on: on the tape, when there is one, all of
  them; on the channel, sent in order; in the counters, each frame and each eviction they caused.
\<close>

definition handed :: "'d ingest_message list \<Rightarrow> ('d, 'j) ingest \<Rightarrow> ('d, 'j) ingest \<Rightarrow> bool" where
  "handed ms g g' \<longleftrightarrow>
     in_tape g' = map_option (\<lambda>tape. tape @ ms) (in_tape g)
     \<and> in_tx g' = sent_all ms (in_tx g)
     \<and> vc_frames (in_counters g') = vc_frames (in_counters g) + of_nat (length (filter is_frame ms))
     \<and> vc_dropped (in_counters g') = vc_dropped (in_counters g) + of_nat (evictions_by ms (in_tx g))
     \<and> in_stream g' = in_stream g \<and> in_endpoint g' = in_endpoint g \<and> in_policy g' = in_policy g"

lemma evictions_by_append: "evictions_by (xs @ ys) c = evictions_by xs c + evictions_by ys (sent_all xs c)"
  by (induction xs arbitrary: c) simp_all

lemma handed_Nil: "handed [] g g"
  by (simp add: handed_def option.map_id0 [unfolded id_def])

lemma handed_trans: "handed xs g g1 \<Longrightarrow> handed ys g1 g2 \<Longrightarrow> handed (xs @ ys) g g2"
  by (auto simp: handed_def evictions_by_append option.map_comp o_def)

lemma handed_count [intro]:
  "c \<noteq> Dropped \<Longrightarrow> handed [] g (count c g)"
  by (cases c) (simp_all add: handed_def count_def option.map_id0 [unfolded id_def])

lemma handed_publish:
  assumes "\<not> is_frame m"
  shows "handed [m] g (snd (publish m g))"
  using assms
  by (auto simp: handed_def publish_def Let_def count_def split: send_outcome.split prod.split)

lemma handed_emit:
  "handed [FrameMessage f] g (snd (emit f g))"
  by (auto simp: handed_def emit_def publish_def Let_def count_def record_frame_def
      split: send_outcome.split prod.split)

lemma publish_heard: "fst (publish m g) \<longleftrightarrow> \<not> ch_closed (in_tx g)"
  by (auto simp: publish_def Let_def send_def push_section_def split: send_outcome.splits prod.splits option.splits list.splits if_splits)

lemma emit_heard: "fst (emit f g) \<longleftrightarrow> \<not> ch_closed (in_tx g)"
  by (simp add: emit_def publish_heard)

lemma send_closed [simp]: "ch_closed (snd (send m c)) = ch_closed c"
  by (auto simp: send_def push_section_def split: prod.splits option.splits)

lemma sent_all_closed [simp]: "ch_closed (sent_all ms c) = ch_closed c"
  by (induction ms arbitrary: c) simp_all

lemma handed_closed: "handed ms g g' \<Longrightarrow> ch_closed (in_tx g') = ch_closed (in_tx g)"
  by (simp add: handed_def)

section \<open>A session, frame by frame\<close>

definition from_socket :: "raw_frame list \<Rightarrow> raw_frame list" where
  "from_socket = filter (\<lambda>f. fr_source f = WebSocket)"

fun ends_by :: "session_event \<Rightarrow> session_end option" where
  "ends_by ShutdownSeen = Some Stopped"
| "ends_by ResyncSeen = Some ResyncRequested"
| "ends_by IdleElapsed = Some Idle"
| "ends_by PeerClosed = Some SessionClosed"
| "ends_by SocketFails = Some SessionErrored"
| "ends_by _ = None"

fun read_by :: "stream_id \<Rightarrow> session_event \<Rightarrow> raw_frame list" where
  "read_by s (Payload payload now) = [frame_new s payload now]"
| "read_by s _ = []"

text \<open>The reference: what the socket delivered before the session ended, and how it ended.\<close>

fun delivered :: "stream_id \<Rightarrow> session_event list \<Rightarrow> raw_frame list" where
  "delivered s [] = []"
| "delivered s (ev # evs) = (if ends_by ev \<noteq> None then [] else read_by s ev @ delivered s evs)"

fun outcome_of :: "session_event list \<Rightarrow> session_end option" where
  "outcome_of [] = None"
| "outcome_of (ev # evs) = (case ends_by ev of Some e \<Rightarrow> Some e | None \<Rightarrow> outcome_of evs)"

definition frames_only :: "stream_id \<Rightarrow> raw_frame list \<Rightarrow> ('d, 'j) ingest \<Rightarrow> ('d, 'j) ingest \<Rightarrow> bool" where
  "frames_only s fs g g' \<longleftrightarrow> handed (map FrameMessage fs) g g' \<and> (\<forall>f \<in> set fs. fr_stream f = s)"

lemma frames_only_trans: "frames_only s xs g g1 \<Longrightarrow> frames_only s ys g1 g2 \<Longrightarrow> frames_only s (xs @ ys) g g2"
  by (auto simp: frames_only_def intro: handed_trans)

lemma frames_only_Nil: "frames_only s [] g g"
  by (simp add: frames_only_def handed_Nil)

lemma frames_only_count: "c \<noteq> Dropped \<Longrightarrow> frames_only s [] g (count c g)"
  by (simp add: frames_only_def handed_count)

lemma frames_only_emit: "fr_stream f = s \<Longrightarrow> frames_only s [f] g (snd (emit f g))"
  using handed_emit by (simp add: frames_only_def)

lemma frame_new_fields [simp]:
  "fr_stream (frame_new s p t) = s" "fr_source (frame_new s p t) = WebSocket"
  "fr_stream (frame_rest_snapshot s p t) = s" "fr_source (frame_rest_snapshot s p t) = RestSnapshotSource"
  "fr_stream (frame_rest_audit s p t) = s" "fr_source (frame_rest_audit s p t) = RestAudit"
  by (simp_all add: frame_new_def frame_rest_snapshot_def frame_rest_audit_def)

lemma side_frames:
  assumes "(\<exists>f. fr_stream f = in_stream g \<and> fr_source f \<noteq> WebSocket \<and> g' = snd (emit f g))
      \<or> (\<exists>c. c \<noteq> Dropped \<and> g' = count c g) \<or> g' = g"
  shows "\<exists>fs. frames_only (in_stream g) fs g g' \<and> from_socket fs = []"
proof -
  consider f where "fr_stream f = in_stream g" "fr_source f \<noteq> WebSocket" "g' = snd (emit f g)"
    | c where "c \<noteq> Dropped" "g' = count c g" | "g' = g" using assms by blast
  then show ?thesis
  proof cases
    case (1 f)
    then show ?thesis by (intro exI [of _ "[f]"]) (simp add: frames_only_emit from_socket_def)
  qed (auto intro!: exI [of _ "[]"] simp: frames_only_count frames_only_Nil from_socket_def)
qed

lemma rest_frames:
  assumes "rest_turn sample ev ss g = Returned (ss', g')"
  shows "\<exists>fs. frames_only (in_stream g) fs g g' \<and> from_socket fs = []"
proof (rule side_frames)
  have "(\<exists>body now. g' = snd (emit (frame_rest_snapshot (in_stream g) body now) g)) \<or> (\<exists>c. c \<noteq> Dropped \<and> g' = count c g) \<or> g' = g"
    using assms by (cases "(sample, ev, ss, g)" rule: rest_turn.cases) (auto split: if_splits rust.splits prod.splits)
  then show "(\<exists>f. fr_stream f = in_stream g \<and> fr_source f \<noteq> WebSocket \<and> g' = snd (emit f g))
      \<or> (\<exists>c. c \<noteq> Dropped \<and> g' = count c g) \<or> g' = g"
    by (metis frame_new_fields(3,4) frame_source.distinct(1))
qed

lemma audit_frames:
  assumes "audit_turn ev ss g = (ss', g')"
  shows "\<exists>fs. frames_only (in_stream g) fs g g' \<and> from_socket fs = []"
proof (rule side_frames)
  have "(\<exists>body now. g' = snd (emit (frame_rest_audit (in_stream g) body now) g)) \<or> (\<exists>c. c \<noteq> Dropped \<and> g' = count c g) \<or> g' = g"
    using assms by (cases "(ev, ss, g)" rule: audit_turn.cases) (auto simp: Let_def case_prod_beta split: if_splits)
  then show "(\<exists>f. fr_stream f = in_stream g \<and> fr_source f \<noteq> WebSocket \<and> g' = snd (emit f g))
      \<or> (\<exists>c. c \<noteq> Dropped \<and> g' = count c g) \<or> g' = g"
    by (metis frame_new_fields(5,6) frame_source.distinct(3))
qed

lemma frames_only_stream: "frames_only s fs g g' \<Longrightarrow> in_stream g' = in_stream g \<and> ch_closed (in_tx g') = ch_closed (in_tx g)"
  by (simp add: frames_only_def handed_def)

lemma turn_frames:
  assumes "session_turn sample ev ss g = Returned (e, ss', g')" and "\<not> ch_closed (in_tx g)"
  shows "\<exists>fs. frames_only (in_stream g) fs g g' \<and> from_socket fs = (if ends_by ev \<noteq> None then [] else read_by (in_stream g) ev)
    \<and> e = ends_by ev"
proof (cases "\<exists>payload now. ev = Payload payload now")
  case True
  then obtain payload now where ev: "ev = Payload payload now" by blast
  with assms have "g' = snd (emit (frame_new (in_stream g) payload now) g)" "e = None"
    by (auto simp: Let_def case_prod_beta emit_heard)
  then show ?thesis
    by (intro exI [of _ "[frame_new (in_stream g) payload now]"])
      (simp add: ev frames_only_emit from_socket_def)
next
  case other: False
  show ?thesis
  proof (cases "ends_by ev")
    case (Some x)
    then have "e = Some x" "g' = g \<or> (\<exists>c. c \<noteq> Dropped \<and> g' = count c g)"
      using assms(1) by (cases ev; auto)+
    with Some show ?thesis
      by (intro exI [of _ "[]"]) (auto simp: from_socket_def intro: frames_only_Nil frames_only_count)
  next
    case None
    with other assms(1) obtain ss1 g1 where rest: "rest_turn sample ev ss g = Returned (ss1, g1)"
      and audit: "audit_turn ev ss1 g1 = (ss', g')" and e: "e = None"
      by (cases ev) (auto split: rust.splits prod.splits)
    obtain xs where xs: "frames_only (in_stream g) xs g g1" "from_socket xs = []" using rest_frames [OF rest] by blast
    obtain ys where ys: "frames_only (in_stream g1) ys g1 g'" "from_socket ys = []" using audit_frames [OF audit] by blast
    have "in_stream g1 = in_stream g" using frames_only_stream [OF xs(1)] by simp
    with xs ys have "frames_only (in_stream g) (xs @ ys) g g'" by (auto intro: frames_only_trans)
    moreover have "read_by (in_stream g) ev = []" using other by (cases ev) auto
    ultimately show ?thesis using None e xs(2) ys(2) by (intro exI [of _ "xs @ ys"]) (simp add: from_socket_def)
  qed
qed

lemma loop_frames:
  assumes "session_loop sample evs ss g = Returned (e, g')" and "\<not> ch_closed (in_tx g)"
  shows "\<exists>fs. frames_only (in_stream g) fs g g' \<and> from_socket fs = delivered (in_stream g) evs \<and> e = outcome_of evs"
  using assms
proof (induction evs arbitrary: ss g)
  case Nil
  then show ?case by (intro exI [of _ "[]"]) (simp add: frames_only_Nil from_socket_def)
next
  case (Cons ev evs)
  from Cons.prems(1) obtain x ss1 g1 where turn: "session_turn sample ev ss g = Returned (x, ss1, g1)"
    by (auto split: rust.splits)
  obtain fs where fs: "frames_only (in_stream g) fs g g1" "from_socket fs = (if ends_by ev \<noteq> None then [] else read_by (in_stream g) ev)"
    "x = ends_by ev" using turn_frames [OF turn Cons.prems(2)] by blast
  show ?case
  proof (cases "ends_by ev")
    case (Some e')
    with fs turn Cons.prems(1) show ?thesis by (intro exI [of _ fs]) auto
  next
    case None
    note same = frames_only_stream [OF fs(1)]
    from None fs(3) turn Cons.prems(1) have "session_loop sample evs ss1 g1 = Returned (e, g')" by simp
    moreover have "\<not> ch_closed (in_tx g1)" using same Cons.prems(2) by simp
    ultimately obtain ys where ys: "frames_only (in_stream g1) ys g1 g'" "from_socket ys = delivered (in_stream g1) evs"
      "e = outcome_of evs" using Cons.IH by blast
    then have "frames_only (in_stream g) (fs @ ys) g g'" using same fs(1) by (auto intro: frames_only_trans)
    with ys fs(2) None same show ?thesis by (intro exI [of _ "fs @ ys"]) (simp add: from_socket_def)
  qed
qed

text \<open>An attempt's frames, and how it ends.\<close>

definition opens :: "attempt \<Rightarrow> venue_endpoint \<Rightarrow> bool" where
  "opens att e \<longleftrightarrow> at_connects att \<and> list_all (at_sends att) (ve_subscribe e)"

definition attempt_reads :: "stream_id \<Rightarrow> venue_endpoint \<Rightarrow> attempt \<Rightarrow> raw_frame list" where
  "attempt_reads s e att = (if opens att e then delivered s (at_events att) else [])"

definition attempt_end :: "venue_endpoint \<Rightarrow> attempt \<Rightarrow> session_end option" where
  "attempt_end e att = (if opens att e then outcome_of (at_events att) else Some ConnectFailed)"

lemma session_frames:
  assumes "session sample att g = Returned (e, g')" and "\<not> ch_closed (in_tx g)"
  shows "\<exists>fs. frames_only (in_stream g) fs g g' \<and> from_socket fs = attempt_reads (in_stream g) (in_endpoint g) att
    \<and> e = attempt_end (in_endpoint g) att"
proof (cases "opens att (in_endpoint g)")
  case True
  then have "session_loop sample (at_events att) (session_start g) (count Connects g) = Returned (e, g')"
    using assms(1) by (simp add: session_def opens_def)
  moreover have "\<not> ch_closed (in_tx (count Connects g))" "in_stream (count Connects g) = in_stream g"
    using assms(2) by (simp_all add: count_def)
  ultimately obtain fs where "frames_only (in_stream g) fs (count Connects g) g'"
    "from_socket fs = delivered (in_stream g) (at_events att)" "e = outcome_of (at_events att)"
    using loop_frames by metis
  moreover have "frames_only (in_stream g) [] g (count Connects g)" by (simp add: frames_only_count)
  ultimately show ?thesis
    using frames_only_trans [of "in_stream g" "[]" g "count Connects g" fs g'] True
    by (auto simp: attempt_reads_def attempt_end_def)
next
  case False
  then have "g' = count ConnectFailures g" "e = Some ConnectFailed"
    using assms(1) by (auto simp: session_def opens_def)
  with False show ?thesis
    by (intro exI [of _ "[]"]) (simp add: attempt_reads_def attempt_end_def from_socket_def frames_only_count)
qed

section \<open>The whole run\<close>

text \<open>
  The messages of one attempt: frames of the stream, those of the socket exactly what it delivered,
  and then the boundary, which is there when the attempt ended in a way that is retried.
\<close>

definition segment_ok :: "stream_id \<Rightarrow> venue_endpoint \<Rightarrow> attempt \<Rightarrow> 'd ingest_message list \<Rightarrow> bool" where
  "segment_ok s e att seg \<longleftrightarrow> (\<exists>fs. seg = map FrameMessage fs
       @ (case attempt_end e att of
            Some r \<Rightarrow> if should_retry r then [SessionEnded s (at_boundary att) r] else []
          | None \<Rightarrow> [])
     \<and> (\<forall>f \<in> set fs. fr_stream f = s) \<and> from_socket fs = attempt_reads s e att)"

text \<open>The attempts a run makes: it stops at a shutdown and after an end that is not retried.\<close>

fun attempts_made :: "venue_endpoint \<Rightarrow> attempt list \<Rightarrow> attempt list" where
  "attempts_made e [] = []"
| "attempts_made e (att # atts) =
     (if at_shut att then []
      else att # (case attempt_end e att of
          Some r \<Rightarrow> if should_retry r \<and> \<not> at_shut_asleep att then attempts_made e atts else []
        | None \<Rightarrow> []))"

lemma run_segments:
  assumes "ingest_run sample atts b g = Returned (fin, b', g')" and "\<not> ch_closed (in_tx g)"
  shows "\<exists>segs. list_all2 (segment_ok (in_stream g) (in_endpoint g)) (attempts_made (in_endpoint g) atts) segs
    \<and> handed (concat segs) g g'"
  using assms
proof (induction atts arbitrary: b g)
  case Nil
  then show ?case by (simp add: handed_Nil)
next
  case (Cons att atts)
  show ?case
  proof (cases "at_shut att")
    case True
    with Cons.prems(1) show ?thesis by (simp add: handed_Nil)
  next
    case running: False
    with Cons.prems(1) obtain e g1 where s: "session sample att g = Returned (e, g1)"
      by (auto split: rust.splits prod.splits)
    obtain fs where fs: "frames_only (in_stream g) fs g g1" "from_socket fs = attempt_reads (in_stream g) (in_endpoint g) att"
      and e: "e = attempt_end (in_endpoint g) att" using session_frames [OF s Cons.prems(2)] by blast
    have h1: "handed (map FrameMessage fs) g g1" using fs(1) by (simp add: frames_only_def)
    have alike: "in_stream g1 = in_stream g" "in_endpoint g1 = in_endpoint g" "\<not> ch_closed (in_tx g1)"
      using h1 Cons.prems(2) handed_closed [OF h1] by (simp_all add: handed_def)
    show ?thesis
    proof (cases "\<exists>r. e = Some r \<and> should_retry r")
      case False
      then have "g' = g1" using Cons.prems(1) running s by (auto split: option.splits)
      moreover have "segment_ok (in_stream g) (in_endpoint g) att (map FrameMessage fs)"
        unfolding segment_ok_def using False fs e by (intro exI [of _ fs]) (auto simp: frames_only_def split: option.splits)
      moreover have "attempts_made (in_endpoint g) (att # atts) = [att]"
        using False e running by (auto split: option.splits)
      ultimately show ?thesis using h1 by (intro exI [of _ "[map FrameMessage fs]"]) simp
    next
      case True
      then obtain r where r: "e = Some r" "should_retry r" by blast
      let ?m = "SessionEnded (in_stream g) (at_boundary att) r"
      let ?g2 = "snd (publish ?m g1)" and ?seg = "map FrameMessage fs @ [?m]"
      have ended: "attempt_end (in_endpoint g) att = Some r" using e r(1) by simp
      have seg: "segment_ok (in_stream g) (in_endpoint g) att ?seg"
        unfolding segment_ok_def using r fs e by (intro exI [of _ fs]) (auto simp: frames_only_def)
      have "handed [?m] g1 ?g2" by (rule handed_publish) simp
      with h1 have h2: "handed ?seg g ?g2" by (rule handed_trans)
      from Cons.prems(1) running s r alike(1) obtain d b1 where nd: "next_delay sample (snd (note_session b (since (at_finished att) (at_started att))))
          = Returned (d, b1)" by (auto simp: Let_def split: rust.splits prod.splits)
      show ?thesis
      proof (cases "at_shut_asleep att")
        case asleep: True
        then have "g' = ?g2" using Cons.prems(1) running s r alike(1) nd by (simp add: Let_def)
        moreover have "attempts_made (in_endpoint g) (att # atts) = [att]" using ended r(2) running asleep by simp
        ultimately show ?thesis using seg h2 by (intro exI [of _ "[?seg]"]) simp
      next
        case awake: False
        then have "ingest_run sample atts b1 ?g2 = Returned (fin, b', g')"
          using Cons.prems(1) running s r alike(1) nd by (simp add: Let_def)
        moreover have alike2: "in_stream ?g2 = in_stream g" "in_endpoint ?g2 = in_endpoint g" "\<not> ch_closed (in_tx ?g2)"
          using h2 Cons.prems(2) handed_closed [OF h2] by (simp_all add: handed_def)
        ultimately obtain segs where segs: "list_all2 (segment_ok (in_stream g) (in_endpoint g)) (attempts_made (in_endpoint g) atts) segs"
          "handed (concat segs) ?g2 g'" using Cons.IH [of b1 ?g2] by auto
        have "attempts_made (in_endpoint g) (att # atts) = att # attempts_made (in_endpoint g) atts"
          using ended r(2) running awake by simp
        then show ?thesis
          using segs seg handed_trans [OF h2 segs(2)] by (intro exI [of _ "?seg # segs"]) simp
      qed
    qed
  qed
qed

text \<open>
  C32. Sessions never blur. While the channel is open, what a task publishes over any number of
  reconnects is one segment for each attempt it makes, in order: frames of its own stream only, those
  of the socket exactly the payloads delivered before the session ended and in that order, then one
  boundary if the end is one that is retried, and no boundary otherwise. The tape, when there is one,
  gets every message; the channel is sent the same messages; each frame and each eviction is counted.
\<close>

theorem sessions_never_blur:
  assumes "ingest_run sample atts (backoff_new (in_policy g) j) g = Returned (fin, b', g')" and "\<not> ch_closed (in_tx g)"
  shows "\<exists>segs. list_all2 (segment_ok (in_stream g) (in_endpoint g)) (attempts_made (in_endpoint g) atts) segs
    \<and> in_tape g' = map_option (\<lambda>tape. tape @ concat segs) (in_tape g)
    \<and> in_tx g' = sent_all (concat segs) (in_tx g)
    \<and> vc_frames (in_counters g') = vc_frames (in_counters g) + of_nat (length (filter is_frame (concat segs)))
    \<and> vc_dropped (in_counters g') = vc_dropped (in_counters g) + of_nat (evictions_by (concat segs) (in_tx g))"
  using run_segments [OF assms] by (auto simp: handed_def)

section \<open>A boundary is a message like any other\<close>

lemma apply_all_other:
  assumes "apply_all D ms a = Returned a'" and "\<forall>m \<in> set ms. message_stream m \<noteq> s"
  shows "stream_state s a' = stream_state s a"
  using assms
proof (induction ms arbitrary: a)
  case (Cons m ms)
  then obtain a1 where a1: "aggregator_apply D m a = Returned a1" "apply_all D ms a1 = Returned a'"
    by (auto split: rust.splits)
  from a1(1) have "stream_state s a1 = stream_state s a"
    using Cons.prems(2) by (cases rule: aggregator_apply_cases) auto
  with Cons.IH [OF a1(2)] Cons.prems(2) show ?case by simp
qed simp

text \<open>
  C33. A full channel can drop the boundary itself. After a session ends, as many messages of other
  streams as the channel holds, sent before the aggregator gets to it, evict the boundary: the
  aggregator applies everything that is left and the book stays exactly as it was, live if it was
  live, through the whole reconnect window.
\<close>

theorem boundary_can_be_dropped:
  assumes "channel_ok c" and "ch_capacity c \<le> length ms" and "\<forall>m \<in> set ms. message_stream m \<noteq> s"
    and "drain D (sent_all (SessionEnded s t e # ms) c) a = Returned (rx, a')"
  shows "SessionEnded s t e \<notin> set (ch_queue (sent_all (SessionEnded s t e # ms) c))
    \<and> ch_queue rx = [] \<and> stream_state s a' = stream_state s a"
proof -
  let ?q = "ch_queue (sent_all (SessionEnded s t e # ms) c)"
  have "?q = drop (length (ch_queue c @ SessionEnded s t e # ms) - ch_capacity c) (ch_queue c @ SessionEnded s t e # ms)"
    by (rule chan.newest_kept [OF assms(1)])
  also have "\<dots> = drop (length ms - ch_capacity c) ms"
    using assms(2) by (simp add: Suc_diff_le)
  finally have q: "?q = drop (length ms - ch_capacity c) ms" .
  then have others: "\<forall>m \<in> set ?q. message_stream m \<noteq> s" using assms(3) by (auto dest: in_set_dropD)
  from assms(4) have run: "apply_all D ?q a = Returned a'" and rx: "ch_queue rx = []"
    by (auto simp: drain_applies_the_queue split: rust.splits)
  from apply_all_other [OF run others] others rx show ?thesis by fastforce
qed

section \<open>Witnesses\<close>

lemma closed_emit [simp]: "ch_closed (in_tx (snd (emit f g))) = ch_closed (in_tx g)"
  using handed_closed [OF handed_emit] .

definition sample_ingest :: "(rat, unit) ingest" where
  "sample_ingest = recording_to (ingest_new mismatching_stream
     \<lparr> ve_venue = Kraken, ve_ws_url = [], ve_subscribe = [''sub''], ve_rest_snapshot_url = None,
       ve_idle_timeout = 0, ve_rest_audit = None \<rparr>
     \<lparr> ch_capacity = 2, ch_queue = [], ch_dropped = 0, ch_senders = 1, ch_closed = False \<rparr> counters_default ())"

definition sample_attempts :: "attempt list" where
  "sample_attempts =
     [\<lparr> at_shut = False, at_connects = True, at_sends = (\<lambda>_. True),
        at_events = [Payload ''a'' (sample_time 1), Payload ''b'' (sample_time 2), PeerClosed],
        at_started = sample_time 0, at_finished = sample_time 3, at_boundary = sample_time 4, at_shut_asleep = True \<rparr>]"

lemma sessions_never_blur_witness:
  "\<exists>fin b' g'. ingest_run no_jitter_sample sample_attempts (backoff_new (in_policy sample_ingest) ()) sample_ingest
      = Returned (fin, b', g')
    \<and> (\<exists>segs. list_all2 (segment_ok mismatching_stream (in_endpoint sample_ingest))
         (attempts_made (in_endpoint sample_ingest) sample_attempts) segs \<and> in_tape g' = Some (concat segs))"
proof -
  obtain fin b' g' where run: "ingest_run no_jitter_sample sample_attempts (backoff_new (in_policy sample_ingest) ()) sample_ingest
      = Returned (fin, b', g')"
    by (simp add: sample_attempts_def session_def sample_ingest_def recording_to_def ingest_new_def count_def Let_def
        case_prod_beta emit_heard next_delay_def no_jitter_sample_def)
  have "\<not> ch_closed (in_tx sample_ingest)" by (simp add: sample_ingest_def recording_to_def ingest_new_def)
  from sessions_never_blur [OF run this] run show ?thesis
    by (auto simp: sample_ingest_def recording_to_def ingest_new_def)
qed

lemma boundary_can_be_dropped_witness:
  "\<exists>rx a. drain rat_decimals (sent_all
       [SessionEnded mismatching_stream (sample_time 3) Idle, SessionEnded (StreamId Coinbase ''BTC-USD'') (sample_time 4) Idle]
       \<lparr> ch_capacity = 1, ch_queue = [], ch_dropped = 0, ch_senders = 1, ch_closed = False \<rparr>) plain_start = Returned (rx, a)
    \<and> stream_state mismatching_stream a = stream_state mismatching_stream plain_start"
proof -
  let ?c = "\<lparr> ch_capacity = 1, ch_queue = [], ch_dropped = 0, ch_senders = 1, ch_closed = False \<rparr> :: rat ingest_message channel"
  let ?ms = "[SessionEnded (StreamId Coinbase ''BTC-USD'') (sample_time 4) Idle] :: rat ingest_message list"
  let ?b = "SessionEnded mismatching_stream (sample_time 3) Idle :: rat ingest_message"
  have ok: "channel_ok ?c" "ch_capacity ?c \<le> length ?ms" "\<forall>m \<in> set ?ms. message_stream m \<noteq> mismatching_stream"
    by (simp_all add: channel_ok_def)
  have "\<exists>st. ag_streams plain_start = [(mismatching_stream, st)]"
    by (simp add: with_window_spec_def om_collect_def mismatching_kraken_def)
  then have "stream_state (StreamId Coinbase ''BTC-USD'') plain_start = None"
    by (auto simp: stream_state_def)
  then have "apply_all rat_decimals ?ms plain_start = Returned plain_start"
    by (simp add: aggregator_apply_def stream_state_def)
  moreover have "ch_queue (sent_all (?b # ?ms) ?c) = ?ms" by (simp add: send_def push_section_def)
  ultimately obtain rx where dr: "drain rat_decimals (sent_all (?b # ?ms) ?c) plain_start = Returned (rx, plain_start)"
    by (simp add: drain_applies_the_queue del: foldl_Cons)
  from boundary_can_be_dropped [OF ok dr] dr show ?thesis by blast
qed

end
