(* ===== verification/Gateway.thy ===== *)
theory Gateway
  imports Running "HOL-Library.Product_Lexorder"
begin

text \<open>
  The gateway (\<open>ma-server/src/gateway/mod.rs\<close>): one view merged from the last snapshot of every
  node, each age advanced by how long ago that snapshot arrived. It is the one place that sees a
  stream run by two nodes.
\<close>

section \<open>Reports and statuses\<close>

definition gateway_clock :: string where
  "gateway_clock = ''node_monotonic+gateway_monotonic''"

record gateway_policy =
  gp_max_node_age :: duration
  gp_cross_max_age :: duration

definition gateway_policy_default :: gateway_policy where
  "gateway_policy_default = \<lparr> gp_max_node_age = from_secs 3, gp_cross_max_age = cross_policy_default_max_age \<rparr>"

record ('d, 'f) node_report =
  nr_node :: string
  nr_url :: string
  nr_snapshot :: "('d, 'f) snapshot option"
  nr_received_at :: "ingest_time option"
  nr_last_error :: "string option"
  nr_connects :: u64
  nr_failures :: u64

definition node_report_new :: "string \<Rightarrow> string \<Rightarrow> ('d, 'f) node_report" where
  "node_report_new node url = \<lparr> nr_node = node, nr_url = url, nr_snapshot = None, nr_received_at = None,
     nr_last_error = None, nr_connects = 0, nr_failures = 0 \<rparr>"

datatype node_exclusion = NeverReported | StaleNode duration

fun show_node_exclusion :: "node_exclusion \<Rightarrow> string" where
  "show_node_exclusion NeverReported = ''no snapshot received yet''"
| "show_node_exclusion (StaleNode lag) = ''no snapshot for '' @ show_nat (lag div 1000000) @ ''ms''"

record node_status =
  ns_node :: string
  ns_url :: string
  ns_included :: bool
  ns_excluded_because :: "string option"
  ns_lag_ms :: "nat option"
  ns_streams :: nat
  ns_seq :: "u64 option"
  ns_connects :: u64
  ns_failures :: u64
  ns_last_error :: "string option"

record duplicated_stream =
  du_symbol :: string
  du_venue :: venue_id
  du_nodes :: "string list"

record ('d, 'f) merged_snapshot =
  mg_snapshot :: "('d, 'f) snapshot"
  mg_nodes :: "node_status list"
  mg_duplicated :: "duplicated_stream list"

definition nodes_used :: "('d, 'f) merged_snapshot \<Rightarrow> nat" where
  "nodes_used m = length (filter ns_included (mg_nodes m))"

section \<open>Ages\<close>

definition saturating_add :: "nat \<Rightarrow> nat \<Rightarrow> nat" where
  "saturating_add a b = sat_u64 (a + b)"

definition aged :: "('d, 'f) venue_view \<Rightarrow> duration \<Rightarrow> ('d, 'f) venue_view" where
  "aged view lag = (let lag_ms = millis_u64 lag in view\<lparr>
     vv_age_ms := Some (case vv_age_ms view of None \<Rightarrow> lag_ms | Some a \<Rightarrow> saturating_add a lag_ms),
     vv_status_for_ms := saturating_add (vv_status_for_ms view) lag_ms,
     vv_last_verified_ms := map_option (\<lambda>v. saturating_add v lag_ms) (vv_last_verified_ms view),
     vv_last_trade := map_option (\<lambda>t. t\<lparr> tv_age_ms := saturating_add (tv_age_ms t) lag_ms \<rparr>) (vv_last_trade view) \<rparr>)"

definition effective_age :: "('d, 'f) venue_view \<Rightarrow> nat" where
  "effective_age view = (case vv_age_ms view of None \<Rightarrow> u64_max | Some a \<Rightarrow> a)"

text \<open>The shape the consolidation reads; times and the reason are placeholders.\<close>

definition view_top :: "('d, 'f) venue_view \<Rightarrow> ingest_time \<Rightarrow> 'd top_of_book_view" where
  "view_top view now = \<lparr> top_bid = vv_bid view, top_ask = vv_ask view,
     top_state = (case vv_status view of
        StatusLive \<Rightarrow> Live (case vv_integrity view of None \<Rightarrow> OrderOnly | Some i \<Rightarrow> i) now None
      | StatusDesynced \<Rightarrow> Desynced now ConnectionLost
      | StatusUninitialized \<Rightarrow> Uninitialized),
     top_age = map_option from_millis (vv_age_ms view) \<rparr>"

section \<open>Merging\<close>

text \<open>One node's claim on a stream, and all the claims by symbol and venue.\<close>

type_synonym ('d, 'f) claim = "string \<times> nat \<times> ('d, 'f) venue_view"
type_synonym ('d, 'f) claim_map = "(symbol \<times> (venue_id \<times> ('d, 'f) claim list) list) list"

definition report_lag :: "ingest_time \<Rightarrow> ('d, 'f) node_report \<Rightarrow> duration option" where
  "report_lag now r = map_option (since now) (nr_received_at r)"

definition report_excluded :: "ingest_time \<Rightarrow> gateway_policy \<Rightarrow> ('d, 'f) node_report \<Rightarrow> node_exclusion option" where
  "report_excluded now policy r = (case (nr_snapshot r, report_lag now r) of
     (Some _, Some lag) \<Rightarrow> if lag \<le> gp_max_node_age policy then None else Some (StaleNode lag)
   | _ \<Rightarrow> Some NeverReported)"

definition report_status :: "ingest_time \<Rightarrow> gateway_policy \<Rightarrow> ('d, 'f) node_report \<Rightarrow> node_status" where
  "report_status now policy r = (let excluded = report_excluded now policy r in
     \<lparr> ns_node = nr_node r, ns_url = nr_url r, ns_included = (excluded = None),
       ns_excluded_because = map_option show_node_exclusion excluded,
       ns_lag_ms = map_option millis_u64 (report_lag now r),
       ns_streams = (case nr_snapshot r of None \<Rightarrow> 0 | Some s \<Rightarrow> sum_list (map (length \<circ> yv_venues) (sn_symbols s))),
       ns_seq = map_option sn_seq (nr_snapshot r),
       ns_connects = nr_connects r, ns_failures = nr_failures r, ns_last_error = nr_last_error r \<rparr>)"

text \<open>\<open>entry(symbol).or_default().entry(venue).or_default().push(claim)\<close>.\<close>

definition push_claim ::
  "symbol \<Rightarrow> venue_id \<Rightarrow> ('d, 'f) claim \<Rightarrow> ('d, 'f) claim_map \<Rightarrow> ('d, 'f) claim_map" where
  "push_claim symbol venue c m =
     om_insert id symbol (push_entry venue c (case om_get id symbol m of None \<Rightarrow> [] | Some vs \<Rightarrow> vs)) m"

definition claim_views ::
  "('d, 'f) node_report \<Rightarrow> duration \<Rightarrow> ('d, 'f) claim_map \<Rightarrow> ('d, 'f) symbol_view \<Rightarrow> ('d, 'f) claim_map" where
  "claim_views r lag m y = foldl (\<lambda>m view.
     push_claim (yv_symbol y) (vv_venue view) (nr_node r, millis_u64 lag, aged view lag) m) m (yv_venues y)"

definition add_channel :: "channel_metrics \<Rightarrow> channel_metrics \<Rightarrow> channel_metrics" where
  "add_channel a b = \<lparr> cm_len = cm_len a + cm_len b, cm_capacity = cm_capacity a + cm_capacity b,
     cm_dropped = cm_dropped a + cm_dropped b \<rparr>"

text \<open>One turn of the loop over the reports, without the statuses.\<close>

definition merge_report ::
  "ingest_time \<Rightarrow> gateway_policy \<Rightarrow> ('d, 'f) claim_map \<times> channel_metrics \<Rightarrow> ('d, 'f) node_report
     \<Rightarrow> ('d, 'f) claim_map \<times> channel_metrics" where
  "merge_report now policy acc r = (case acc of (m, channel) \<Rightarrow>
     if report_excluded now policy r \<noteq> None then (m, channel)
     else case (nr_snapshot r, report_lag now r) of
       (Some s, Some lag) \<Rightarrow> (foldl (claim_views r lag) m (sn_symbols s), add_channel channel (sn_channel s))
     | _ \<Rightarrow> (m, channel))"

text \<open>The claim that is shown: the freshest, then by the node's name; alone it is not compared.\<close>

definition winning_claims :: "('d, 'f) claim list \<Rightarrow> ('d, 'f) claim list" where
  "winning_claims claims = (if 1 < length claims
     then sort_key (\<lambda>(node, _, view). (effective_age view, node)) claims else claims)"

definition venue_winners ::
  "(venue_id \<times> ('d, 'f) claim list) list \<Rightarrow> (venue_id \<times> ('d, 'f) claim) list" where
  "venue_winners by_venue = List.map_filter (\<lambda>(venue, claims).
     case winning_claims claims of [] \<Rightarrow> None | c # _ \<Rightarrow> Some (venue, c)) by_venue"

definition merged_symbol ::
  "('d, 'z) decimal_ops_scheme \<Rightarrow> ingest_time \<Rightarrow> gateway_policy \<Rightarrow> symbol \<times> (venue_id \<times> ('d, 'f) claim list) list
     \<Rightarrow> ('d, 'f) symbol_view" where
  "merged_symbol D now policy entry = (case entry of (symbol, by_venue) \<Rightarrow>
     let winners = venue_winners by_venue;
         views = map (\<lambda>(_, _, _, view). view) winners
     in \<lparr> yv_symbol = symbol,
          yv_weakest_integrity = foldl (\<lambda>acc v. opt_join min acc (vv_integrity v)) None
            (filter (\<lambda>v. vv_status v = StatusLive) views),
          yv_cross = make_cross_view D (map (\<lambda>(venue, _, _, view). (venue, view_top view now)) winners)
            (gp_cross_max_age policy) gateway_clock,
          yv_cross_windows = consolidated_windows D (map (\<lambda>(_, _, lag_ms, view). (view, lag_ms)) winners),
          yv_venues = views \<rparr>)"

definition duplicates_of :: "symbol \<times> (venue_id \<times> ('d, 'f) claim list) list \<Rightarrow> duplicated_stream list" where
  "duplicates_of entry = (case entry of (symbol, by_venue) \<Rightarrow>
     map (\<lambda>(venue, claims). \<lparr> du_symbol = symbol, du_venue = venue, du_nodes = map fst claims \<rparr>)
       (filter (\<lambda>(_, claims). 1 < length claims) by_venue))"

definition merge ::
  "('d, 'z) decimal_ops_scheme \<Rightarrow> ('d, 'f) node_report list \<Rightarrow> ingest_time \<Rightarrow> u64 \<Rightarrow> gateway_policy
     \<Rightarrow> ('d, 'f) merged_snapshot" where
  "merge D reports now seq policy =
     (let (books, channel) = foldl (merge_report now policy)
            ([], \<lparr> cm_len = 0, cm_capacity = 0, cm_dropped = 0 \<rparr>) reports
      in \<lparr> mg_snapshot = \<lparr> sn_seq = seq, sn_wall_unix_ms = unix_millis (wall_t now), sn_clock = gateway_clock,
             sn_symbols = map (merged_symbol D now policy) books, sn_channel = channel \<rparr>,
           mg_nodes = map (report_status now policy) reports,
           mg_duplicated = concat (map duplicates_of books) \<rparr>)"

section \<open>The claims of a merge\<close>

text \<open>The reference: every claim of every included report, flat and in order, with its stream.\<close>

definition report_claims ::
  "ingest_time \<Rightarrow> gateway_policy \<Rightarrow> ('d, 'f) node_report \<Rightarrow> ((symbol \<times> venue_id) \<times> ('d, 'f) claim) list" where
  "report_claims now policy r =
     (if report_excluded now policy r \<noteq> None then []
      else case (nr_snapshot r, report_lag now r) of
        (Some s, Some lag) \<Rightarrow> concat (map (\<lambda>y. map (\<lambda>view.
          ((yv_symbol y, vv_venue view), (nr_node r, millis_u64 lag, aged view lag))) (yv_venues y)) (sn_symbols s))
      | _ \<Rightarrow> [])"

definition all_claims ::
  "ingest_time \<Rightarrow> gateway_policy \<Rightarrow> ('d, 'f) node_report list \<Rightarrow> ((symbol \<times> venue_id) \<times> ('d, 'f) claim) list" where
  "all_claims now policy reports = concat (map (report_claims now policy) reports)"

definition claims_for :: "symbol \<Rightarrow> venue_id \<Rightarrow> ((symbol \<times> venue_id) \<times> ('d, 'f) claim) list \<Rightarrow> ('d, 'f) claim list" where
  "claims_for s v claims = map snd (filter (\<lambda>(k, _). k = (s, v)) claims)"

abbreviation push_all ::
  "((symbol \<times> venue_id) \<times> ('d, 'f) claim) list \<Rightarrow> ('d, 'f) claim_map \<Rightarrow> ('d, 'f) claim_map" where
  "push_all claims m \<equiv> foldl (\<lambda>m ((s, v), c). push_claim s v c m) m claims"

lemma merge_report_claims:
  "fst (merge_report now policy acc r) = push_all (report_claims now policy r) (fst acc)"
proof (cases "report_excluded now policy r")
  case None
  then obtain s lag where s: "nr_snapshot r = Some s" "report_lag now r = Some lag"
    by (auto simp: report_excluded_def split: option.splits if_splits)
  have "foldl (claim_views r lag) m ys
      = push_all (concat (map (\<lambda>y. map (\<lambda>view. ((yv_symbol y, vv_venue view), (nr_node r, millis_u64 lag, aged view lag)))
          (yv_venues y)) ys)) m" for m and ys :: "('a, 'b) symbol_view list"
    by (induction ys arbitrary: m) (simp_all add: claim_views_def foldl_map)
  with None s show ?thesis by (cases acc) (simp add: merge_report_def report_claims_def)
next
  case (Some e)
  then show ?thesis by (cases acc) (simp add: merge_report_def report_claims_def)
qed

lemma merged_books:
  "fst (foldl (merge_report now policy) acc reports) = push_all (all_claims now policy reports) (fst acc)"
  by (induction reports arbitrary: acc) (simp_all add: all_claims_def merge_report_claims)

text \<open>The shape of the map, and what it holds for a stream.\<close>

definition books_ok :: "('d, 'f) claim_map \<Rightarrow> bool" where
  "books_ok m \<longleftrightarrow> om_sorted id m
     \<and> (\<forall>(s, vs) \<in> set m. vs \<noteq> [] \<and> om_sorted id vs \<and> (\<forall>(v, cs) \<in> set vs. cs \<noteq> []))"

definition claims_at :: "symbol \<Rightarrow> venue_id \<Rightarrow> ('d, 'f) claim_map \<Rightarrow> ('d, 'f) claim list" where
  "claims_at s v m = rows_in v (rows_in s m)"

lemma push_claim_ok:
  assumes "books_ok m"
  shows "books_ok (push_claim s v c m)"
    "claims_at s' v' (push_claim s v c m) = (if s' = s \<and> v' = v then claims_at s v m @ [c] else claims_at s' v' m)"
proof -
  let ?vs = "rows_in s m"
  have push: "push_claim s v c m = om_insert id s (push_entry v c ?vs) m"
    by (simp add: push_claim_def rows_in_def)
  have old: "om_sorted id ?vs \<and> (\<forall>(v, cs) \<in> set ?vs. cs \<noteq> [])"
  proof (cases "om_get id s m")
    case None
    then show ?thesis by (simp add: rows_in_def)
  next
    case (Some vs)
    then have "(s, vs) \<in> set m" using om_get_mem by fastforce
    with assms Some show ?thesis by (fastforce simp: books_ok_def rows_in_def)
  qed
  have new: "push_entry v c ?vs \<noteq> []" "om_sorted id (push_entry v c ?vs)" "\<forall>(v, cs) \<in> set (push_entry v c ?vs). cs \<noteq> []"
  proof -
    have "om_keys id (push_entry v c ?vs) \<noteq> {}" unfolding push_entry_def by (subst om_keys_insert) simp
    then show "push_entry v c ?vs \<noteq> []" by (cases "push_entry v c ?vs") simp_all
    show "om_sorted id (push_entry v c ?vs)" unfolding push_entry_def by (rule om_sorted_insert) (use old in blast)
    show "\<forall>(v, cs) \<in> set (push_entry v c ?vs). cs \<noteq> []"
      using old set_om_insert [of id v _ ?vs] by (fastforce simp: push_entry_def)
  qed
  have "om_sorted id (push_claim s v c m)"
    unfolding push by (rule om_sorted_insert) (use assms in \<open>simp add: books_ok_def\<close>)
  moreover have "(s', vs) \<in> set (push_claim s v c m) \<Longrightarrow> (s', vs) \<in> set m \<or> vs = push_entry v c ?vs" for s' vs
    using set_om_insert [of id s "push_entry v c ?vs" m] unfolding push by auto
  ultimately show "books_ok (push_claim s v c m)" using assms new by (fastforce simp: books_ok_def)
  have "rows_in s' (push_claim s v c m) = (if s' = s then push_entry v c ?vs else rows_in s' m)" for s'
    unfolding push by (simp add: rows_in_def)
  then show "claims_at s' v' (push_claim s v c m) = (if s' = s \<and> v' = v then claims_at s v m @ [c] else claims_at s' v' m)"
    by (simp add: claims_at_def rows_in_push)
qed

lemma push_all_ok:
  assumes "books_ok m"
  shows "books_ok (push_all claims m) \<and> claims_at s v (push_all claims m) = claims_at s v m @ claims_for s v claims"
  using assms
proof (induction claims arbitrary: m)
  case Nil
  then show ?case by (simp add: claims_for_def)
next
  case (Cons k claims)
  obtain s' v' c where k: "k = ((s', v'), c)" by (metis surj_pair)
  from Cons.IH [OF push_claim_ok(1) [OF Cons.prems, of s' v' c]] push_claim_ok(2) [OF Cons.prems, of s v s' v' c]
  show ?case by (auto simp: k claims_for_def)
qed

abbreviation merge_map ::
  "ingest_time \<Rightarrow> gateway_policy \<Rightarrow> ('d, 'f) node_report list \<Rightarrow> ('d, 'f) claim_map" where
  "merge_map now policy reports \<equiv> push_all (all_claims now policy reports) []"

lemma merge_books:
  "books_ok (merge_map now policy reports)"
  "claims_at s v (merge_map now policy reports) = claims_for s v (all_claims now policy reports)"
proof -
  have "books_ok (merge_map now policy reports)
    \<and> claims_at s v (merge_map now policy reports) = claims_at s v ([] :: ('a, 'b) claim_map) @ claims_for s v (all_claims now policy reports)"
    by (rule push_all_ok) (simp add: books_ok_def)
  then show "books_ok (merge_map now policy reports)"
    "claims_at s v (merge_map now policy reports) = claims_for s v (all_claims now policy reports)"
    by (simp_all add: claims_at_def rows_in_def)
qed

lemma merge_parts:
  "sn_symbols (mg_snapshot (merge D reports now seq policy)) = map (merged_symbol D now policy) (merge_map now policy reports)"
  "mg_duplicated (merge D reports now seq policy) = concat (map duplicates_of (merge_map now policy reports))"
  "mg_nodes (merge D reports now seq policy) = map (report_status now policy) reports"
  by (simp_all add: merge_def case_prod_beta merged_books)

text \<open>An entry of the map holds exactly the claims on its symbol.\<close>

lemma books_entry:
  assumes "books_ok m" and "(s, vs) \<in> set m"
  shows "vs \<noteq> []" "om_sorted id vs" "(v, cs) \<in> set vs \<Longrightarrow> cs \<noteq> [] \<and> claims_at s v m = cs"
    "claims_at s v m \<noteq> [] \<Longrightarrow> (v, claims_at s v m) \<in> set vs"
proof -
  show "vs \<noteq> []" and sorted: "om_sorted id vs" using assms by (auto simp: books_ok_def)
  have "om_get id (id s) m = Some vs" using assms by (intro om_get_in) (simp_all add: books_ok_def)
  then have rows: "claims_at s v m = rows_in v vs" by (simp add: claims_at_def rows_in_def)
  show "(v, cs) \<in> set vs \<Longrightarrow> cs \<noteq> [] \<and> claims_at s v m = cs"
    using om_get_in [OF sorted, of v cs] assms by (auto simp: rows rows_in_def books_ok_def)
  show "claims_at s v m \<noteq> [] \<Longrightarrow> (v, claims_at s v m) \<in> set vs"
    using om_get_mem [of id v vs] by (auto simp: rows rows_in_def split: option.splits)
qed

lemma claimed_symbol:
  assumes "claims_at s v m \<noteq> []"
  shows "\<exists>vs. (s, vs) \<in> set m"
  using assms om_get_mem [of id s m] by (auto simp: claims_at_def rows_in_def split: option.splits)

section \<open>Winners\<close>

abbreviation claim_rank :: "('d, 'f) claim \<Rightarrow> nat \<times> string" where
  "claim_rank c \<equiv> (effective_age (snd (snd c)), fst c)"

definition winner :: "('d, 'f) claim list \<Rightarrow> ('d, 'f) claim" where
  "winner claims = hd (winning_claims claims)"

lemma winning_claims_rank: "winning_claims claims = (if 1 < length claims then sort_key claim_rank claims else claims)"
  by (simp add: winning_claims_def case_prod_unfold)

lemma winner_best:
  assumes "claims \<noteq> []"
  shows "winning_claims claims \<noteq> []" "winner claims \<in> set claims"
    "c \<in> set claims \<Longrightarrow> claim_rank (winner claims) \<le> claim_rank c"
proof -
  have sorted: "sorted (map claim_rank (winning_claims claims))"
  proof (cases "1 < length claims")
    case False
    then show ?thesis by (cases claims) (auto simp: winning_claims_rank)
  qed (simp only: winning_claims_rank if_True sorted_sort_key)
  have set: "set (winning_claims claims) = set claims" by (simp add: winning_claims_rank)
  show ne: "winning_claims claims \<noteq> []" using set assms by auto
  then obtain x xs where x: "winning_claims claims = x # xs" by (cases "winning_claims claims") auto
  show "winner claims \<in> set claims" using set x by (simp add: winner_def) auto
  show "claim_rank (winner claims) \<le> claim_rank c" if "c \<in> set claims"
    using sorted that unfolding set [symmetric] x winner_def by (auto simp del: less_eq_prod_simp)
qed

lemma venue_winners_eq:
  "\<forall>(v, cs) \<in> set vs. cs \<noteq> [] \<Longrightarrow> venue_winners vs = map (\<lambda>(v, cs). (v, winner cs)) vs"
proof (induction vs)
  case Nil
  then show ?case by (simp add: venue_winners_def List.map_filter_def)
next
  case (Cons p vs)
  obtain v cs where p: "p = (v, cs)" by (cases p)
  have "cs \<noteq> []" using Cons.prems p by simp
  from winner_best(1) [OF this] obtain c rest where "winning_claims cs = c # rest"
    by (cases "winning_claims cs") auto
  moreover obtain n l w where "c = (n, l, w)" by (cases c)
  ultimately show ?case
    using Cons by (simp add: p venue_winners_def List.map_filter_def winner_def)
qed

lemma claims_venue: "c \<in> set (claims_for s v (all_claims now policy reports)) \<Longrightarrow> vv_venue (snd (snd c)) = v"
  by (auto simp: claims_for_def all_claims_def report_claims_def aged_def Let_def split: option.splits if_splits)

lemma merged_venues:
  assumes "(s, vs) \<in> set (merge_map now policy reports)"
  shows "yv_symbol (merged_symbol D now policy (s, vs)) = s"
    "yv_venues (merged_symbol D now policy (s, vs)) = map (\<lambda>(v, cs). snd (snd (winner cs))) vs"
    "map vv_venue (yv_venues (merged_symbol D now policy (s, vs))) = map fst vs"
proof -
  note entry = books_entry [OF merge_books(1) assms]
  have full: "\<forall>(v, cs) \<in> set vs. cs \<noteq> []" using entry(3) by fast
  show "yv_symbol (merged_symbol D now policy (s, vs)) = s"
    and venues: "yv_venues (merged_symbol D now policy (s, vs)) = map (\<lambda>(v, cs). snd (snd (winner cs))) vs"
    by (simp_all add: merged_symbol_def Let_def venue_winners_eq [OF full] case_prod_unfold)
  have "vv_venue (snd (snd (winner cs))) = v" if "(v, cs) \<in> set vs" for v cs
  proof (rule claims_venue)
    have "cs = claims_for s v (all_claims now policy reports)" "cs \<noteq> []"
      using entry(3) [OF that] merge_books(2) [of s v now policy reports] by simp_all
    then show "winner cs \<in> set (claims_for s v (all_claims now policy reports))" using winner_best(2) by metis
  qed
  then show "map vv_venue (yv_venues (merged_symbol D now policy (s, vs))) = map fst vs"
    unfolding venues by auto
qed

text \<open>
  C34. The merged view shows every stream some included node reports, once, and nothing else: symbols
  in strictly increasing order, venues within a symbol too, and behind each card the claim whose age,
  advanced by its node's lag, is the least, ties going to the node that is first by name.
\<close>

theorem merge_shows_freshest_claim:
  fixes D :: "('d, 'z) decimal_ops_scheme" and reports :: "('d, 'f) node_report list"
    and now :: ingest_time and policy :: gateway_policy and seq :: u64
  defines "claims \<equiv> all_claims now policy reports" and "syms \<equiv> sn_symbols (mg_snapshot (merge D reports now seq policy))"
  shows "sorted_wrt (<) (map yv_symbol syms)
    \<and> (\<forall>y \<in> set syms. yv_venues y \<noteq> [] \<and> sorted_wrt (<) (map vv_venue (yv_venues y))
        \<and> (\<forall>view \<in> set (yv_venues y). \<exists>c \<in> set (claims_for (yv_symbol y) (vv_venue view) claims).
             view = snd (snd c) \<and> (\<forall>c' \<in> set (claims_for (yv_symbol y) (vv_venue view) claims). claim_rank c \<le> claim_rank c')))
    \<and> (\<forall>((s, v), c) \<in> set claims. \<exists>y \<in> set syms. yv_symbol y = s \<and> v \<in> vv_venue ` set (yv_venues y))"
proof (intro conjI ballI)
  let ?m = "merge_map now policy reports"
  have syms: "syms = map (merged_symbol D now policy) ?m" unfolding syms_def by (rule merge_parts(1))
  have "map yv_symbol syms = map fst ?m" unfolding syms using merged_venues(1) by (auto simp: case_prod_unfold)
  then show "sorted_wrt (<) (map yv_symbol syms)"
    using merge_books(1) [of now policy reports] by (simp add: books_ok_def om_sorted_def)
  {
    fix y assume "y \<in> set syms"
    then obtain s vs where y: "y = merged_symbol D now policy (s, vs)" and mem: "(s, vs) \<in> set ?m" unfolding syms by auto
    note entry = books_entry [OF merge_books(1) mem] and shown = merged_venues [OF mem, of D]
    show "yv_venues y \<noteq> []" using entry(1) unfolding y shown(2) by simp
    show "sorted_wrt (<) (map vv_venue (yv_venues y))"
      using entry(2) unfolding y shown(3) by (simp add: om_sorted_def)
    fix view assume "view \<in> set (yv_venues y)"
    then obtain v cs where cs: "(v, cs) \<in> set vs" "view = snd (snd (winner cs))" unfolding y shown(2) by auto
    have claims: "cs = claims_for s v claims" "cs \<noteq> []"
      using entry(3) [OF cs(1)] merge_books(2) [of s v now policy reports] by (simp_all add: claims_def)
    have "vv_venue view = v" using claims_venue [of "winner cs"] winner_best(2) [OF claims(2)] claims(1) cs(2) by (simp add: claims_def)
    with claims winner_best [OF claims(2)] cs(2)
    show "\<exists>c \<in> set (claims_for (yv_symbol y) (vv_venue view) claims).
        view = snd (snd c) \<and> (\<forall>c' \<in> set (claims_for (yv_symbol y) (vv_venue view) claims). claim_rank c \<le> claim_rank c')"
      unfolding y shown(1) by (intro bexI [of _ "winner cs"]) (simp_all del: less_eq_prod_simp)
  }
  fix k assume k: "k \<in> set claims"
  obtain s v c where k': "k = ((s, v), c)" by (metis surj_pair)
  have "c \<in> set (claims_at s v ?m)" unfolding merge_books(2) using k k' by (force simp: claims_for_def claims_def)
  then have ne: "claims_at s v ?m \<noteq> []" by auto
  obtain vs where vs: "(s, vs) \<in> set ?m" using claimed_symbol [OF ne] by blast
  have "v \<in> set (map fst vs)" using books_entry(4) [OF merge_books(1) vs ne] by force
  then have "v \<in> vv_venue ` set (yv_venues (merged_symbol D now policy (s, vs)))"
    unfolding merged_venues(3) [OF vs, of D, symmetric] by simp
  then show "(\<lambda>((s, v), c). \<exists>y \<in> set syms. yv_symbol y = s \<and> v \<in> vv_venue ` set (yv_venues y)) k"
    using vs merged_venues(1) [OF vs, of D] unfolding k' syms by auto
qed

section \<open>Duplicates\<close>

lemma set_duplicates:
  "set (mg_duplicated (merge D reports now seq policy)) =
     {\<lparr> du_symbol = s, du_venue = v, du_nodes = map fst (claims_for s v (all_claims now policy reports)) \<rparr> | s v.
        1 < length (claims_for s v (all_claims now policy reports))}" (is "?l = ?r")
proof
  let ?m = "merge_map now policy reports"
  show "?l \<subseteq> ?r"
  proof
    fix d assume "d \<in> ?l"
    then obtain s vs v cs where d: "(s, vs) \<in> set ?m" "(v, cs) \<in> set vs" "1 < length cs"
      "d = \<lparr> du_symbol = s, du_venue = v, du_nodes = map fst cs \<rparr>"
      by (auto simp: merge_parts(2) duplicates_of_def)
    then have "cs = claims_for s v (all_claims now policy reports)"
      using books_entry(3) [OF merge_books(1) d(1,2)] merge_books(2) by metis
    with d(3,4) show "d \<in> ?r" by auto
  qed
  show "?r \<subseteq> ?l"
  proof
    fix d assume "d \<in> ?r"
    then obtain s v where d: "d = \<lparr> du_symbol = s, du_venue = v, du_nodes = map fst (claims_at s v ?m) \<rparr>"
      and many: "1 < length (claims_at s v ?m)" unfolding merge_books(2) by blast
    from many have ne: "claims_at s v ?m \<noteq> []" by auto
    obtain vs where vs: "(s, vs) \<in> set ?m" using claimed_symbol [OF ne] by blast
    have "(v, claims_at s v ?m) \<in> set vs" by (rule books_entry(4) [OF merge_books(1) vs ne])
    then have "d \<in> set (duplicates_of (s, vs))" using many unfolding d duplicates_of_def by force
    with vs show "d \<in> ?l" by (auto simp: merge_parts(2))
  qed
qed

text \<open>What a node's snapshot says it publishes, and what its aggregator does.\<close>

definition reported_streams :: "('d, 'f) snapshot \<Rightarrow> (symbol \<times> venue_id) list" where
  "reported_streams sn = concat (map (\<lambda>y. map (\<lambda>v. (yv_symbol y, vv_venue v)) (yv_venues y)) (sn_symbols sn))"

lemma report_claims_streams:
  "map fst (report_claims now policy r) = (if report_excluded now policy r \<noteq> None then []
     else case nr_snapshot r of None \<Rightarrow> [] | Some s \<Rightarrow> reported_streams s)"
  by (auto simp: report_claims_def reported_streams_def report_excluded_def map_concat o_def split: option.split if_splits)

lemma reported_by_aggregator:
  assumes "aggregator_snapshot F D now channel a = (sn, a')" and "om_sorted id (ag_streams a)"
  shows "distinct (reported_streams sn)"
    "(k, v) \<in> set (reported_streams sn) \<Longrightarrow> StreamId v k \<in> fst ` set (ag_streams a) \<and> publishes a (StreamId v k)"
proof -
  let ?m = "foldl (gather F D now a) [] (ag_streams a)"
  have symbols: "sn_symbols sn = map (symbol_view_of D (ag_cross_max_age a)) ?m"
    using snapshot_parts(4) [OF assms(1)] unfolding same_rows .
  have row: "map (\<lambda>v. (yv_symbol y, vv_venue v)) (yv_venues y)
      = map (\<lambda>e. (k, sid_venue (fst e))) (shown a k (ag_streams a))"
    if "(k, rows) \<in> set ?m" "y = symbol_view_of D (ag_cross_max_age a) (k, rows)" for k rows y
    using that gathered_entries [of k rows F D now a "ag_streams a"]
    by (simp add: symbol_view_of_def view_fields(9) o_def)
  have reported: "reported_streams sn = concat (map (\<lambda>(k, rows). map (\<lambda>e. (k, sid_venue (fst e))) (shown a k (ag_streams a))) ?m)"
    unfolding reported_streams_def symbols map_map
    by (intro arg_cong [of _ _ concat] map_cong refl) (auto simp: o_def dest!: row)
  have keys: "distinct (map fst ?m)"
    using gathered_start(2) [of F D now a "ag_streams a"] by (simp add: om_sorted_def strict_sorted_iff)
  have streams: "distinct (map fst (ag_streams a))"
    using assms(2) by (simp add: om_sorted_def strict_sorted_iff)
  have one: "distinct (map (\<lambda>e. (k, sid_venue (fst e))) (shown a k (ag_streams a)))" for k
  proof -
    have "distinct (map fst (shown a k (ag_streams a)))"
      unfolding shown_def using streams by (rule distinct_map_filter)
    moreover have "inj_on sid_venue (set (map fst (shown a k (ag_streams a))))"
      by (auto simp: inj_on_def shown_def intro: stream_id.expand)
    ultimately have "distinct (map sid_venue (map fst (shown a k (ag_streams a))))" by (auto simp: distinct_map intro: comp_inj_on)
    then show ?thesis by (auto simp: distinct_map inj_on_def)
  qed
  show "distinct (reported_streams sn)"
  proof -
    have "distinct (concat (map (\<lambda>(k, rows :: (('a, 'b) venue_view \<times> 'a top_of_book_view) list).
        map (\<lambda>e. (k, sid_venue (fst e))) (shown a k (ag_streams a))) m))" if "distinct (map fst m)" for m
      using that one by (induction m) (auto simp: rev_image_eqI)
    from this [OF keys] show ?thesis unfolding reported by simp
  qed
  show "StreamId v k \<in> fst ` set (ag_streams a) \<and> publishes a (StreamId v k)" if "(k, v) \<in> set (reported_streams sn)"
  proof -
    from that obtain e where e: "e \<in> set (shown a k (ag_streams a))" "v = sid_venue (fst e)"
      unfolding reported by auto
    then have "StreamId v k = fst e" by (cases "fst e") (auto simp: shown_def)
    with e show ?thesis by (auto simp: shown_def)
  qed
qed

lemma distinct_concat_nth:
  assumes "\<forall>xs \<in> set ls. distinct xs"
    and "\<forall>i < length ls. \<forall>j < length ls. i \<noteq> j \<longrightarrow> set (ls ! i) \<inter> set (ls ! j) = {}"
  shows "distinct (concat ls)"
  using assms
proof (induction ls)
  case (Cons l ls)
  have "set l \<inter> set (ls ! j) = {}" if "j < length ls" for j
    using Cons.prems(2) [rule_format, of 0 "Suc j"] that by simp
  then have "\<forall>xs \<in> set ls. set l \<inter> set xs = {}" by (metis in_set_conv_nth)
  then have "set l \<inter> set (concat ls) = {}" by auto
  moreover have "distinct (concat ls)"
  proof (rule Cons.IH)
    show "\<forall>i < length ls. \<forall>j < length ls. i \<noteq> j \<longrightarrow> set (ls ! i) \<inter> set (ls ! j) = {}"
      using Cons.prems(2) by (metis Suc_less_eq length_Cons nth_Cons_Suc old.nat.inject)
  qed (use Cons.prems(1) in simp)
  ultimately show ?case using Cons.prems(1) by simp
qed simp

lemma one_claim_each:
  assumes "distinct (map fst claims)"
  shows "length (claims_for s v claims) \<le> 1"
proof -
  have "length (filter (\<lambda>(k, _). k = (s, v)) claims) \<le> 1"
    using assms
  proof (induction claims)
    case (Cons c claims)
    then show ?case by (cases c) (auto simp: filter_empty_conv rev_image_eqI)
  qed simp
  then show ?thesis by (simp add: claims_for_def)
qed

text \<open>Reports that are the snapshots of aggregators, with no stream published by two of them.\<close>

definition exclusive_reports ::
  "'f float_ops \<Rightarrow> ('d, 'z) decimal_ops_scheme \<Rightarrow> (nat \<Rightarrow> ('d, 's) aggregator) \<Rightarrow> ('d, 'f) node_report list \<Rightarrow> bool" where
  "exclusive_reports F D agg reports \<longleftrightarrow>
     (\<forall>i < length reports. om_sorted id (ag_streams (agg i))
        \<and> (\<exists>t channel. nr_snapshot (reports ! i) = Some (fst (aggregator_snapshot F D t channel (agg i)))))
     \<and> (\<forall>i < length reports. \<forall>j < length reports. \<forall>s. publishes (agg i) s \<and> publishes (agg j) s \<longrightarrow> i = j)"

lemma exclusive_distinct:
  fixes reports :: "('d, 'f) node_report list" and agg :: "nat \<Rightarrow> ('d, 's) aggregator"
  assumes "exclusive_reports F D agg reports"
  shows "distinct (map fst (all_claims now policy reports))"
proof -
  let ?l = "map (\<lambda>r. map fst (report_claims now policy r)) reports"
  have each: "distinct (?l ! i) \<and> (\<forall>(k, v) \<in> set (?l ! i). publishes (agg i) (StreamId v k))" if i: "i < length reports" for i
  proof -
    obtain t channel where snap: "nr_snapshot (reports ! i) = Some (fst (aggregator_snapshot F D t channel (agg i)))"
      using assms i unfolding exclusive_reports_def by blast
    have sorted: "om_sorted id (ag_streams (agg i))" using assms i unfolding exclusive_reports_def by blast
    obtain sn a' where sn: "aggregator_snapshot F D t channel (agg i) = (sn, a')" by fastforce
    note said = reported_by_aggregator [OF sn sorted]
    have "?l ! i = [] \<or> ?l ! i = reported_streams sn"
      using i by (simp add: report_claims_streams snap sn)
    then show ?thesis using said(1) said(2) by auto
  qed
  have "distinct (concat ?l)"
  proof (rule distinct_concat_nth)
    show "\<forall>xs \<in> set ?l. distinct xs" using each by (auto simp: in_set_conv_nth)
    show "\<forall>i < length ?l. \<forall>j < length ?l. i \<noteq> j \<longrightarrow> set (?l ! i) \<inter> set (?l ! j) = {}"
    proof (intro allI impI)
      fix i j assume ij: "i < length ?l" "j < length ?l" "i \<noteq> j"
      show "set (?l ! i) \<inter> set (?l ! j) = {}"
      proof (rule ccontr)
        assume "set (?l ! i) \<inter> set (?l ! j) \<noteq> {}"
        then obtain k v where "(k, v) \<in> set (?l ! i)" "(k, v) \<in> set (?l ! j)" by auto
        then have "publishes (agg i) (StreamId v k)" "publishes (agg j) (StreamId v k)"
          using each [of i] each [of j] ij(1,2) by auto
        with assms ij show False unfolding exclusive_reports_def by (metis length_map)
      qed
    qed
  qed
  then show ?thesis by (simp add: all_claims_def map_concat o_def)
qed

text \<open>
  C36. The gateway's alarm is exact: a stream is listed, with every node that claims it in the order of
  the reports, when and only when more than one claim on it came with the included reports. When the
  reports are the snapshots of aggregators and no stream is published by two, there is no alarm.
\<close>

theorem double_ownership_alarm:
  shows "set (mg_duplicated (merge D reports now seq policy)) =
      {\<lparr> du_symbol = s, du_venue = v, du_nodes = map fst (claims_for s v (all_claims now policy reports)) \<rparr> | s v.
        1 < length (claims_for s v (all_claims now policy reports))}
    \<and> (exclusive_reports F D agg reports \<longrightarrow> mg_duplicated (merge D reports now seq policy) = [])"
proof (intro conjI impI)
  show "set (mg_duplicated (merge D reports now seq policy)) =
      {\<lparr> du_symbol = s, du_venue = v, du_nodes = map fst (claims_for s v (all_claims now policy reports)) \<rparr> | s v.
        1 < length (claims_for s v (all_claims now policy reports))}" by (rule set_duplicates)
  assume "exclusive_reports F D agg reports"
  have "\<not> 1 < length (claims_for s v (all_claims now policy reports))" for s v
    unfolding not_less by (rule one_claim_each [OF exclusive_distinct [OF \<open>exclusive_reports F D agg reports\<close>]])
  then have "set (mg_duplicated (merge D reports now seq policy)) = {}"
    unfolding set_duplicates by simp
  then show "mg_duplicated (merge D reports now seq policy) = []" by simp
qed

section \<open>Ages across the hop\<close>

lemma consolidated_leg:
  assumes "cv_bid (consolidate D qs max_age) = Some leg \<or> cv_ask (consolidate D qs max_age) = Some leg"
  shows "\<exists>v tob l i s u. (v, tob) \<in> set qs \<and> top_state tob = Live i s u \<and> quote_age tob \<le> max_age
    \<and> leg = leg_of v l (quote_age tob) i"
proof -
  have "leg \<in> set (legs_offered top_bid max_age qs) \<union> set (legs_offered top_ask max_age qs)"
    using assms foldl_pick_first [where rank = "\<lambda>l. dval D (cl_price l)" and xs = "legs_offered top_bid max_age qs"]
      foldl_pick_first [where rank = "\<lambda>l. - dval D (cl_price l)" and xs = "legs_offered top_ask max_age qs"]
    by (auto simp: consolidate_fields higher_bid_pick lower_ask_pick dest!: first_max_ge)
  then show ?thesis by (blast dest: leg_offered_from)
qed

text \<open>A claim is a card of an included report, aged.\<close>

lemma claim_origin:
  assumes "c \<in> set (claims_for k v (all_claims now policy reports))"
  shows "\<exists>r \<in> set reports. \<exists>sn lag sy view. nr_snapshot r = Some sn \<and> report_lag now r = Some lag
    \<and> lag \<le> gp_max_node_age policy \<and> sy \<in> set (sn_symbols sn) \<and> view \<in> set (yv_venues sy)
    \<and> yv_symbol sy = k \<and> vv_venue view = v \<and> c = (nr_node r, millis_u64 lag, aged view lag)"
  using assms
  by (fastforce simp: claims_for_def all_claims_def report_claims_def report_excluded_def split: option.splits if_splits)

definition own_age_ms :: "('d, 'f) venue_view \<Rightarrow> nat" where
  "own_age_ms view = (case vv_age_ms view of None \<Rightarrow> 0 | Some a \<Rightarrow> a)"

lemma aged_age:
  assumes "vv_age_ms (aged view lag) = Some a" and "from_millis a \<le> max_age" and "max_age < from_millis u64_max"
  shows "from_millis (own_age_ms view) + lag < max_age + from_millis 1"
proof -
  have small: "a < u64_max" using assms(2,3) by (simp add: from_millis_def)
  have "a = (case vv_age_ms view of None \<Rightarrow> millis_u64 lag | Some b \<Rightarrow> saturating_add b (millis_u64 lag))"
    using assms(1) by (simp add: aged_def Let_def)
  with small have a: "a = own_age_ms view + millis_u64 lag" and lag: "millis_u64 lag < u64_max"
    by (auto simp: own_age_ms_def saturating_add_def sat_u64_def min_def split: option.splits if_splits)
  have "millis_u64 lag = lag div 1000000" using lag by (simp add: millis_u64_def sat_u64_def min_def split: if_splits)
  moreover have "lag < lag div 1000000 * 1000000 + 1000000" by (metis div_mult_mod_eq mod_less_divisor nat_add_left_cancel_less zero_less_numeral)
  ultimately show ?thesis using assms(2) unfolding a from_millis_def by (simp add: algebra_simps)
qed

text \<open>
  C35. A dead node cannot keep a price alive. A leg of the merged touch is a live card of a node whose
  last snapshot came within the node limit, and the age that card had at its node and the time since
  the snapshot arrived are together below the policy's limit, but for the millisecond lost when the
  lag is cut to whole milliseconds.
\<close>

theorem merged_legs_are_fresh:
  assumes "y \<in> set (sn_symbols (mg_snapshot (merge D reports now seq policy)))"
    and "xw_bid (yv_cross y) = Some leg \<or> xw_ask (yv_cross y) = Some leg"
    and "gp_cross_max_age policy < from_millis u64_max"
  shows "\<exists>r \<in> set reports. \<exists>sn lag sy view. nr_snapshot r = Some sn \<and> report_lag now r = Some lag
    \<and> lag \<le> gp_max_node_age policy \<and> sy \<in> set (sn_symbols sn) \<and> view \<in> set (yv_venues sy)
    \<and> yv_symbol sy = yv_symbol y \<and> vv_venue view = cl_venue leg \<and> vv_status view = StatusLive
    \<and> from_millis (own_age_ms view) + lag < gp_cross_max_age policy + from_millis 1"
proof -
  let ?m = "merge_map now policy reports"
  from assms(1) obtain s vs where y: "y = merged_symbol D now policy (s, vs)" and mem: "(s, vs) \<in> set ?m"
    unfolding merge_parts by auto
  note entry = books_entry [OF merge_books(1) mem]
  have full: "\<forall>(v, cs) \<in> set vs. cs \<noteq> []" using entry(3) by fast
  let ?qs = "map (\<lambda>(v, cs). (v, view_top (snd (snd (winner cs))) now)) vs"
  have "yv_cross y = make_cross_view D ?qs (gp_cross_max_age policy) gateway_clock"
    by (simp add: y merged_symbol_def Let_def venue_winners_eq [OF full] case_prod_unfold o_def)
  then have "cv_bid (consolidate D ?qs (gp_cross_max_age policy)) = Some leg
      \<or> cv_ask (consolidate D ?qs (gp_cross_max_age policy)) = Some leg"
    using assms(2) by (simp add: make_cross_view_def Let_def)
  from consolidated_leg [OF this] obtain v cs l i t u where cs: "(v, cs) \<in> set vs"
    and live: "top_state (view_top (snd (snd (winner cs))) now) = Live i t u"
    and age: "quote_age (view_top (snd (snd (winner cs))) now) \<le> gp_cross_max_age policy"
    and leg: "cl_venue leg = v" by (auto simp: leg_of_def)
  have "cs = claims_for s v (all_claims now policy reports)" "cs \<noteq> []"
    using entry(3) [OF cs] merge_books(2) [of s v now policy reports] by simp_all
  then have "winner cs \<in> set (claims_for s v (all_claims now policy reports))" using winner_best(2) by metis
  from claim_origin [OF this] obtain r sn lag sy view where r: "r \<in> set reports" "nr_snapshot r = Some sn"
    "report_lag now r = Some lag" "lag \<le> gp_max_node_age policy" "sy \<in> set (sn_symbols sn)" "view \<in> set (yv_venues sy)"
    "yv_symbol sy = s" "vv_venue view = v" and c: "snd (snd (winner cs)) = aged view lag" by auto
  have status: "vv_status view = StatusLive"
    using live unfolding c by (auto simp: view_top_def aged_def Let_def split: book_status.splits)
  obtain a where a: "vv_age_ms (aged view lag) = Some a" by (simp add: aged_def Let_def)
  then have "from_millis a \<le> gp_cross_max_age policy" using age unfolding c by (simp add: quote_age_def view_top_def)
  from aged_age [OF a this assms(3)]
  have "from_millis (own_age_ms view) + lag < gp_cross_max_age policy + from_millis 1" .
  moreover have "yv_symbol sy = yv_symbol y" using r(7) merged_venues(1) [OF mem, of D] y by simp
  moreover have "vv_venue view = cl_venue leg" using r(8) leg by simp
  ultimately show ?thesis using r(1-6) status by blast
qed

text \<open>The cut to whole milliseconds can make a book look younger than it is.\<close>

lemma ages_can_shrink:
  "from_millis (saturating_add (millis_u64 1999999) (millis_u64 1999999)) < 1999999 + 1999999"
  by (simp add: from_millis_def saturating_add_def millis_u64_def sat_u64_def u64_max_def)

section \<open>Witnesses\<close>

definition sample_view :: "(rat, unit) venue_view" where
  "sample_view = \<lparr> vv_venue = Kraken, vv_status = StatusLive, vv_integrity = Some Verified, vv_desync_reason = None,
     vv_bid = Some (level_of 100 1), vv_ask = None, vv_bids = [], vv_asks = [], vv_spread = None, vv_mid = None,
     vv_age_ms = Some 1, vv_status_for_ms = 0, vv_desynced_total_ms = 0, vv_last_verified_ms = None,
     vv_audits = 0, vv_audit_mismatches = 0, vv_levels_held = (1, 0), vv_windows = [], vv_last_trade = None,
     vv_counters = counters_default,
     vv_rates = rates_between unit_floats counters_default counters_default 0 \<rparr>"

definition sample_report :: "(rat, unit) node_report" where
  "sample_report = (node_report_new ''a'' ''u'')\<lparr> nr_received_at := Some (sample_time 0),
     nr_snapshot := Some \<lparr> sn_seq = 1, sn_wall_unix_ms = 0, sn_clock = ingest_monotonic,
       sn_symbols = [\<lparr> yv_symbol = ''BTC-USD'', yv_weakest_integrity = None,
         yv_cross = make_cross_view rat_decimals [] 0 ingest_monotonic, yv_cross_windows = [], yv_venues = [sample_view] \<rparr>],
       sn_channel = \<lparr> cm_len = 0, cm_capacity = 0, cm_dropped = 0 \<rparr> \<rparr> \<rparr>"

lemma sample_merge:
  "sn_symbols (mg_snapshot (merge rat_decimals [sample_report] (sample_time 5) 1 gateway_policy_default))
     = [merged_symbol rat_decimals (sample_time 5) gateway_policy_default (''BTC-USD'', [(Kraken, [(''a'', 0, aged sample_view 5)])])]"
  by (simp add: merge_parts all_claims_def report_claims_def report_excluded_def report_lag_def sample_report_def
      node_report_new_def since_def sample_time_def gateway_policy_default_def from_secs_def nanos_per_sec_def
      push_claim_def push_entry_def sample_view_def millis_u64_def sat_u64_def)

lemma sample_merge_leg:
  "xw_bid (yv_cross (merged_symbol rat_decimals (sample_time 5) gateway_policy_default
     (''BTC-USD'', [(Kraken, [(''a'', 0, aged sample_view 5)])]))) = Some (leg_of Kraken (level_of 100 1) (from_millis 1) Verified)"
  by (simp add: merged_symbol_def Let_def venue_winners_def winning_claims_def List.map_filter_def make_cross_view_def
      consolidate_fields legs_offered_def excluded_for_def leg_from_def view_top_def aged_def sample_view_def quote_age_def
      saturating_add_def millis_u64_def sat_u64_def u64_max_def higher_bid_def gateway_policy_default_def
      cross_policy_default_max_age_def from_secs_def from_millis_def nanos_per_sec_def)

lemma merge_shows_freshest_claim_witness:
  "\<exists>y \<in> set (sn_symbols (mg_snapshot (merge rat_decimals [sample_report] (sample_time 5) 1 gateway_policy_default))).
     yv_symbol y = ''BTC-USD'' \<and> Kraken \<in> vv_venue ` set (yv_venues y)"
proof -
  let ?claims = "all_claims (sample_time 5) gateway_policy_default [sample_report]"
  have "((''BTC-USD'', Kraken), (''a'', 0, aged sample_view 5)) \<in> set ?claims"
    by (simp add: all_claims_def report_claims_def report_excluded_def report_lag_def sample_report_def
        node_report_new_def since_def sample_time_def gateway_policy_default_def from_secs_def nanos_per_sec_def
        sample_view_def millis_u64_def sat_u64_def)
  with merge_shows_freshest_claim [of rat_decimals "[sample_report]" "sample_time 5" 1 gateway_policy_default]
  show ?thesis by fast
qed

lemma merged_legs_are_fresh_witness:
  "\<exists>r \<in> set [sample_report]. \<exists>sn. nr_snapshot r = Some sn \<and> (\<exists>lag. report_lag (sample_time 5) r = Some lag \<and> lag \<le> from_secs 3)"
proof -
  let ?y = "merged_symbol rat_decimals (sample_time 5) gateway_policy_default (''BTC-USD'', [(Kraken, [(''a'', 0, aged sample_view 5)])])"
  have y: "?y \<in> set (sn_symbols (mg_snapshot (merge rat_decimals [sample_report] (sample_time 5) 1 gateway_policy_default)))"
    unfolding sample_merge by simp
  have max: "gp_cross_max_age gateway_policy_default < from_millis u64_max"
    by (simp add: gateway_policy_default_def cross_policy_default_max_age_def from_secs_def from_millis_def nanos_per_sec_def u64_max_def)
  have "gp_max_node_age gateway_policy_default = from_secs 3" by (simp add: gateway_policy_default_def)
  with merged_legs_are_fresh [OF y disjI1 [OF sample_merge_leg] max] show ?thesis by metis
qed

lemma double_ownership_alarm_witness:
  "mg_duplicated (merge rat_decimals [(node_report_new ''a'' ''u'')\<lparr> nr_received_at := Some (sample_time 0),
      nr_snapshot := Some (fst (aggregator_snapshot unit_floats rat_decimals (sample_time 0) (metrics_of sample_channel) plain_start)) \<rparr>]
     (sample_time 5) 1 gateway_policy_default) = []"
proof -
  have "om_sorted id (ag_streams plain_start)" using start_ok [of rat_decimals] by (simp only: streams_ok_def) blast
  then have "exclusive_reports unit_floats rat_decimals (\<lambda>_. plain_start)
    [(node_report_new ''a'' ''u'')\<lparr> nr_received_at := Some (sample_time 0),
      nr_snapshot := Some (fst (aggregator_snapshot unit_floats rat_decimals (sample_time 0) (metrics_of sample_channel) plain_start)) \<rparr>]"
    unfolding exclusive_reports_def by auto
  with double_ownership_alarm show ?thesis by blast
qed

end
