(* ===== verification/Digits.thy ===== *)
theory Digits
  imports Wire
begin

text \<open>
  Numbers as text, where the archive puts them into keys: \<open>{:0w}\<close> of \<open>format!\<close>,
  its round trip through \<open>parse\<close>, and the fact the layout of the archive rests on, that texts of one width
  compare as the numbers they denote.
\<close>

text \<open>\<open>{n:0w}\<close>.\<close>

definition pad :: "nat \<Rightarrow> nat \<Rightarrow> string" where
  "pad w n = replicate (w - length (show_nat n)) (CHR ''0'') @ show_nat n"

section \<open>Round trips\<close>

lemma digits_value_snoc: "digits_value (s @ [c]) = 10 * digits_value s + (byte_of c - 48)"
  by (simp add: digits_value_def)

lemma digit_char: "n < 10 \<Longrightarrow> (of_char (char_of (48 + n)) :: nat) = 48 + n"
  by (simp add: take_bit_eq_mod)

lemma show_nat_digits: "show_nat n \<noteq> [] \<and> list_all is_digit_char (show_nat n) \<and> digits_value (show_nat n) = n"
proof (induction n rule: show_nat.induct)
  case (1 n)
  show ?case
  proof (cases "n < 10")
    case True
    then show ?thesis
      by (simp add: show_nat.simps [of n] is_digit_char_def byte_of_def digits_value_def digit_char)
  next
    case False
    have "n mod 10 < 10" by simp
    with False 1 show ?thesis
      by (simp add: show_nat.simps [of n] is_digit_char_def byte_of_def digits_value_snoc digit_char)
  qed
qed

lemma digits_value_zeros [simp]: "digits_value (replicate k (CHR ''0'') @ s) = digits_value s"
  by (induction k) (simp_all add: digits_value_def byte_of_def)

lemma pad_digits: "list_all is_digit_char (pad w n) \<and> digits_value (pad w n) = n \<and> pad w n \<noteq> []"
  using show_nat_digits [of n] by (auto simp: pad_def is_digit_char_def byte_of_def list_all_iff)

lemma parse_digits_pad [simp]: "parse_digits (pad w n) = Some n"
  using pad_digits by (simp add: parse_digits_def)

lemma parse_digits_show [simp]: "parse_digits (show_nat n) = Some n"
  using show_nat_digits by (simp add: parse_digits_def)

lemma parse_unsigned_pad [simp]: "n \<le> limit \<Longrightarrow> parse_unsigned limit (pad w n) = Some n"
proof -
  assume n: "n \<le> limit"
  obtain c t where c: "pad w n = c # t" using pad_digits by (cases "pad w n") auto
  then have "is_digit_char c" using pad_digits [of w n] by simp
  then have "c \<noteq> CHR ''+''" by (auto simp: is_digit_char_def byte_of_def)
  with c have "parse_unsigned limit (pad w n) = Option.bind (parse_digits (pad w n)) (\<lambda>n. if n \<le> limit then Some n else None)"
    by (simp add: parse_unsigned_def)
  with n show ?thesis by simp
qed

lemma pad_inj: "pad w m = pad w n \<longleftrightarrow> m = n"
  using parse_digits_pad by (metis option.inject)

section \<open>Text order is number order\<close>

lemma length_show_nat: "n < 10 ^ w \<Longrightarrow> 0 < w \<Longrightarrow> length (show_nat n) \<le> w"
proof (induction w arbitrary: n)
  case (Suc w)
  show ?case
  proof (cases "n < 10")
    case True
    then show ?thesis by (simp add: show_nat.simps [of n])
  next
    case False
    then have "0 < w" using Suc.prems by (cases w) auto
    moreover have "n div 10 < 10 ^ w" using Suc.prems by (simp add: less_mult_imp_div_less mult.commute)
    ultimately have "length (show_nat (n div 10)) \<le> w" using Suc.IH by blast
    with False show ?thesis by (simp add: show_nat.simps [of n])
  qed
qed simp

lemma length_pad: "n < 10 ^ w \<Longrightarrow> 0 < w \<Longrightarrow> length (pad w n) = w"
  using length_show_nat [of n w] by (simp add: pad_def)

lemma digits_value_bound: "list_all is_digit_char s \<Longrightarrow> digits_value s < 10 ^ length s"
proof (induction s rule: rev_induct)
  case Nil
  then show ?case by (simp add: digits_value_def)
next
  case (snoc c s)
  then have "digits_value s + 1 \<le> 10 ^ length s" and "byte_of c - 48 < 10"
    by (auto simp: is_digit_char_def byte_of_def)
  then have "10 * digits_value s + (byte_of c - 48) < 10 * (digits_value s + 1)" by simp
  also have "\<dots> \<le> 10 * 10 ^ length s"
    using \<open>digits_value s + 1 \<le> 10 ^ length s\<close> by (rule mult_le_mono2)
  finally show ?case by (simp add: digits_value_snoc)
qed

lemma digits_value_Cons: "digits_value (c # s) = (byte_of c - 48) * 10 ^ length s + digits_value s"
proof (induction s rule: rev_induct)
  case (snoc d s)
  have "digits_value (c # (s @ [d])) = 10 * digits_value (c # s) + (byte_of d - 48)"
    using digits_value_snoc [of "c # s" d] by simp
  with snoc show ?case by (simp add: digits_value_snoc algebra_simps)
qed (simp add: digits_value_def)

lemma digits_order:
  "list_all is_digit_char s \<Longrightarrow> list_all is_digit_char t \<Longrightarrow> length s = length t \<Longrightarrow>
     s < t \<longleftrightarrow> digits_value s < digits_value t"
proof (induction s arbitrary: t)
  case (Cons c s)
  then obtain d t' where t: "t = d # t'" by (cases t) auto
  let ?c = "byte_of c" and ?d = "byte_of d" and ?p = "10 ^ length s :: nat"
  have cd: "48 \<le> ?c" "48 \<le> ?d" using Cons.prems by (simp_all add: t is_digit_char_def byte_of_def)
  have bounds: "digits_value s < ?p" "digits_value t' < ?p"
    using digits_value_bound [of s] digits_value_bound [of t'] Cons.prems by (simp_all add: t)
  have vals: "digits_value (c # s) = (?c - 48) * ?p + digits_value s"
    "digits_value t = (?d - 48) * ?p + digits_value t'"
    using Cons.prems(3) by (simp_all add: t digits_value_Cons)
  consider "?c < ?d" | "?c = ?d" | "?d < ?c" by linarith
  then show ?case
  proof cases
    case 1
    then have "(?c - 48 + 1) * ?p \<le> (?d - 48) * ?p" using cd by (intro mult_le_mono1) linarith
    with 1 bounds vals show ?thesis by (auto simp: t less_char_def byte_of_def)
  next
    case 2
    then have "c = d" by (simp add: byte_of_def)
    with Cons vals show ?thesis by (simp add: t)
  next
    case 3
    then have "(?d - 48 + 1) * ?p \<le> (?c - 48) * ?p" using cd by (intro mult_le_mono1) linarith
    with 3 bounds vals show ?thesis by (auto simp: t less_char_def byte_of_def)
  qed
qed simp

lemma pad_less: "m < 10 ^ w \<Longrightarrow> n < 10 ^ w \<Longrightarrow> 0 < w \<Longrightarrow> pad w m < pad w n \<longleftrightarrow> m < n"
  using digits_order [of "pad w m" "pad w n"] pad_digits by (simp add: length_pad)

text \<open>Texts that agree in length compare part by part.\<close>

lemma append_less_append:
  fixes s t u v :: "'a::linorder list"
  shows "length s = length t \<Longrightarrow> s @ u < t @ v \<longleftrightarrow> s < t \<or> s = t \<and> u < v"
  by (induction s t rule: list_induct2) auto

section \<open>Decimals with an exact text\<close>

text \<open>Natural numbers as decimals, whose text is parsed back: an instance for the witnesses.\<close>

definition nat_decimals :: "nat decimal_ops" where
  "nat_decimals = \<lparr> dval = of_nat, d_sign_negative = (\<lambda>_. False), d_zero = 0, d_two = 2,
     d_of_nat = (\<lambda>n. n), d_add = (+), d_sub = (-), d_mul = (*), d_div = (div),
     d_round_dp = (\<lambda>_ n. n), d_to_string = show_nat, d_fixed = (\<lambda>_. show_nat),
     d_from_str = parse_digits, d_from_scientific = (\<lambda>_. None) \<rparr>"

end
