(* ===== verification/Archive_Store.thy ===== *)
theory Archive_Store
  imports Digits Ordered_Map
begin

text \<open>
  Where the archive's files go (\<open>ma-persist/src/store.rs\<close>): the interface the writer and the
  reader use, and the local directory that provides it. The directory is the map from paths to
  contents; its directories are the prefixes of its paths. Every call may meet an I/O error, so
  the state of the store holds what the coming calls will meet. S3, the other provider, is a
  client of a third-party SDK.
\<close>

section \<open>Paths\<close>

fun split_on :: "char \<Rightarrow> string \<Rightarrow> string list" where
  "split_on c [] = [[]]"
| "split_on c (x # xs) = (if x = c then [] # split_on c xs
     else (case split_on c xs of p # ps \<Rightarrow> (x # p) # ps | [] \<Rightarrow> [[x]]))"

fun join_with :: "char \<Rightarrow> string list \<Rightarrow> string" where
  "join_with c [] = []"
| "join_with c [p] = p"
| "join_with c (p # ps) = p @ c # join_with c ps"

lemma split_on_not_empty [simp]: "split_on c s \<noteq> []"
  by (cases s) (auto split: list.splits)

lemma split_on_piece: "c \<notin> set p \<Longrightarrow> split_on c p = [p]"
  by (induction p) auto

lemma split_on_append: "c \<notin> set p \<Longrightarrow> split_on c (p @ c # s) = p # split_on c s"
  by (induction p) auto

lemma split_join: "ps \<noteq> [] \<Longrightarrow> \<forall>p \<in> set ps. c \<notin> set p \<Longrightarrow> split_on c (join_with c ps) = ps"
  by (induction c ps rule: join_with.induct) (auto simp: split_on_piece split_on_append)

lemma split_on_parts: "p \<in> set (split_on c s) \<Longrightarrow> c \<notin> set p"
  by (induction s arbitrary: p) (auto split: if_splits list.splits)

lemma join_split: "join_with c (split_on c s) = s"
proof (induction s)
  case (Cons x s)
  obtain p ps where s: "split_on c s = p # ps" by (cases "split_on c s") auto
  with Cons show ?case by (cases ps) auto
qed simp

lemma join_with_append: "ps \<noteq> [] \<Longrightarrow> qs \<noteq> [] \<Longrightarrow> join_with c (ps @ qs) = join_with c ps @ c # join_with c qs"
proof (induction c ps rule: join_with.induct)
  case (2 c p)
  then show ?case by (cases qs) auto
qed simp_all

lemma join_with_inj:
  "ps \<noteq> [] \<Longrightarrow> qs \<noteq> [] \<Longrightarrow> \<forall>p \<in> set ps. c \<notin> set p \<Longrightarrow> \<forall>q \<in> set qs. c \<notin> set q \<Longrightarrow>
     join_with c ps = join_with c qs \<Longrightarrow> ps = qs"
  using split_join by metis

section \<open>The interface\<close>

datatype store_error = IoError string | Rejected string string | ConfigError string

record ('st, 'b) store_ops =
  so_put :: "string \<Rightarrow> 'b \<Rightarrow> 'st \<Rightarrow> (store_error + unit) \<times> 'st"
  so_get :: "string \<Rightarrow> 'st \<Rightarrow> (store_error + 'b) \<times> 'st"
  so_list :: "string \<Rightarrow> 'st \<Rightarrow> (store_error + string list) \<times> 'st"

text \<open>
  What the writer and the reader rely on, for keys that are spelled the way a listing spells them:
  a put stores under its key and changes nothing else, or fails and changes nothing; a listing
  shows every key under the prefix, in order.
\<close>

locale object_store =
  fixes S :: "('st, 'b) store_ops"
    and objects :: "'st \<Rightarrow> string \<Rightarrow> 'b option"
    and ok :: "'st \<Rightarrow> bool"
    and good :: "string \<Rightarrow> bool"
  assumes put_ok: "ok st \<Longrightarrow> good k \<Longrightarrow> so_put S k b st = (Inr (), st') \<Longrightarrow> objects st' = (objects st)(k \<mapsto> b)"
    and put_err: "ok st \<Longrightarrow> good k \<Longrightarrow> so_put S k b st = (Inl e, st') \<Longrightarrow> objects st' = objects st"
    and ok_put: "ok st \<Longrightarrow> good k \<Longrightarrow> ok (snd (so_put S k b st))"
    and get_same: "ok st \<Longrightarrow> ok (snd (so_get S k st)) \<and> objects (snd (so_get S k st)) = objects st"
    and get_ok: "ok st \<Longrightarrow> good k \<Longrightarrow> so_get S k st = (Inr b, st') \<Longrightarrow> objects st k = Some b"
    and list_same: "ok st \<Longrightarrow> ok (snd (so_list S p st)) \<and> objects (snd (so_list S p st)) = objects st"
    and list_ok: "ok st \<Longrightarrow> so_list S p st = (Inr ks, st') \<Longrightarrow>
       sorted_wrt (<) ks \<and> set ks = {k. objects st k \<noteq> None \<and> take (length p) k = p}"
begin

text \<open>One put, whatever its outcome: every other key holds what it held.\<close>

lemma put_other:
  "ok st \<Longrightarrow> good k \<Longrightarrow> k' \<noteq> k \<Longrightarrow> objects (snd (so_put S k b st)) k' = objects st k'"
  by (cases "fst (so_put S k b st)"; cases "so_put S k b st") (auto dest: put_ok put_err)

text \<open>A put of an absent key only adds.\<close>

lemma put_extends:
  "ok st \<Longrightarrow> good k \<Longrightarrow> objects st k = None \<Longrightarrow> objects st \<subseteq>\<^sub>m objects (snd (so_put S k b st))"
proof -
  assume st: "ok st" "good k" "objects st k = None"
  obtain res st' where put: "so_put S k b st = (res, st')" by (cases "so_put S k b st")
  show ?thesis
  proof (cases res)
    case (Inl e)
    with put put_err [OF st(1,2)] show ?thesis by simp
  next
    case (Inr u)
    then have "so_put S k b st = (Inr (), st')" using put by simp
    from put_ok [OF st(1,2) this] have "objects (snd (so_put S k b st)) = (objects st)(k \<mapsto> b)" using put by simp
    with st(3) show ?thesis by (auto simp: map_le_def)
  qed
qed

end

section \<open>The local directory\<close>

text \<open>How a call to the file system goes.\<close>

datatype io_outcome = IoOk | DirFails | StageFails | RenameFails

record 'b local_store =
  st_files :: "(string list \<times> 'b) list"
  st_io :: "io_outcome list"

definition local_store_new :: "'b local_store" where
  "local_store_new = \<lparr> st_files = [], st_io = [] \<rparr>"

definition next_io :: "'b local_store \<Rightarrow> io_outcome \<times> 'b local_store" where
  "next_io st = (case st_io st of [] \<Rightarrow> (IoOk, st) | x # xs \<Rightarrow> (x, st\<lparr> st_io := xs \<rparr>))"

text \<open>
  \<open>Path::components\<close> of a relative path: empty pieces vanish, and so does \<open>.\<close> except in front.
\<close>

definition components :: "string \<Rightarrow> string list" where
  "components key = (case split_on (CHR ''/'') key of
      [] \<Rightarrow> []
    | p # ps \<Rightarrow> filter (\<lambda>p. p \<noteq> []) [p] @ filter (\<lambda>p. p \<noteq> [] \<and> p \<noteq> ''.'') ps)"

definition resolve :: "string \<Rightarrow> store_error + string list" where
  "resolve key =
     (if key = '''' then Inl (Rejected key ''empty key'')
      else if hd key = CHR ''/'' then Inl (Rejected key ''absolute keys would escape the store root'')
      else if list_ex (\<lambda>p. p = ''.'' \<or> p = ''..'') (components key)
        then Inl (Rejected key ''key contains a traversal or root component'')
      else Inr (components key))"

text \<open>\<open>Path::extension\<close> and \<open>with_extension\<close> of a file name: the last dot splits it, unless it leads.\<close>

definition name_split :: "string \<Rightarrow> string \<times> string option" where
  "name_split name = (let ps = split_on (CHR ''.'') name; stem = join_with (CHR ''.'') (butlast ps)
     in if length ps = 1 \<or> stem = [] then (name, None) else (stem, Some (last ps)))"

definition is_partial_file :: "string list \<Rightarrow> bool" where
  "is_partial_file path \<longleftrightarrow> path \<noteq> [] \<and> snd (name_split (last path)) = Some ''partial''"

definition staging_path :: "string list \<Rightarrow> string list" where
  "staging_path path = butlast path @ [fst (name_split (last path)) @ ''.partial'']"

text \<open>A file stands where a directory is needed, or a directory where a file is.\<close>

definition blocked :: "string list \<Rightarrow> 'b local_store \<Rightarrow> bool" where
  "blocked path st \<longleftrightarrow> list_ex (\<lambda>(q, _). q \<noteq> path
     \<and> (take (length q) path = q \<or> take (length path) q = path)) (st_files st)"

definition local_put :: "string \<Rightarrow> 'b \<Rightarrow> 'b local_store \<Rightarrow> (store_error + unit) \<times> 'b local_store" where
  "local_put key bytes st =
     (case resolve key of
        Inl e \<Rightarrow> (Inl e, st)
      | Inr path \<Rightarrow>
          (let (io, st) = next_io st; staging = staging_path path
           in if io = DirFails \<or> io = StageFails \<or> blocked path st then (Inl (IoError key), st)
              else if io = RenameFails then (Inl (IoError key), st\<lparr> st_files := om_insert id staging bytes (st_files st) \<rparr>)
              else (Inr (), st\<lparr> st_files := om_insert id path bytes (om_remove id staging (st_files st)) \<rparr>)))"

definition local_get :: "string \<Rightarrow> 'b local_store \<Rightarrow> (store_error + 'b) \<times> 'b local_store" where
  "local_get key st =
     (case resolve key of
        Inl e \<Rightarrow> (Inl e, st)
      | Inr path \<Rightarrow>
          (let (io, st) = next_io st
           in (case om_get id path (st_files st) of
                 Some bytes \<Rightarrow> if io = IoOk then Inr bytes else Inl (IoError key)
               | None \<Rightarrow> Inl (IoError key), st)))"

text \<open>
  \<open>walk\<close>: the keys of the files below the root that start with the prefix, half-written files
  left out. The order in which directories are read does not matter, because \<open>list\<close> sorts.
\<close>

definition key_of :: "string list \<Rightarrow> string" where
  "key_of path = map (\<lambda>c. if c = CHR 0x5C then CHR ''/'' else c) (join_with (CHR ''/'') path)"

definition walk :: "string \<Rightarrow> 'b local_store \<Rightarrow> string list" where
  "walk prefix st = filter (\<lambda>key. take (length prefix) key = prefix)
     (map key_of (filter (\<lambda>path. \<not> is_partial_file path) (map fst (st_files st))))"

definition local_list :: "string \<Rightarrow> 'b local_store \<Rightarrow> (store_error + string list) \<times> 'b local_store" where
  "local_list prefix st = (let (io, st) = next_io st
     in (if io = IoOk then Inr (sort (walk prefix st)) else Inl (IoError ''''), st))"

definition local_ops :: "('b local_store, 'b) store_ops" where
  "local_ops = \<lparr> so_put = local_put, so_get = local_get, so_list = local_list \<rparr>"

section \<open>The local directory provides the interface\<close>

definition normal_name :: "string \<Rightarrow> bool" where
  "normal_name p \<longleftrightarrow> p \<noteq> [] \<and> p \<noteq> ''.'' \<and> p \<noteq> ''..'' \<and> CHR ''/'' \<notin> set p \<and> CHR 0x5C \<notin> set p"

definition normal_path :: "string list \<Rightarrow> bool" where
  "normal_path path \<longleftrightarrow> path \<noteq> [] \<and> list_all normal_name path"

text \<open>Keys spelled as a listing spells them, and the files under such keys.\<close>

definition good_key :: "string \<Rightarrow> bool" where
  "good_key key \<longleftrightarrow> normal_path (split_on (CHR ''/'') key) \<and> \<not> is_partial_file (split_on (CHR ''/'') key)"

definition local_ok :: "'b local_store \<Rightarrow> bool" where
  "local_ok st \<longleftrightarrow> om_sorted id (st_files st) \<and> (\<forall>(path, _) \<in> set (st_files st). normal_path path)"

definition local_objects :: "'b local_store \<Rightarrow> string \<Rightarrow> 'b option" where
  "local_objects st key = (if good_key key then om_get id (split_on (CHR ''/'') key) (st_files st) else None)"

lemma normal_no_slash: "normal_path path \<Longrightarrow> p \<in> set path \<Longrightarrow> CHR ''/'' \<notin> set p"
  by (auto simp: normal_path_def normal_name_def list_all_iff)

lemma split_path: "normal_path path \<Longrightarrow> split_on (CHR ''/'') (join_with (CHR ''/'') path) = path"
  by (intro split_join) (auto simp: normal_path_def dest: normal_no_slash [rotated])

lemma set_join_with: "set (join_with c ps) \<subseteq> insert c (\<Union> (set ` set ps))"
  by (induction c ps rule: join_with.induct) auto

lemma key_of_normal: "normal_path path \<Longrightarrow> key_of path = join_with (CHR ''/'') path"
proof -
  assume n: "normal_path path"
  have "CHR 0x5C \<notin> set (join_with (CHR ''/'') path)"
    using set_join_with [of "CHR ''/''" path] n
    by (fastforce simp: normal_path_def normal_name_def list_all_iff)
  then show ?thesis unfolding key_of_def by (intro map_idI) auto
qed

lemma good_key_path: "good_key key \<Longrightarrow> normal_path (split_on (CHR ''/'') key)"
  by (simp add: good_key_def)

lemma good_key_join: "normal_path path \<Longrightarrow> \<not> is_partial_file path \<Longrightarrow> good_key (join_with (CHR ''/'') path)"
  by (simp add: good_key_def split_path)

lemma resolve_good: "good_key key \<Longrightarrow> resolve key = Inr (split_on (CHR ''/'') key)"
proof -
  assume "good_key key"
  then have n: "normal_path (split_on (CHR ''/'') key)" by (rule good_key_path)
  obtain p ps where s: "split_on (CHR ''/'') key = p # ps" by (cases "split_on (CHR ''/'') key") auto
  have ps: "\<forall>q \<in> set (p # ps). q \<noteq> [] \<and> q \<noteq> ''.'' \<and> q \<noteq> ''..''"
    using n by (auto simp: s normal_path_def normal_name_def list_all_iff)
  have "components key = p # ps" using ps by (simp add: components_def s)
  moreover have key: "key \<noteq> []"
  proof
    assume "key = []"
    then have "p = []" using s by simp
    with ps show False by simp
  qed
  moreover have "hd key \<noteq> CHR ''/''"
  proof
    assume "hd key = CHR ''/''"
    with key obtain r where "key = CHR ''/'' # r" by (cases key) simp_all
    then have "p = []" using s by simp
    with ps show False by simp
  qed
  moreover have "\<not> list_ex (\<lambda>p. p = ''.'' \<or> p = ''..'') (p # ps)"
    using ps unfolding list_ex_iff by blast
  ultimately show ?thesis unfolding resolve_def s by simp
qed

lemma normal_insert:
  "local_ok st \<Longrightarrow> normal_path path \<Longrightarrow> local_ok (st\<lparr> st_files := om_insert id path b (st_files st) \<rparr>)"
  using set_om_insert [of id path b "st_files st"] by (fastforce simp: local_ok_def)

lemma normal_remove: "local_ok st \<Longrightarrow> local_ok (st\<lparr> st_files := om_remove id path (st_files st) \<rparr>)"
  using set_om_remove [of id path "st_files st"] by (fastforce simp: local_ok_def)

lemma normal_staging: "normal_path path \<Longrightarrow> normal_path (staging_path path) \<and> is_partial_file (staging_path path)"
proof -
  assume n: "normal_path path"
  define name where "name = last path"
  have name: "normal_name name" using n by (auto simp: normal_path_def list_all_iff name_def)
  obtain stem where stem: "fst (name_split name) = stem" "stem \<noteq> []" "set stem \<subseteq> set name"
  proof
    let ?ps = "split_on (CHR ''.'') name"
    have ps: "?ps \<noteq> []" by simp
    then have "name = join_with (CHR ''.'') (butlast ?ps @ [last ?ps])" by (simp add: join_split)
    then have "set name = set (join_with (CHR ''.'') (butlast ?ps @ [last ?ps]))" by simp
    then have "set (join_with (CHR ''.'') (butlast ?ps)) \<subseteq> set name"
      by (cases "butlast ?ps = []") (simp_all only: join_with_append not_Cons_self2 simp_thms, auto)
    then show "set (fst (name_split name)) \<subseteq> set name" by (auto simp: name_split_def Let_def)
    show "fst (name_split name) \<noteq> []" using name by (auto simp: name_split_def Let_def normal_name_def)
  qed simp
  have split: "split_on (CHR ''.'') (stem @ ''.partial'') = split_on (CHR ''.'') stem @ [''partial'']" for stem
    by (induction stem) (auto split: list.splits)
  have "name_split (stem @ ''.partial'') = (stem, Some ''partial'')"
    using stem(2) unfolding name_split_def Let_def split by (simp add: join_split)
  moreover have "normal_name (stem @ ''.partial'')"
    using name stem by (auto simp: normal_name_def append_eq_Cons_conv)
  moreover have "list_all normal_name (butlast path)"
    using n by (auto simp: normal_path_def list_all_iff dest: in_set_butlastD)
  ultimately show ?thesis
    by (simp add: normal_path_def staging_path_def is_partial_file_def stem(1) flip: name_def)
qed

lemma next_io_files [simp]: "st_files (snd (next_io st)) = st_files st"
  by (simp add: next_io_def split: list.split)

lemma next_io_ok [simp]: "local_ok (snd (next_io st)) = local_ok st"
  by (simp add: local_ok_def)

lemma next_io_contents [simp]: "local_objects (snd (next_io st)) = local_objects st"
  by (simp add: local_objects_def fun_eq_iff)

lemma split_inj: "split_on c s = split_on c t \<longleftrightarrow> s = t"
  using join_split by metis

text \<open>The staging file is never one of the keys.\<close>

lemma staging_apart:
  "good_key key \<Longrightarrow> normal_path path \<Longrightarrow> split_on (CHR ''/'') key \<noteq> staging_path path"
  using normal_staging by (auto simp: good_key_def)

lemma local_put_effect:
  assumes "local_ok st" and good: "good_key k" and put: "local_put k b st = (res, st')"
  shows "local_ok st' \<and> local_objects st' = (case res of Inr _ \<Rightarrow> (local_objects st)(k \<mapsto> b) | Inl _ \<Rightarrow> local_objects st)"
proof -
  let ?path = "split_on (CHR ''/'') k"
  obtain io st1 where io: "next_io st = (io, st1)" by (cases "next_io st")
  have st1: "local_ok st1" "local_objects st1 = local_objects st"
    using assms(1) next_io_ok [of st] next_io_contents [of st] by (simp_all add: io)
  have path: "normal_path ?path" using good by (rule good_key_path)
  note put = put [unfolded local_put_def resolve_good [OF good] sum.case io Let_def prod.case]
  consider (failed) "res = Inl (IoError k)" "st' = st1"
    | (staged) "res = Inl (IoError k)" "st' = st1\<lparr> st_files := om_insert id (staging_path ?path) b (st_files st1) \<rparr>"
    | (stored) "res = Inr ()" "st' = st1\<lparr> st_files := om_insert id ?path b (om_remove id (staging_path ?path) (st_files st1)) \<rparr>"
    using put by (auto split: if_splits)
  then show ?thesis
  proof cases
    case failed
    with st1 show ?thesis by simp
  next
    case staged
    have "local_objects st' = local_objects st1"
    proof
      fix key
      show "local_objects st' key = local_objects st1 key"
        using staging_apart [of key ?path] path
        unfolding local_objects_def staged by simp
    qed
    moreover have "local_ok st'"
      using normal_insert [OF st1(1)] normal_staging [OF path] unfolding staged by blast
    ultimately show ?thesis using st1 staged by simp
  next
    case stored
    have rem: "local_ok (st1\<lparr> st_files := om_remove id (staging_path ?path) (st_files st1) \<rparr>)"
      using st1(1) by (rule normal_remove)
    have "local_objects st' = (local_objects st1)(k \<mapsto> b)"
    proof
      fix key
      have "split_on (CHR ''/'') key = ?path \<longleftrightarrow> key = k" by (rule split_inj)
      then show "local_objects st' key = ((local_objects st1)(k \<mapsto> b)) key"
        using staging_apart [of key ?path] path good st1(1)
        unfolding local_objects_def stored local_ok_def by simp
    qed
    moreover have "local_ok st'"
      using normal_insert [OF rem path, of b] unfolding stored by simp
    ultimately show ?thesis using st1 stored by simp
  qed
qed

lemma walk_keys:
  assumes "local_ok st"
  shows "set (walk p st) = {k. local_objects st k \<noteq> None \<and> take (length p) k = p}"
proof -
  have sorted: "om_sorted id (st_files st)" using assms by (simp add: local_ok_def)
  have keys: "key_of ` {path \<in> fst ` set (st_files st). \<not> is_partial_file path} = {k. local_objects st k \<noteq> None}"
  proof (intro equalityI subsetI)
    fix k assume "k \<in> key_of ` {path \<in> fst ` set (st_files st). \<not> is_partial_file path}"
    then obtain path b where path: "(path, b) \<in> set (st_files st)" "\<not> is_partial_file path" "k = key_of path" by auto
    then have n: "normal_path path" using assms by (auto simp: local_ok_def)
    then have k: "k = join_with (CHR ''/'') path" using path(3) by (simp add: key_of_normal)
    have "om_get id path (st_files st) = Some b" using om_get_in [OF sorted path(1)] by simp
    then show "k \<in> {k. local_objects st k \<noteq> None}"
      using n path(2) by (simp add: local_objects_def k good_key_join split_path)
  next
    fix k assume "k \<in> {k. local_objects st k \<noteq> None}"
    then have good: "good_key k" and "om_get id (split_on (CHR ''/'') k) (st_files st) \<noteq> None"
      by (auto simp: local_objects_def split: if_splits)
    then obtain b where "(split_on (CHR ''/'') k, b) \<in> set (st_files st)" using om_get_mem by fastforce
    then have "split_on (CHR ''/'') k \<in> {path \<in> fst ` set (st_files st). \<not> is_partial_file path}"
      using good by (force simp: good_key_def)
    then have "key_of (split_on (CHR ''/'') k) \<in> key_of ` {path \<in> fst ` set (st_files st). \<not> is_partial_file path}"
      by (rule imageI)
    then show "k \<in> key_of ` {path \<in> fst ` set (st_files st). \<not> is_partial_file path}"
      using good by (simp add: key_of_normal good_key_path join_split)
  qed
  have "set (walk p st) = {k \<in> key_of ` {path \<in> fst ` set (st_files st). \<not> is_partial_file path}. take (length p) k = p}"
    by (auto simp: walk_def)
  then show ?thesis unfolding keys by auto
qed

text \<open>No key is listed twice, since each path spells one key.\<close>

lemma walk_distinct: "local_ok st \<Longrightarrow> distinct (walk p st)"
proof -
  assume ok: "local_ok st"
  have "sorted_wrt (<) (map fst (st_files st))" using ok by (simp add: local_ok_def om_sorted_def)
  then have d: "distinct (filter (\<lambda>path. \<not> is_partial_file path) (map fst (st_files st)))"
    unfolding id_apply strict_sorted_iff by (intro distinct_filter) simp
  have "inj_on key_of {path. normal_path path}"
    by (rule inj_onI) (metis key_of_normal mem_Collect_eq split_path)
  then have "inj_on key_of (set (filter (\<lambda>path. \<not> is_partial_file path) (map fst (st_files st))))"
    by (rule inj_on_subset) (use ok in \<open>auto simp: local_ok_def\<close>)
  with d have "distinct (map key_of (filter (\<lambda>path. \<not> is_partial_file path) (map fst (st_files st))))"
    unfolding distinct_map by blast
  then show ?thesis by (simp add: walk_def)
qed

interpretation local: object_store local_ops local_objects local_ok good_key
proof
  fix st :: "'a local_store" and k b st'
  assume ok: "local_ok st" and good: "good_key k"
  show "local_objects st' = (local_objects st)(k \<mapsto> b)" if "so_put local_ops k b st = (Inr (), st')"
    using local_put_effect [OF ok good, of b "Inr ()" st'] that by (simp add: local_ops_def)
  show "local_objects st' = local_objects st" if "so_put local_ops k b st = (Inl e, st')" for e
    using local_put_effect [OF ok good, of b "Inl e" st'] that by (simp add: local_ops_def)
  show "local_ok (snd (so_put local_ops k b st))"
    using local_put_effect [OF ok good, of b] by (cases "local_put k b st") (simp add: local_ops_def)
  show "local_objects st k = Some b" if "so_get local_ops k st = (Inr b, st')"
    using that good
    by (auto simp: local_ops_def local_get_def resolve_good local_objects_def Let_def split_beta
        split: option.splits if_splits)
next
  fix st :: "'a local_store" and k
  assume "local_ok st"
  then show "local_ok (snd (so_get local_ops k st)) \<and> local_objects (snd (so_get local_ops k st)) = local_objects st"
    by (simp add: local_ops_def local_get_def Let_def split_beta split: sum.split)
next
  fix st :: "'a local_store" and p
  assume "local_ok st"
  then show "local_ok (snd (so_list local_ops p st)) \<and> local_objects (snd (so_list local_ops p st)) = local_objects st"
    by (simp add: local_ops_def local_list_def Let_def split_beta)
next
  fix st :: "'a local_store" and p ks st'
  assume ok: "local_ok st" and "so_list local_ops p st = (Inr ks, st')"
  then have "ks = sort (walk p (snd (next_io st)))"
    unfolding local_ops_def local_list_def Let_def split_beta by (simp split: if_splits) blast
  moreover have "walk p (snd (next_io st)) = walk p st" by (simp add: walk_def)
  ultimately have "ks = sort (walk p st)" by (simp only:)
  then show "sorted_wrt (<) ks \<and> set ks = {k. local_objects st k \<noteq> None \<and> take (length p) k = p}"
    using walk_keys [OF ok, of p] walk_distinct [OF ok, of p] by (simp add: strict_sorted_iff)
qed

end
