(* ===== verification/Archive_Rows.thy ===== *)
theory Archive_Rows
  imports Events Archive_Store
begin

text \<open>
  The rows of the archive (\<open>ma-persist/src/schema.rs\<close>, the flattening half of \<open>writer.rs\<close> and
  the decoding half of \<open>reader.rs\<close>): one event becomes one row per level, rows become the
  columns of a record batch, and a file of batches becomes events again. Arrow's columns are lists
  of nullable values; the Parquet container that stores batches is third-party and a parameter.
  A 64-bit signed column holds integers within \<open>i64\<close>, the saturation of the source written out.
\<close>

section \<open>Integers and times as stored\<close>

definition i64_max :: nat where
  "i64_max = 9223372036854775807"

definition i32_max :: nat where
  "i32_max = 2147483647"

text \<open>\<open>i64::try_from(n).unwrap_or(i64::MAX)\<close>.\<close>

definition sat_i64 :: "nat \<Rightarrow> int" where
  "sat_i64 n = int (min n i64_max)"

definition unix_nanos :: "system_time \<Rightarrow> int" where
  "unix_nanos t = (case system_time_since t 0 of Inr d \<Rightarrow> sat_i64 d | Inl e \<Rightarrow> - sat_i64 e)"

definition from_unix_nanos :: "int \<Rightarrow> system_time" where
  "from_unix_nanos nanos = (if 0 \<le> nanos then 0 + int (nat \<bar>nanos\<bar>) else 0 - int (nat \<bar>nanos\<bar>))"

lemma unix_nanos_round_trip: "nat \<bar>t\<bar> \<le> i64_max \<Longrightarrow> from_unix_nanos (unix_nanos t) = t"
  by (auto simp: unix_nanos_def from_unix_nanos_def system_time_since_def sat_i64_def)

lemma sat_i64_abs: "n \<le> i64_max \<Longrightarrow> nat \<bar>sat_i64 n\<bar> = n"
  by (simp add: sat_i64_def)

section \<open>Rows\<close>

record row =
  r_event_seq :: int
  r_venue :: string
  r_symbol :: string
  r_kind :: string
  r_ingest_wall :: int
  r_ingest_elapsed :: int
  r_venue_ts :: "int option"
  r_side :: "string option"
  r_price :: "string option"
  r_qty :: "string option"
  r_level_index :: "int option"
  r_checksum :: "u32 option"
  r_heartbeat_counter :: "int option"
  r_taker_side :: "string option"

text \<open>The values of the \<open>kind\<close> column.\<close>

definition kind_snapshot :: string where "kind_snapshot = ''snapshot''"
definition kind_delta :: string where "kind_delta = ''delta''"
definition kind_trade :: string where "kind_trade = ''trade''"
definition kind_checksum :: string where "kind_checksum = ''checksum''"
definition kind_heartbeat :: string where "kind_heartbeat = ''heartbeat''"

lemmas kinds = kind_snapshot_def kind_delta_def kind_trade_def kind_checksum_def kind_heartbeat_def

fun side_str :: "side \<Rightarrow> string" where
  "side_str Bid = ''bid''"
| "side_str Ask = ''ask''"

definition template_row :: "'d market_event \<Rightarrow> int \<Rightarrow> ingest_time \<Rightarrow> row" where
  "template_row ev event_seq base = \<lparr> r_event_seq = event_seq, r_venue = venue_as_str (ev_venue ev),
     r_symbol = ev_symbol ev, r_kind = kind_heartbeat, r_ingest_wall = unix_nanos (wall_t (ev_ingest_ts ev)),
     r_ingest_elapsed = sat_i64 (since (ev_ingest_ts ev) base), r_venue_ts = map_option unix_nanos (ev_venue_ts ev),
     r_side = None, r_price = None, r_qty = None, r_level_index = None, r_checksum = None,
     r_heartbeat_counter = None, r_taker_side = None \<rparr>"

text \<open>The rows of one side, in the order the venue listed its levels.\<close>

definition level_row ::
  "('d, 'z) decimal_ops_scheme \<Rightarrow> row \<Rightarrow> string \<Rightarrow> side \<Rightarrow> nat \<Rightarrow> 'd level \<Rightarrow> row" where
  "level_row D template kind_name sd i level = template\<lparr> r_kind := kind_name, r_side := Some (side_str sd),
     r_price := Some (d_to_string D (lv_price level)), r_qty := Some (d_to_string D (lv_qty level)),
     r_level_index := Some (int (min i i32_max)) \<rparr>"

definition side_rows ::
  "('d, 'z) decimal_ops_scheme \<Rightarrow> row \<Rightarrow> string \<Rightarrow> side \<Rightarrow> 'd level list \<Rightarrow> row list" where
  "side_rows D template kind_name sd levels =
     map (\<lambda>(i, level). level_row D template kind_name sd i level) (enumerate 0 levels)"

text \<open>Both sides, and one bare row for an event that lists no level.\<close>

definition level_rows ::
  "('d, 'z) decimal_ops_scheme \<Rightarrow> row \<Rightarrow> string \<Rightarrow> 'd level list \<Rightarrow> 'd level list \<Rightarrow> row list" where
  "level_rows D template kind_name bids asks =
     (let rs = side_rows D template kind_name Bid bids @ side_rows D template kind_name Ask asks
      in if rs = [] then [template\<lparr> r_kind := kind_name \<rparr>] else rs)"

definition flatten ::
  "('d, 'z) decimal_ops_scheme \<Rightarrow> 'd market_event \<Rightarrow> int \<Rightarrow> ingest_time \<Rightarrow> row list" where
  "flatten D ev event_seq base =
     (let template = template_row ev event_seq base
      in case ev_kind ev of
           Snapshot bids asks \<Rightarrow> level_rows D template kind_snapshot bids asks
         | Delta bids asks \<Rightarrow> level_rows D template kind_delta bids asks
         | Trade price qty taker_side \<Rightarrow>
             [template\<lparr> r_kind := kind_trade, r_price := Some (d_to_string D price),
                r_qty := Some (d_to_string D qty), r_taker_side := map_option side_str taker_side \<rparr>]
         | Checksum value \<Rightarrow> [template\<lparr> r_kind := kind_checksum, r_checksum := Some value \<rparr>]
         | Heartbeat counter \<Rightarrow> [template\<lparr> r_kind := kind_heartbeat,
                r_heartbeat_counter := map_option (\<lambda>c. sat_i64 (unat c)) counter \<rparr>])"

text \<open>Every event yields a row, so none can vanish from the record.\<close>

lemma flatten_not_empty: "flatten D ev seq base \<noteq> []"
  by (simp add: flatten_def level_rows_def Let_def split: event_kind.split)

lemma side_rows_seq: "r \<in> set (side_rows D template k sd ls) \<Longrightarrow> r_event_seq r = r_event_seq template"
  by (auto simp: side_rows_def level_row_def)

lemma flatten_seq: "r \<in> set (flatten D ev seq base) \<Longrightarrow> r_event_seq r = seq"
  by (auto simp: flatten_def level_rows_def template_row_def Let_def dest: side_rows_seq
      split: event_kind.splits if_splits)

section \<open>Record batches\<close>

datatype column =
    Int64Col "int option list"
  | Int32Col "int option list"
  | UInt32Col "u32 option list"
  | Utf8Col "string option list"

record record_batch =
  rb_columns :: "(string \<times> column) list"
  rb_num_rows :: nat

datatype data_type = TInt64 | TInt32 | TUInt32 | TUtf8

text \<open>\<open>EVENT_SCHEMA\<close>: name, type and whether nulls are allowed.\<close>

definition event_schema :: "(string \<times> data_type \<times> bool) list" where
  "event_schema =
     [(''event_seq'', TInt64, False), (''venue'', TUtf8, False), (''symbol'', TUtf8, False),
      (''kind'', TUtf8, False), (''ingest_wall_unix_nanos'', TInt64, False),
      (''ingest_elapsed_nanos'', TInt64, False), (''venue_ts_unix_nanos'', TInt64, True),
      (''side'', TUtf8, True), (''price'', TUtf8, True), (''qty'', TUtf8, True),
      (''level_index'', TInt32, True), (''checksum'', TUInt32, True),
      (''heartbeat_counter'', TInt64, True), (''taker_side'', TUtf8, True)]"

definition to_batch :: "row list \<Rightarrow> record_batch" where
  "to_batch rs = \<lparr> rb_columns =
     [(''event_seq'', Int64Col (map (\<lambda>r. Some (r_event_seq r)) rs)),
      (''venue'', Utf8Col (map (\<lambda>r. Some (r_venue r)) rs)),
      (''symbol'', Utf8Col (map (\<lambda>r. Some (r_symbol r)) rs)),
      (''kind'', Utf8Col (map (\<lambda>r. Some (r_kind r)) rs)),
      (''ingest_wall_unix_nanos'', Int64Col (map (\<lambda>r. Some (r_ingest_wall r)) rs)),
      (''ingest_elapsed_nanos'', Int64Col (map (\<lambda>r. Some (r_ingest_elapsed r)) rs)),
      (''venue_ts_unix_nanos'', Int64Col (map r_venue_ts rs)),
      (''side'', Utf8Col (map r_side rs)),
      (''price'', Utf8Col (map r_price rs)),
      (''qty'', Utf8Col (map r_qty rs)),
      (''level_index'', Int32Col (map r_level_index rs)),
      (''checksum'', UInt32Col (map r_checksum rs)),
      (''heartbeat_counter'', Int64Col (map r_heartbeat_counter rs)),
      (''taker_side'', Utf8Col (map r_taker_side rs))],
     rb_num_rows = length rs \<rparr>"

text \<open>
  What \<open>RecordBatch::try_new\<close> checks: the columns are those of the schema, of its types and of
  one length, and without nulls where it allows none. \<open>to_batch\<close> always passes.
\<close>

fun column_fits :: "nat \<Rightarrow> data_type \<Rightarrow> bool \<Rightarrow> column \<Rightarrow> bool" where
  "column_fits n TInt64 nullable (Int64Col xs) = (length xs = n \<and> (nullable \<or> None \<notin> set xs))"
| "column_fits n TInt32 nullable (Int32Col xs) = (length xs = n \<and> (nullable \<or> None \<notin> set xs))"
| "column_fits n TUInt32 nullable (UInt32Col xs) = (length xs = n \<and> (nullable \<or> None \<notin> set xs))"
| "column_fits n TUtf8 nullable (Utf8Col xs) = (length xs = n \<and> (nullable \<or> None \<notin> set xs))"
| "column_fits n _ nullable _ = False"

lemma to_batch_fits_the_schema:
  "list_all2 (\<lambda>(name, ty, nullable) (name', c). name = name' \<and> column_fits (length rs) ty nullable c)
     event_schema (rb_columns (to_batch rs))"
  by (auto simp: event_schema_def to_batch_def)

section \<open>Decoding\<close>

text \<open>
  Errors of the reader. Those of Parquet and of Arrow carry the message of the library that
  raised them.
\<close>

datatype read_error =
    StoreReadError store_error
  | ParquetReadError string
  | ArrowReadError string
  | ColumnError string
  | UnknownValue nat string string
  | IncompleteRow nat string string

record 'd stored_event =
  se_stream :: stream_id
  se_event :: "'d market_event"
  se_elapsed :: duration

text \<open>\<open>?\<close> on a \<open>Result\<close>.\<close>

fun and_then :: "'e + 'a \<Rightarrow> ('a \<Rightarrow> 'e + 'b) \<Rightarrow> 'e + 'b" where
  "and_then (Inl e) f = Inl e"
| "and_then (Inr x) f = f x"

definition col_i64 :: "record_batch \<Rightarrow> string \<Rightarrow> read_error + int option list" where
  "col_i64 b name = (case map_of (rb_columns b) name of Some (Int64Col xs) \<Rightarrow> Inr xs | _ \<Rightarrow> Inl (ColumnError name))"

definition col_i32 :: "record_batch \<Rightarrow> string \<Rightarrow> read_error + int option list" where
  "col_i32 b name = (case map_of (rb_columns b) name of Some (Int32Col xs) \<Rightarrow> Inr xs | _ \<Rightarrow> Inl (ColumnError name))"

definition col_u32 :: "record_batch \<Rightarrow> string \<Rightarrow> read_error + u32 option list" where
  "col_u32 b name = (case map_of (rb_columns b) name of Some (UInt32Col xs) \<Rightarrow> Inr xs | _ \<Rightarrow> Inl (ColumnError name))"

definition col_utf8 :: "record_batch \<Rightarrow> string \<Rightarrow> read_error + string option list" where
  "col_utf8 b name = (case map_of (rb_columns b) name of Some (Utf8Col xs) \<Rightarrow> Inr xs | _ \<Rightarrow> Inl (ColumnError name))"

text \<open>
  \<open>value(row)\<close> of a column that is not checked for nulls: Arrow stores a zero or an empty text
  under a null.
\<close>

definition i64_value :: "int option \<Rightarrow> int" where
  "i64_value c = (case c of Some v \<Rightarrow> v | None \<Rightarrow> 0)"

definition text_value :: "string option \<Rightarrow> string" where
  "text_value c = (case c of Some v \<Rightarrow> v | None \<Rightarrow> '''')"

text \<open>The columns of a batch, in the order they are asked for; then its rows.\<close>

definition batch_rows :: "record_batch \<Rightarrow> read_error + row list" where
  "batch_rows b =
     and_then (col_i64 b ''event_seq'') (\<lambda>event_seq.
     and_then (col_utf8 b ''venue'') (\<lambda>venue.
     and_then (col_utf8 b ''symbol'') (\<lambda>symbol.
     and_then (col_utf8 b ''kind'') (\<lambda>kind.
     and_then (col_i64 b ''ingest_wall_unix_nanos'') (\<lambda>ingest_wall.
     and_then (col_i64 b ''ingest_elapsed_nanos'') (\<lambda>ingest_elapsed.
     and_then (col_i64 b ''venue_ts_unix_nanos'') (\<lambda>venue_ts.
     and_then (col_utf8 b ''side'') (\<lambda>sd.
     and_then (col_utf8 b ''price'') (\<lambda>price.
     and_then (col_utf8 b ''qty'') (\<lambda>qty.
     and_then (col_u32 b ''checksum'') (\<lambda>checksum.
     and_then (col_i64 b ''heartbeat_counter'') (\<lambda>heartbeat.
     and_then (col_utf8 b ''taker_side'') (\<lambda>taker.
     and_then (col_i32 b ''level_index'') (\<lambda>level_index.
       Inr (map (\<lambda>i. \<lparr> r_event_seq = i64_value (event_seq ! i), r_venue = text_value (venue ! i),
              r_symbol = text_value (symbol ! i), r_kind = text_value (kind ! i),
              r_ingest_wall = i64_value (ingest_wall ! i), r_ingest_elapsed = i64_value (ingest_elapsed ! i),
              r_venue_ts = venue_ts ! i, r_side = sd ! i, r_price = price ! i, r_qty = qty ! i,
              r_level_index = level_index ! i, r_checksum = checksum ! i,
              r_heartbeat_counter = heartbeat ! i, r_taker_side = taker ! i \<rparr>) [0..<rb_num_rows b])))))))))))))))"

lemma batch_columns:
  "col_i64 (to_batch rs) ''event_seq'' = Inr (map (\<lambda>r. Some (r_event_seq r)) rs)"
  "col_utf8 (to_batch rs) ''venue'' = Inr (map (\<lambda>r. Some (r_venue r)) rs)"
  "col_utf8 (to_batch rs) ''symbol'' = Inr (map (\<lambda>r. Some (r_symbol r)) rs)"
  "col_utf8 (to_batch rs) ''kind'' = Inr (map (\<lambda>r. Some (r_kind r)) rs)"
  "col_i64 (to_batch rs) ''ingest_wall_unix_nanos'' = Inr (map (\<lambda>r. Some (r_ingest_wall r)) rs)"
  "col_i64 (to_batch rs) ''ingest_elapsed_nanos'' = Inr (map (\<lambda>r. Some (r_ingest_elapsed r)) rs)"
  "col_i64 (to_batch rs) ''venue_ts_unix_nanos'' = Inr (map r_venue_ts rs)"
  "col_utf8 (to_batch rs) ''side'' = Inr (map r_side rs)"
  "col_utf8 (to_batch rs) ''price'' = Inr (map r_price rs)"
  "col_utf8 (to_batch rs) ''qty'' = Inr (map r_qty rs)"
  "col_u32 (to_batch rs) ''checksum'' = Inr (map r_checksum rs)"
  "col_i64 (to_batch rs) ''heartbeat_counter'' = Inr (map r_heartbeat_counter rs)"
  "col_utf8 (to_batch rs) ''taker_side'' = Inr (map r_taker_side rs)"
  "col_i32 (to_batch rs) ''level_index'' = Inr (map r_level_index rs)"
  by (simp_all add: to_batch_def col_i64_def col_i32_def col_u32_def col_utf8_def)

lemma batch_rows_to_batch [simp]: "batch_rows (to_batch rs) = Inr rs"
proof -
  have "rb_num_rows (to_batch rs) = length rs" by (simp add: to_batch_def)
  then show ?thesis
    unfolding batch_rows_def batch_columns and_then.simps
    by (simp add: i64_value_def text_value_def) (rule nth_equalityI; simp)
qed

definition parse_venue :: "string \<Rightarrow> nat \<Rightarrow> read_error + venue_id" where
  "parse_venue raw i =
     (if raw = ''coinbase'' then Inr Coinbase
      else if raw = ''kraken'' then Inr Kraken
      else if raw = ''bitstamp'' then Inr Bitstamp
      else if raw = ''fake'' then Inr Fake
      else Inl (UnknownValue i ''venue'' raw))"

definition parse_side :: "string \<Rightarrow> nat \<Rightarrow> read_error + side" where
  "parse_side raw i =
     (if raw = ''bid'' then Inr Bid else if raw = ''ask'' then Inr Ask
      else Inl (UnknownValue i ''side'' raw))"

lemma parse_venue_as_str [simp]: "parse_venue (venue_as_str v) i = Inr v"
  by (cases v) (simp_all add: parse_venue_def)

lemma parse_side_str [simp]: "parse_side (side_str s) i = Inr s"
  by (cases s) (simp_all add: parse_side_def)

text \<open>\<open>parse().map_err(|_| unknown(row, field, text))\<close>.\<close>

definition read_price :: "('d, 'z) decimal_ops_scheme \<Rightarrow> nat \<Rightarrow> string \<Rightarrow> read_error + 'd" where
  "read_price D i s = (case price_from_str D s of Inr p \<Rightarrow> Inr p | Inl _ \<Rightarrow> Inl (UnknownValue i ''price'' s))"

definition read_qty :: "('d, 'z) decimal_ops_scheme \<Rightarrow> nat \<Rightarrow> string \<Rightarrow> read_error + 'd" where
  "read_qty D i s = (case qty_from_str D s of Inr q \<Rightarrow> Inr q | Inl _ \<Rightarrow> Inl (UnknownValue i ''qty'' s))"

text \<open>The kind an event opens with: its levels come later, and so do the figures of a trade.\<close>

definition empty_kind :: "('d, 'z) decimal_ops_scheme \<Rightarrow> string \<Rightarrow> nat \<Rightarrow> row \<Rightarrow> read_error + 'd event_kind" where
  "empty_kind D name i r =
     (if name = kind_snapshot then Inr (Snapshot [] [])
      else if name = kind_delta then Inr (Delta [] [])
      else if name = kind_checksum then
        (case r_checksum r of None \<Rightarrow> Inl (IncompleteRow i kind_checksum ''checksum'') | Some v \<Rightarrow> Inr (Checksum v))
      else if name = kind_heartbeat then
        Inr (Heartbeat (map_option (\<lambda>c. of_nat (nat \<bar>c\<bar>)) (r_heartbeat_counter r)))
      else if name = kind_trade then
        and_then (read_price D i ''0'') (\<lambda>p.
        and_then (case qty_from_str D ''0'' of Inr q \<Rightarrow> Inr q | Inl _ \<Rightarrow> Inl (UnknownValue i ''price'' ''0'')) (\<lambda>q.
          Inr (Trade p q None)))
      else Inl (UnknownValue i ''kind'' name))"

text \<open>The event being assembled, with the sequence number its rows share.\<close>

type_synonym 'd open_event = "int \<times> 'd stored_event \<times> 'd level list \<times> 'd level list"

record 'd decoding =
  dc_open :: "'d open_event option"
  dc_out :: "'d stored_event list"

definition finish :: "'d stored_event \<Rightarrow> 'd level list \<Rightarrow> 'd level list \<Rightarrow> 'd stored_event" where
  "finish e bids asks =
     (case ev_kind (se_event e) of
        Snapshot _ _ \<Rightarrow> e\<lparr> se_event := (se_event e)\<lparr> ev_kind := Snapshot bids asks \<rparr> \<rparr>
      | Delta _ _ \<Rightarrow> e\<lparr> se_event := (se_event e)\<lparr> ev_kind := Delta bids asks \<rparr> \<rparr>
      | _ \<Rightarrow> e)"

definition close_open :: "'d decoding \<Rightarrow> 'd decoding" where
  "close_open st = (case dc_open st of
      None \<Rightarrow> st
    | Some (_, e, bids, asks) \<Rightarrow> \<lparr> dc_open = None, dc_out = dc_out st @ [finish e bids asks] \<rparr>)"

text \<open>
  The head of the loop: a new sequence number closes the event before, and a row with none open
  opens one. \<open>now\<close> gives the readings of \<open>Instant::now()\<close>, one for each event opened.
\<close>

definition start_event ::
  "('d, 'z) decimal_ops_scheme \<Rightarrow> (nat \<Rightarrow> instant) \<Rightarrow> nat \<Rightarrow> row \<Rightarrow> 'd decoding \<Rightarrow> read_error + 'd decoding" where
  "start_event D now i r st =
     (let st = (case dc_open st of Some (open_seq, _, _, _) \<Rightarrow> if open_seq \<noteq> r_event_seq r then close_open st else st
                 | None \<Rightarrow> st)
      in case dc_open st of
           Some _ \<Rightarrow> Inr st
         | None \<Rightarrow>
             and_then (parse_venue (r_venue r) i) (\<lambda>venue.
             and_then (empty_kind D (r_kind r) i r) (\<lambda>kind.
               Inr (st\<lparr> dc_open := Some (r_event_seq r,
                 \<lparr> se_stream = StreamId venue (r_symbol r),
                   se_event = \<lparr> ev_venue = venue, ev_symbol = r_symbol r,
                      ev_venue_ts = map_option from_unix_nanos (r_venue_ts r),
                      ev_ingest_ts = \<lparr> mono_t = now (length (dc_out st)), wall_t = from_unix_nanos (r_ingest_wall r) \<rparr>,
                      ev_kind = kind \<rparr>,
                   se_elapsed = nat \<bar>r_ingest_elapsed r\<bar> \<rparr>, [], []) \<rparr>))))"

definition set_open_kind :: "'d event_kind \<Rightarrow> 'd open_event \<Rightarrow> 'd open_event" where
  "set_open_kind kind = (\<lambda>(s, e, bids, asks). (s, e\<lparr> se_event := (se_event e)\<lparr> ev_kind := kind \<rparr> \<rparr>, bids, asks))"

definition push_level :: "side \<Rightarrow> 'd level \<Rightarrow> 'd open_event \<Rightarrow> 'd open_event" where
  "push_level sd level = (\<lambda>(s, e, bids, asks).
     case sd of Bid \<Rightarrow> (s, e, bids @ [level], asks) | Ask \<Rightarrow> (s, e, bids, asks @ [level]))"

text \<open>The rest of the loop: a trade's figures, or a level, or nothing.\<close>

definition read_row ::
  "('d, 'z) decimal_ops_scheme \<Rightarrow> nat \<Rightarrow> row \<Rightarrow> 'd decoding \<Rightarrow> read_error + 'd decoding" where
  "read_row D i r st =
     (if r_kind r = kind_trade then
        (case r_price r of
           None \<Rightarrow> Inl (IncompleteRow i kind_trade ''price'')
         | Some price_text \<Rightarrow>
             (case r_qty r of
                None \<Rightarrow> Inl (IncompleteRow i kind_trade ''qty'')
              | Some qty_text \<Rightarrow>
                  and_then (read_price D i price_text) (\<lambda>p.
                  and_then (read_qty D i qty_text) (\<lambda>q.
                  and_then (case r_taker_side r of None \<Rightarrow> Inr None
                            | Some raw \<Rightarrow> and_then (parse_side raw i) (\<lambda>s. Inr (Some s))) (\<lambda>taker.
                    Inr (st\<lparr> dc_open := map_option (set_open_kind (Trade p q taker)) (dc_open st) \<rparr>))))))
      else
        (case r_side r of
           None \<Rightarrow> Inr st
         | Some raw \<Rightarrow>
             and_then (read_price D i (text_value (r_price r))) (\<lambda>p.
             and_then (read_qty D i (text_value (r_qty r))) (\<lambda>q.
             and_then (parse_side raw i) (\<lambda>sd.
               Inr (st\<lparr> dc_open := map_option (push_level sd (level_of p q)) (dc_open st) \<rparr>))))))"

definition decode_row ::
  "('d, 'z) decimal_ops_scheme \<Rightarrow> (nat \<Rightarrow> instant) \<Rightarrow> nat \<Rightarrow> row \<Rightarrow> 'd decoding \<Rightarrow> read_error + 'd decoding" where
  "decode_row D now i r st = and_then (start_event D now i r st) (read_row D i r)"

fun decode_rows ::
  "('d, 'z) decimal_ops_scheme \<Rightarrow> (nat \<Rightarrow> instant) \<Rightarrow> nat \<Rightarrow> row list \<Rightarrow> 'd decoding \<Rightarrow> read_error + 'd decoding" where
  "decode_rows D now i [] st = Inr st"
| "decode_rows D now i (r # rs) st = and_then (decode_row D now i r st) (decode_rows D now (Suc i) rs)"

definition decode_batch ::
  "('d, 'z) decimal_ops_scheme \<Rightarrow> (nat \<Rightarrow> instant) \<Rightarrow> record_batch \<Rightarrow> 'd decoding \<Rightarrow> read_error + 'd decoding" where
  "decode_batch D now b st = and_then (batch_rows b) (\<lambda>rs. decode_rows D now 0 rs st)"

fun decode_batches ::
  "('d, 'z) decimal_ops_scheme \<Rightarrow> (nat \<Rightarrow> instant) \<Rightarrow> (read_error + record_batch) list \<Rightarrow> 'd decoding \<Rightarrow> read_error + 'd decoding" where
  "decode_batches D now [] st = Inr st"
| "decode_batches D now (b # bs) st =
     and_then b (\<lambda>batch. and_then (decode_batch D now batch st) (decode_batches D now bs))"

text \<open>
  One file: \<open>batches\<close> is the Parquet reader, which opens the bytes and yields batch after batch.
\<close>

definition decode_file ::
  "('d, 'z) decimal_ops_scheme \<Rightarrow> (nat \<Rightarrow> instant) \<Rightarrow> ('b \<Rightarrow> read_error + (read_error + record_batch) list)
     \<Rightarrow> 'b \<Rightarrow> read_error + 'd stored_event list" where
  "decode_file D now batches bytes =
     and_then (batches bytes) (\<lambda>bs.
     and_then (decode_batches D now bs \<lparr> dc_open = None, dc_out = [] \<rparr>) (\<lambda>st.
       Inr (dc_out (close_open st))))"

section \<open>Facts of the loop\<close>

lemma and_then_Inr: "and_then x f = Inr y \<longleftrightarrow> (\<exists>z. x = Inr z \<and> f z = Inr y)"
  by (cases x) auto

lemma decode_rows_append:
  "decode_rows D now i (rs @ rs') st = and_then (decode_rows D now i rs st) (decode_rows D now (i + length rs) rs')"
proof (induction rs arbitrary: i st)
  case (Cons r rs)
  then show ?case by (cases "decode_row D now i r st") auto
qed simp

text \<open>The row index only shows in errors.\<close>

lemma parse_venue_index: "parse_venue raw i = Inr v \<Longrightarrow> parse_venue raw j = Inr v"
  by (simp add: parse_venue_def split: if_splits)

lemma parse_side_index: "parse_side raw i = Inr v \<Longrightarrow> parse_side raw j = Inr v"
  by (simp add: parse_side_def split: if_splits)

lemma read_price_index: "read_price D i s = Inr p \<Longrightarrow> read_price D j s = Inr p"
  by (simp add: read_price_def split: sum.splits)

lemma read_qty_index: "read_qty D i s = Inr p \<Longrightarrow> read_qty D j s = Inr p"
  by (simp add: read_qty_def split: sum.splits)

lemma empty_kind_index: "empty_kind D name i r = Inr k \<Longrightarrow> empty_kind D name j r = Inr k"
  by (auto simp: empty_kind_def and_then_Inr split: if_splits option.splits sum.splits
      intro: read_price_index)

lemma start_event_index: "start_event D now i r st = Inr st' \<Longrightarrow> start_event D now j r st = Inr st'"
  unfolding start_event_def Let_def
  by (auto simp: and_then_Inr split: option.splits if_splits
      dest!: parse_venue_index [where i = i and j = j] empty_kind_index [where i = i and j = j])

lemma read_row_index:
  assumes "read_row D i r st = Inr st'"
  shows "read_row D j r st = Inr st'"
proof -
  note step = read_price_index [where i = i and j = j] read_qty_index [where i = i and j = j]
    parse_side_index [where i = i and j = j]
  show ?thesis
  proof (cases "r_kind r = kind_trade")
    case True
    with assms show ?thesis unfolding read_row_def
      by (cases "r_taker_side r") (auto simp: and_then_Inr split: option.splits dest!: step)
  next
    case False
    with assms show ?thesis unfolding read_row_def
      by (auto simp: and_then_Inr split: option.splits dest!: step)
  qed
qed

lemma decode_rows_index: "decode_rows D now i rs st = Inr st' \<Longrightarrow> decode_rows D now j rs st = Inr st'"
proof (induction rs arbitrary: i j st)
  case (Cons r rs)
  then obtain st1 st2 where "start_event D now i r st = Inr st1" and "read_row D i r st1 = Inr st2"
      and rest: "decode_rows D now (Suc i) rs st2 = Inr st'"
    by (auto simp: decode_row_def and_then_Inr)
  then have "decode_row D now j r st = Inr st2"
    using start_event_index [of D now i r st st1 j] read_row_index [of D i r st1 st2 j]
    by (simp add: decode_row_def)
  with Cons.IH [OF rest, of "Suc j"] show ?case by simp
qed simp

text \<open>However a list of rows is cut into batches, it decodes as one list.\<close>

lemma decode_batches_concat:
  "decode_rows D now i (concat groups) st = Inr st' \<Longrightarrow>
     decode_batches D now (map (\<lambda>g. Inr (to_batch g)) groups) st = Inr st'"
proof (induction groups arbitrary: i st)
  case (Cons g groups)
  then obtain st1 where g: "decode_rows D now i g st = Inr st1"
      and rest: "decode_rows D now (i + length g) (concat groups) st1 = Inr st'"
    by (auto simp: decode_rows_append and_then_Inr)
  from decode_rows_index [OF g, of 0] Cons.IH [OF rest] show ?case
    by (simp add: decode_batch_def)
qed simp

lemma start_event_same:
  "dc_open st = Some (r_event_seq r, e, bids, asks) \<Longrightarrow> start_event D now i r st = Inr st"
  by (simp add: start_event_def)

definition settled :: "int \<Rightarrow> 'd decoding \<Rightarrow> bool" where
  "settled seq st \<longleftrightarrow> (case dc_open st of None \<Rightarrow> True | Some (s, _) \<Rightarrow> s \<noteq> seq)"

lemma start_event_new:
  assumes "settled (r_event_seq r) st" and "parse_venue (r_venue r) i = Inr venue"
    and "empty_kind D (r_kind r) i r = Inr kind"
  shows "start_event D now i r st = Inr \<lparr> dc_open = Some (r_event_seq r,
     \<lparr> se_stream = StreamId venue (r_symbol r),
       se_event = \<lparr> ev_venue = venue, ev_symbol = r_symbol r, ev_venue_ts = map_option from_unix_nanos (r_venue_ts r),
         ev_ingest_ts = \<lparr> mono_t = now (length (dc_out (close_open st))), wall_t = from_unix_nanos (r_ingest_wall r) \<rparr>,
         ev_kind = kind \<rparr>,
       se_elapsed = nat \<bar>r_ingest_elapsed r\<bar> \<rparr>, [], []),
     dc_out = dc_out (close_open st) \<rparr>"
  using assms
  by (cases st) (auto simp: start_event_def settled_def close_open_def split: option.splits prod.splits)

text \<open>Once an event's first row has opened it, reading goes on as if it had been open before.\<close>

lemma decode_rows_opened:
  assumes "start_event D now i r st = Inr st'" and "dc_open st' = Some (r_event_seq r, e, [], [])"
  shows "decode_rows D now i (r # rs) st = decode_rows D now i (r # rs) st'"
  using assms by (simp add: decode_row_def start_event_same)

section \<open>The round trip\<close>

text \<open>
  Documented behaviour of the decimal crate: the text of a decimal parses to that decimal, scale
  and all, and the text of zero parses to a zero.
\<close>

definition d_text_law :: "('d, 'z) decimal_ops_scheme \<Rightarrow> bool" where
  "d_text_law D \<longleftrightarrow> (\<forall>d. d_from_str D (d_to_string D d) = Some d)
     \<and> (\<exists>z. d_from_str D ''0'' = Some z \<and> dval D z = 0)"

lemma read_price_text [simp]: "d_text_law D \<Longrightarrow> read_price D i (d_to_string D p) = Inr p"
  by (simp add: read_price_def price_from_str_def decimal_from_wire_def d_text_law_def)

lemma read_qty_text [simp]:
  "d_text_law D \<Longrightarrow> qty_from_decimal D q = Inr q \<Longrightarrow> read_qty D i (d_to_string D q) = Inr q"
  by (simp add: read_qty_def qty_from_str_def decimal_from_wire_def d_text_law_def)

fun quantities :: "'d event_kind \<Rightarrow> 'd set" where
  "quantities (Snapshot bids asks) = lv_qty ` set (bids @ asks)"
| "quantities (Delta bids asks) = lv_qty ` set (bids @ asks)"
| "quantities (Trade p q s) = {q}"
| "quantities _ = {}"

text \<open>
  What the columns can hold: quantities that are quantities, and times and counters within 63 bits
  of nanoseconds (until the year 2262).
\<close>

definition storable :: "('d, 'z) decimal_ops_scheme \<Rightarrow> ingest_time \<Rightarrow> 'd market_event \<Rightarrow> bool" where
  "storable D base ev \<longleftrightarrow> (\<forall>q \<in> quantities (ev_kind ev). qty_from_decimal D q = Inr q)
     \<and> nat \<bar>wall_t (ev_ingest_ts ev)\<bar> \<le> i64_max \<and> since (ev_ingest_ts ev) base \<le> i64_max
     \<and> (case ev_venue_ts ev of None \<Rightarrow> True | Some t \<Rightarrow> nat \<bar>t\<bar> \<le> i64_max)
     \<and> (case ev_kind ev of Heartbeat (Some c) \<Rightarrow> unat c \<le> i64_max | _ \<Rightarrow> True)"

text \<open>
  What comes back: the event itself, with the monotonic reading of the process that reads it and,
  beside it, the time since the writer's first event.
\<close>

definition stored_form :: "(nat \<Rightarrow> instant) \<Rightarrow> ingest_time \<Rightarrow> nat \<Rightarrow> 'd market_event \<Rightarrow> 'd stored_event" where
  "stored_form now base k ev = \<lparr> se_stream = StreamId (ev_venue ev) (ev_symbol ev),
     se_event = ev\<lparr> ev_ingest_ts := \<lparr> mono_t = now k, wall_t = wall_t (ev_ingest_ts ev) \<rparr> \<rparr>,
     se_elapsed = since (ev_ingest_ts ev) base \<rparr>"

lemma map_from_unix_nanos:
  "(case ts of None \<Rightarrow> True | Some t \<Rightarrow> nat \<bar>t\<bar> \<le> i64_max) \<Longrightarrow>
     map_option (\<lambda>t. from_unix_nanos (unix_nanos t)) ts = ts"
  by (auto simp: unix_nanos_round_trip split: option.splits)

definition opened_form :: "'d event_kind \<Rightarrow> (nat \<Rightarrow> instant) \<Rightarrow> ingest_time \<Rightarrow> nat \<Rightarrow> 'd market_event \<Rightarrow> 'd stored_event" where
  "opened_form kind now base k ev =
     (let e = stored_form now base k ev in e\<lparr> se_event := (se_event e)\<lparr> ev_kind := kind \<rparr> \<rparr>)"

text \<open>The first row of an event, whatever fields beside the template's it sets, opens it.\<close>

lemma first_row_opens:
  assumes "settled seq st" and "storable D base ev" and "empty_kind D (r_kind r) i r = Inr kind"
    and "r_event_seq r = seq" "r_venue r = venue_as_str (ev_venue ev)" "r_symbol r = ev_symbol ev"
      "r_ingest_wall r = unix_nanos (wall_t (ev_ingest_ts ev))" "r_ingest_elapsed r = sat_i64 (since (ev_ingest_ts ev) base)"
      "r_venue_ts r = map_option unix_nanos (ev_venue_ts ev)"
  shows "start_event D now i r st = Inr \<lparr> dc_open =
     Some (seq, opened_form kind now base (length (dc_out (close_open st))) ev, [], []), dc_out = dc_out (close_open st) \<rparr>"
proof -
  have "parse_venue (r_venue r) i = Inr (ev_venue ev)" using assms by simp
  from start_event_new [OF _ this assms(3)] assms show ?thesis
    by (simp add: opened_form_def stored_form_def storable_def Let_def unix_nanos_round_trip sat_i64_abs
        map_from_unix_nanos option.map_comp comp_def)
qed

text \<open>The rows of one side append its levels to the open event.\<close>

lemma side_rows_decode:
  assumes "dc_open st = Some (r_event_seq t, e, bids, asks)" and "k \<noteq> kind_trade" and law: "d_text_law D"
    and "\<forall>l \<in> set ls. qty_from_decimal D (lv_qty l) = Inr (lv_qty l)"
  shows "decode_rows D now i (map (\<lambda>(n, l). level_row D t k sd n l) (enumerate m ls)) st =
     Inr (st\<lparr> dc_open := Some (r_event_seq t, e, (if sd = Bid then bids @ ls else bids),
       (if sd = Ask then asks @ ls else asks)) \<rparr>)"
  using assms(1) assms(4)
proof (induction ls arbitrary: i m st bids asks)
  case Nil
  then show ?case by (cases st) simp
next
  case (Cons l ls)
  let ?r = "level_row D t k sd m l"
  let ?bids = "if sd = Bid then bids @ [l] else bids" and ?asks = "if sd = Ask then asks @ [l] else asks"
  let ?st = "st\<lparr> dc_open := Some (r_event_seq t, e, ?bids, ?asks) \<rparr>"
  have "start_event D now i ?r st = Inr st"
    using Cons.prems(1) by (intro start_event_same) (simp add: level_row_def)
  moreover have "read_row D i ?r st = Inr ?st"
    using Cons.prems \<open>k \<noteq> kind_trade\<close> law
    by (cases sd) (simp_all add: read_row_def level_row_def text_value_def push_level_def parse_side_def)
  ultimately have "decode_row D now i ?r st = Inr ?st"
    by (simp add: decode_row_def)
  moreover have "dc_open ?st = Some (r_event_seq t, e, ?bids, ?asks)" by simp
  ultimately show ?case
    using Cons.IH [of ?st ?bids ?asks "Suc i" "Suc m"] Cons.prems(2) by (cases sd) simp_all
qed

lemma level_rows_decode:
  assumes "settled seq st" and ok: "storable D base ev" and law: "d_text_law D"
    and k: "k \<noteq> kind_trade" "\<And>r. empty_kind D k i r = Inr kind"
    and q: "\<forall>l \<in> set (bids @ asks). qty_from_decimal D (lv_qty l) = Inr (lv_qty l)"
  shows "decode_rows D now i (level_rows D (template_row ev seq base) k bids asks) st =
     Inr \<lparr> dc_open = Some (seq, opened_form kind now base (length (dc_out (close_open st))) ev, bids, asks),
       dc_out = dc_out (close_open st) \<rparr>"
proof -
  let ?t = "template_row ev seq base"
  let ?st = "\<lparr> dc_open = Some (seq, opened_form kind now base (length (dc_out (close_open st))) ev, [], []),
       dc_out = dc_out (close_open st) \<rparr>"
  let ?rs = "side_rows D ?t k Bid bids @ side_rows D ?t k Ask asks"
  have opens: "start_event D now i r st = Inr ?st" if "r = ?t\<lparr> r_kind := k \<rparr> \<or> r \<in> set ?rs" for r
  proof (rule first_row_opens [OF assms(1) ok])
    have "r_kind r = k" using that by (auto simp: side_rows_def level_row_def)
    then show "empty_kind D (r_kind r) i r = Inr kind" using k(2) by simp
  qed (use that in \<open>auto simp: side_rows_def level_row_def template_row_def\<close>)
  have seq: "r_event_seq ?t = seq" by (simp add: template_row_def)
  show ?thesis
  proof (cases "?rs = []")
    case True
    then have none: "bids = []" "asks = []" by (simp_all add: side_rows_def enumerate_eq_zip)
    have "decode_row D now i (?t\<lparr> r_kind := k \<rparr>) st = Inr ?st"
      using opens k(1) by (simp add: decode_row_def read_row_def template_row_def)
    then show ?thesis by (simp add: level_rows_def side_rows_def none)
  next
    case False
    then obtain r rs where rs: "?rs = r # rs" by (cases ?rs) auto
    then have "r \<in> set ?rs" by simp
    then have r: "start_event D now i r st = Inr ?st" and "r_event_seq r = seq"
      using opens by (blast, auto dest: side_rows_seq simp: seq)
    then have "decode_rows D now i ?rs st = decode_rows D now i ?rs ?st"
      unfolding rs by (intro decode_rows_opened [OF r]) simp
    also have "\<dots> = Inr (?st\<lparr> dc_open :=
        Some (seq, opened_form kind now base (length (dc_out (close_open st))) ev, bids, asks) \<rparr>)"
      using q k(1) law
      by (simp add: decode_rows_append side_rows_def seq
          side_rows_decode [where t = ?t, unfolded seq])
    finally show ?thesis unfolding level_rows_def Let_def using False by (simp only: if_False) simp
  qed
qed

lemma single_row_decode:
  assumes "settled seq st" and "storable D base ev" and "empty_kind D (r_kind r) i r = Inr kind"
    and "r_event_seq r = seq" "r_venue r = venue_as_str (ev_venue ev)" "r_symbol r = ev_symbol ev"
      "r_ingest_wall r = unix_nanos (wall_t (ev_ingest_ts ev))" "r_ingest_elapsed r = sat_i64 (since (ev_ingest_ts ev) base)"
      "r_venue_ts r = map_option unix_nanos (ev_venue_ts ev)"
  shows "decode_rows D now i [r] st = read_row D i r \<lparr> dc_open =
     Some (seq, opened_form kind now base (length (dc_out (close_open st))) ev, [], []), dc_out = dc_out (close_open st) \<rparr>"
  using first_row_opens [OF assms(1-9), of now]
  by (cases "read_row D i r \<lparr> dc_open =
     Some (seq, opened_form kind now base (length (dc_out (close_open st))) ev, [], []), dc_out = dc_out (close_open st) \<rparr>")
    (simp_all add: decode_row_def)

text \<open>One event: its rows leave it open, ready to be finished to what was stored.\<close>

lemma decode_event:
  assumes "settled seq st" and ok: "storable D base ev" and law: "d_text_law D"
  shows "\<exists>e bids asks. decode_rows D now i (flatten D ev seq base) st =
      Inr \<lparr> dc_open = Some (seq, e, bids, asks), dc_out = dc_out (close_open st) \<rparr>
    \<and> finish e bids asks = stored_form now base (length (dc_out (close_open st))) ev"
proof -
  let ?t = "template_row ev seq base" and ?o = "\<lambda>kind. opened_form kind now base (length (dc_out (close_open st))) ev"
  note single = single_row_decode [OF assms(1,2)]
  have finish_o: "finish (?o kind) bids asks = stored_form now base (length (dc_out (close_open st))) ev"
    if "ev_kind ev = Snapshot bids asks \<and> kind = Snapshot [] [] \<or> ev_kind ev = Delta bids asks \<and> kind = Delta [] []" for kind bids asks
    using that by (cases ev) (auto simp: finish_def opened_form_def stored_form_def Let_def)
  have finish_k: "finish (?o (ev_kind ev)) [] [] = stored_form now base (length (dc_out (close_open st))) ev"
    if "\<And>bids asks. ev_kind ev \<noteq> Snapshot bids asks" "\<And>bids asks. ev_kind ev \<noteq> Delta bids asks"
    using that by (cases ev; cases "ev_kind ev") (auto simp: finish_def opened_form_def stored_form_def Let_def)
  show ?thesis
  proof (cases "ev_kind ev")
    case (Snapshot bids asks)
    then have "flatten D ev seq base = level_rows D ?t kind_snapshot bids asks" by (simp add: flatten_def)
    moreover have "\<forall>l \<in> set (bids @ asks). qty_from_decimal D (lv_qty l) = Inr (lv_qty l)"
      using ok Snapshot by (simp add: storable_def)
    ultimately have "decode_rows D now i (flatten D ev seq base) st =
        Inr \<lparr> dc_open = Some (seq, ?o (Snapshot [] []), bids, asks), dc_out = dc_out (close_open st) \<rparr>"
      using level_rows_decode [OF assms(1,2) law, of kind_snapshot i "Snapshot [] []"]
      by (simp add: empty_kind_def kinds)
    then show ?thesis using finish_o Snapshot by blast
  next
    case (Delta bids asks)
    then have "flatten D ev seq base = level_rows D ?t kind_delta bids asks" by (simp add: flatten_def)
    moreover have "\<forall>l \<in> set (bids @ asks). qty_from_decimal D (lv_qty l) = Inr (lv_qty l)"
      using ok Delta by (simp add: storable_def)
    ultimately have "decode_rows D now i (flatten D ev seq base) st =
        Inr \<lparr> dc_open = Some (seq, ?o (Delta [] []), bids, asks), dc_out = dc_out (close_open st) \<rparr>"
      using level_rows_decode [OF assms(1,2) law, of kind_delta i "Delta [] []"]
      by (simp add: empty_kind_def kinds)
    then show ?thesis using finish_o Delta by blast
  next
    case (Trade p q taker)
    obtain z where z: "d_from_str D ''0'' = Some z" "dval D z = 0" using law by (auto simp: d_text_law_def)
    let ?r = "?t\<lparr> r_kind := kind_trade, r_price := Some (d_to_string D p),
                r_qty := Some (d_to_string D q), r_taker_side := map_option side_str taker \<rparr>"
    have q: "qty_from_decimal D q = Inr q" using ok Trade by (simp add: storable_def)
    have "empty_kind D (r_kind ?r) i ?r = Inr (Trade z z None)"
      using z by (simp add: empty_kind_def kinds read_price_def price_from_str_def decimal_from_wire_def
          qty_from_str_def qty_from_decimal_def)
    from single [OF this]
    have "decode_rows D now i [?r] st = read_row D i ?r
        \<lparr> dc_open = Some (seq, ?o (Trade z z None), [], []), dc_out = dc_out (close_open st) \<rparr>"
      by (simp add: template_row_def)
    also have "\<dots> = Inr \<lparr> dc_open = Some (seq, ?o (ev_kind ev), [], []), dc_out = dc_out (close_open st) \<rparr>"
      using law q by (cases taker) (simp_all add: read_row_def set_open_kind_def opened_form_def stored_form_def Let_def Trade)
    finally show ?thesis using finish_k Trade by (auto simp: flatten_def)
  next
    case (Checksum v)
    let ?r = "?t\<lparr> r_kind := kind_checksum, r_checksum := Some v \<rparr>"
    have "empty_kind D (r_kind ?r) i ?r = Inr (ev_kind ev)"
      by (simp add: empty_kind_def kinds Checksum)
    from single [OF this]
    have "decode_rows D now i [?r] st =
        Inr \<lparr> dc_open = Some (seq, ?o (ev_kind ev), [], []), dc_out = dc_out (close_open st) \<rparr>"
      by (simp add: template_row_def read_row_def kinds)
    then show ?thesis using finish_k Checksum by (auto simp: flatten_def)
  next
    case (Heartbeat c)
    let ?r = "?t\<lparr> r_kind := kind_heartbeat, r_heartbeat_counter := map_option (\<lambda>c. sat_i64 (unat c)) c \<rparr>"
    have "map_option (\<lambda>c. of_nat (nat \<bar>sat_i64 (unat c)\<bar>)) c = c"
    proof (cases c)
      case (Some a)
      then have "unat a \<le> i64_max" using ok Heartbeat by (simp add: storable_def)
      from sat_i64_abs [OF this] show ?thesis unfolding Some option.map by (simp only:) simp
    qed simp
    then have "empty_kind D (r_kind ?r) i ?r = Inr (ev_kind ev)"
      by (simp add: empty_kind_def kinds Heartbeat option.map_comp comp_def)
    from single [OF this]
    have "decode_rows D now i [?r] st =
        Inr \<lparr> dc_open = Some (seq, ?o (ev_kind ev), [], []), dc_out = dc_out (close_open st) \<rparr>"
      by (simp add: template_row_def read_row_def kinds)
    then show ?thesis using finish_k Heartbeat by (auto simp: flatten_def)
  qed
qed

text \<open>The rows of a file: its events in order, each under a number of its own.\<close>

definition file_rows :: "('d, 'z) decimal_ops_scheme \<Rightarrow> ingest_time \<Rightarrow> (int \<times> 'd market_event) list \<Rightarrow> row list" where
  "file_rows D base xs = concat (map (\<lambda>(seq, ev). flatten D ev seq base) xs)"

lemma close_open_None [simp]: "dc_open st = None \<Longrightarrow> close_open st = st"
  by (simp add: close_open_def)

lemma decode_events:
  assumes law: "d_text_law D"
  shows "\<forall>ev \<in> snd ` set xs. storable D base ev \<Longrightarrow> distinct_adj (map fst xs) \<Longrightarrow>
     (xs \<noteq> [] \<Longrightarrow> settled (fst (hd xs)) st) \<Longrightarrow>
     \<exists>st'. decode_rows D now i (file_rows D base xs) st = Inr st'
       \<and> dc_out (close_open st') = dc_out (close_open st)
           @ map2 (stored_form now base) [length (dc_out (close_open st))..<length (dc_out (close_open st)) + length xs] (map snd xs)"
proof (induction xs arbitrary: st i)
  case Nil
  then show ?case by (simp add: file_rows_def)
next
  case (Cons x xs)
  obtain seq ev where x: "x = (seq, ev)" by (cases x)
  let ?n = "length (dc_out (close_open st))"
  have "settled seq st" "storable D base ev" using Cons.prems by (simp_all add: x)
  from decode_event [OF this law, of now i] obtain e bids asks where
    ev: "decode_rows D now i (flatten D ev seq base) st =
      Inr \<lparr> dc_open = Some (seq, e, bids, asks), dc_out = dc_out (close_open st) \<rparr>" (is "_ = Inr ?st")
    and fin: "finish e bids asks = stored_form now base ?n ev"
    by blast
  have closed: "dc_out (close_open ?st) = dc_out (close_open st) @ [stored_form now base ?n ev]"
    by (simp add: close_open_def fin)
  have "xs \<noteq> [] \<Longrightarrow> settled (fst (hd xs)) ?st"
    using Cons.prems(2) by (cases xs) (auto simp: settled_def x)
  moreover have "distinct_adj (map fst xs)" using Cons.prems(2) by (cases xs) auto
  moreover have "\<forall>ev \<in> snd ` set xs. storable D base ev" using Cons.prems(1) by simp
  ultimately obtain st' where st': "decode_rows D now (i + length (flatten D ev seq base)) (file_rows D base xs) ?st = Inr st'"
    and out: "dc_out (close_open st') = dc_out (close_open ?st)
       @ map2 (stored_form now base) [Suc ?n..<Suc ?n + length xs] (map snd xs)"
    using Cons.IH [of ?st "i + length (flatten D ev seq base)"] unfolding closed by auto
  have "[?n..<?n + length (x # xs)] = ?n # [Suc ?n..<Suc ?n + length xs]"
    by (simp add: upt_conv_Cons del: upt_Suc)
  with ev st' out show ?case
    by (simp add: file_rows_def x decode_rows_append closed)
qed

text \<open>
  A file that holds the rows of a list of events, however they are cut into batches, decodes to
  those events in order, with the time each came after the writer's first; nothing of an event is
  lost but the monotonic reading of the process that wrote it.
\<close>

lemma decode_file_rows:
  assumes "d_text_law D" and "\<forall>(seq, ev) \<in> set xs. storable D base ev" and "distinct_adj (map fst xs)"
    and "concat groups = concat (map (\<lambda>(seq, ev). flatten D ev seq base) xs)"
    and "batches bytes = Inr (map (\<lambda>g. Inr (to_batch g)) groups)"
  shows "decode_file D now batches bytes =
     Inr (map2 (stored_form now base) [0..<length xs] (map snd xs))"
proof -
  let ?st = "\<lparr> dc_open = None, dc_out = [] \<rparr> :: 'a decoding"
  have "settled seq ?st" for seq by (simp add: settled_def)
  moreover have "\<forall>ev \<in> snd ` set xs. storable D base ev" using assms(2) by auto
  ultimately obtain st' where st': "decode_rows D now 0 (file_rows D base xs) ?st = Inr st'"
    and out: "dc_out (close_open st') = map2 (stored_form now base) [0..<length xs] (map snd xs)"
    using decode_events [OF assms(1), of xs base ?st now 0] assms(3) by auto
  from st' have "decode_batches D now (map (\<lambda>g. Inr (to_batch g)) groups) ?st = Inr st'"
    using assms(4) by (intro decode_batches_concat [of _ _ 0]) (simp add: file_rows_def)
  with assms(5) out show ?thesis by (simp add: decode_file_def)
qed

lemma nat_decimals_text [simp]: "d_text_law nat_decimals"
proof -
  have "char_of (48 :: nat) = CHR ''0''"
    using char_of_char [where 'a = nat, of "CHR ''0''"] by simp
  then have "show_nat 0 = ''0''" by (simp add: show_nat.simps)
  then have "parse_digits ''0'' = Some 0" by (metis parse_digits_show)
  then show ?thesis by (simp add: d_text_law_def nat_decimals_def)
qed

definition sample_event :: "nat \<Rightarrow> nat event_kind \<Rightarrow> nat market_event" where
  "sample_event n kind = \<lparr> ev_venue = Kraken, ev_symbol = ''BTC'', ev_venue_ts = Some (int n),
     ev_ingest_ts = \<lparr> mono_t = n, wall_t = int n + 5 \<rparr>, ev_kind = kind \<rparr>"

definition sample_base :: ingest_time where
  "sample_base = \<lparr> mono_t = 10, wall_t = 15 \<rparr>"

definition sample_events :: "(int \<times> nat market_event) list" where
  "sample_events = [(4, sample_event 10 (Snapshot [level_of 101 2, level_of 100 1] [level_of 102 3])),
     (7, sample_event 12 (Checksum 99))]"

definition sample_rows :: "row list" where
  "sample_rows = concat (map (\<lambda>(seq, ev). flatten nat_decimals ev seq sample_base) sample_events)"

lemma nat_decimals_qty [simp]: "qty_from_decimal nat_decimals q = Inr q"
  by (simp add: qty_from_decimal_def nat_decimals_def)

end
