(* ===== verification/Archive_Calendar.thy ===== *)
theory Archive_Calendar
  imports Events Digits
begin

text \<open>
  The day and the hour in the names of the archive's files (\<open>date_hour\<close> and
  \<open>civil_from_days\<close> of \<open>ma-persist/src/writer.rs\<close>), and what the layout rests on: the date is the
  one the venue parsers count the same days for, and the names of later hours come later as text.
\<close>

section \<open>From days to dates\<close>

definition civil_from_days :: "int \<Rightarrow> int \<times> int \<times> int" where
  "civil_from_days days =
     (let z = days + 719468;
          era = (if 0 \<le> z then z else z - 146096) sdiv 146097;
          doe = z - era * 146097;
          yoe = (doe - doe sdiv 1460 + doe sdiv 36524 - doe sdiv 146096) sdiv 365;
          y = yoe + era * 400;
          doy = doe - (365 * yoe + yoe sdiv 4 - yoe sdiv 100);
          mp = (5 * doy + 2) sdiv 153;
          d = doy - (153 * mp + 2) sdiv 5 + 1;
          m = (if mp < 10 then mp + 3 else mp - 9)
      in (y + (if m \<le> 2 then 1 else 0), m, d))"

text \<open>Seconds since the epoch, zero before it.\<close>

definition epoch_secs :: "system_time \<Rightarrow> nat" where
  "epoch_secs t = (case system_time_since t 0 of Inr d \<Rightarrow> d div nanos_per_sec | Inl _ \<Rightarrow> 0)"

definition date_hour :: "system_time \<Rightarrow> string \<times> nat" where
  "date_hour t = (let secs = epoch_secs t; (y, m, d) = civil_from_days (int (secs div 86400))
     in (pad 4 (nat y) @ ''-'' @ pad 2 (nat m) @ ''-'' @ pad 2 (nat d), secs mod 86400 div 3600))"


section \<open>The year of a day\<close>

text \<open>Days before year \<open>y\<close> of an era, years counted from March; and the estimate that is divided by 365.\<close>

definition year_start :: "int \<Rightarrow> int" where
  "year_start y = 365 * y + y div 4 - y div 100"

definition year_guess :: "int \<Rightarrow> int" where
  "year_guess doe = doe - doe div 1460 + doe div 36524 - doe div 146096"

lemma div_step: "0 < k \<Longrightarrow> (n + 1) div k = n div k + (if k dvd n + 1 then 1 else (0::int))"
  using div_pred [of k "n + 1"] by simp

lemma year_guess_mono:
  assumes "m \<le> n"
  shows "year_guess m \<le> year_guess n"
  using assms
proof (induction n rule: int_ge_induct)
  case (step i)
  have "146096 dvd i + 1 \<Longrightarrow> 36524 dvd i + 1" by (rule dvd_trans [of _ 146096]) auto
  then have "year_guess i \<le> year_guess (i + 1)"
    by (simp add: year_guess_def div_step)
  with step show ?case by simp
qed simp

lemma year_guess_ends:
  "\<forall>y \<in> {0..<400}. 365 * y \<le> year_guess (year_start y)
     \<and> year_guess (if y = 399 then 146096 else year_start (y + 1) - 1) < 365 * (y + 1)"
proof -
  have "list_all (\<lambda>y. 365 * y \<le> year_guess (year_start y)
     \<and> year_guess (if y = 399 then 146096 else year_start (y + 1) - 1) < 365 * (y + 1)) (map int [0..<400])"
    by code_simp
  then show ?thesis unfolding list_all_iff set_map set_upt image_int_atLeastLessThan by simp
qed

abbreviation year_end :: "int \<Rightarrow> int" where
  "year_end y \<equiv> (if y = 399 then 146096 else year_start (y + 1) - 1)"

lemma year_of_day:
  assumes "0 \<le> doe" and "doe \<le> 146096"
  shows "year_guess doe div 365 \<in> {0..<400} \<and> year_start (year_guess doe div 365) \<le> doe
    \<and> doe \<le> year_end (year_guess doe div 365)"
proof -
  define ys where "ys = {y \<in> {0..<400}. year_start y \<le> doe}"
  have fin: "finite ys" by (rule finite_subset [of _ "{0..<400}"]) (auto simp: ys_def)
  moreover have "0 \<in> ys" using assms(1) by (simp add: ys_def year_start_def)
  ultimately have y: "Max ys \<in> ys" by (intro Max_in) auto
  have hi: "doe \<le> year_end (Max ys)"
  proof (cases "Max ys = 399")
    case False
    have "Max ys + 1 \<notin> ys" using Max_ge [OF fin, of "Max ys + 1"] by auto
    with y False show ?thesis by (auto simp: ys_def)
  qed (use assms(2) in simp)
  have lo: "year_start (Max ys) \<le> doe" and range: "Max ys \<in> {0..<400}" using y by (auto simp: ys_def)
  have "365 * Max ys \<le> year_guess doe" "year_guess doe < 365 * (Max ys + 1)"
    using year_guess_ends [rule_format, OF range] year_guess_mono [OF lo] year_guess_mono [OF hi] by linarith+
  then have "year_guess doe div 365 = Max ys"
    by (intro int_div_pos_eq [of _ _ _ "year_guess doe - 365 * Max ys"]) simp_all
  then show ?thesis using range lo hi by (simp only: simp_thms)
qed

text \<open>Days before March of a year, over all years; and every day lies in the year computed for it.\<close>

definition year_base :: "int \<Rightarrow> int" where
  "year_base y = 365 * y + y div 4 - y div 100 + y div 400"

lemma year_base_split: "y div 400 * 146097 + year_start (y - y div 400 * 400) = year_base y"
  using years_before [of y] by (simp add: year_base_def year_start_def algebra_simps)

lemma year_base_step: "year_base y + 365 \<le> year_base (y + 1) \<and> year_base (y + 1) \<le> year_base y + 366"
proof -
  have "100 dvd y + 1 \<Longrightarrow> 4 dvd y + 1" by (rule dvd_trans [of 4 100]) auto
  moreover have "400 dvd y + 1 \<Longrightarrow> 100 dvd y + 1" by (rule dvd_trans [of 100 400]) auto
  ultimately show ?thesis by (simp add: year_base_def div_step)
qed

lemma year_base_mono: "x \<le> y \<Longrightarrow> year_base x \<le> year_base y"
proof (induction y rule: int_ge_induct)
  case (step i)
  then show ?case using year_base_step [of i] by linarith
qed simp

text \<open>The year a day falls in, from March, and the day of that year.\<close>

definition civil_year :: "int \<Rightarrow> int" where
  "civil_year days = (let z = days + 719468; doe = z mod 146097 in year_guess doe div 365 + z div 146097 * 400)"

definition civil_doy :: "int \<Rightarrow> int" where
  "civil_doy days = days + 719468 - year_base (civil_year days)"

lemma civil_year_bounds:
  "year_base (civil_year days) \<le> days + 719468 \<and> days + 719468 < year_base (civil_year days + 1)"
proof -
  define z where "z = days + 719468"
  define e where "e = z div 146097"
  define doe where "doe = z mod 146097"
  define y where "y = year_guess doe div 365"
  have z: "z = e * 146097 + doe" by (simp add: e_def doe_def)
  have "0 \<le> doe" "doe \<le> 146096" using pos_mod_bound [of 146097 z] by (simp_all add: doe_def)
  from year_of_day [OF this] have y: "0 \<le> y" "y < 400" "year_start y \<le> doe" "doe \<le> year_end y"
    by (auto simp: y_def)
  have cy: "civil_year days = y + e * 400" by (simp add: civil_year_def y_def e_def doe_def z_def Let_def)
  have d: "(y + e * 400) div 400 = e" using y by (simp add: div_pos_pos_trivial)
  have "year_base (y + e * 400) = e * 146097 + year_start y"
    using year_base_split [of "y + e * 400"] unfolding d by simp
  moreover have "doe < year_base (y + e * 400 + 1) - e * 146097"
  proof (cases "y = 399")
    case True
    have "(399 + e * 400 + 1) div 400 = e + 1" by simp
    then have "year_base (399 + e * 400 + 1) = (e + 1) * 146097"
      using year_base_split [of "399 + e * 400 + 1"] by (simp add: year_start_def)
    then show ?thesis using y True by simp
  next
    case False
    then have "(y + 1 + e * 400) div 400 = e" using y by (simp add: div_pos_pos_trivial)
    then have "year_base (y + 1 + e * 400) = e * 146097 + year_start (y + 1)"
      using year_base_split [of "y + 1 + e * 400"] by simp
    moreover have eq: "y + e * 400 + 1 = y + 1 + e * 400" by simp
    moreover have "doe < year_start (y + 1)" using y False by simp
    ultimately show ?thesis unfolding eq by linarith
  qed
  ultimately show ?thesis using y z unfolding cy z_def by linarith
qed

lemma civil_doy_range: "0 \<le> civil_doy days \<and> civil_doy days \<le> 365"
  using civil_year_bounds [of days] year_base_step [of "civil_year days"] by (simp add: civil_doy_def)

text \<open>Later days come later by year and day of the year.\<close>

lemma civil_year_mono: "m < n \<Longrightarrow> civil_year m < civil_year n \<or> civil_year m = civil_year n \<and> civil_doy m < civil_doy n"
proof -
  assume mn: "m < n"
  have "\<not> civil_year n < civil_year m"
  proof
    assume "civil_year n < civil_year m"
    then have "year_base (civil_year n + 1) \<le> year_base (civil_year m)" by (intro year_base_mono) simp
    with mn civil_year_bounds [of m] civil_year_bounds [of n] show False by linarith
  qed
  with mn show ?thesis unfolding civil_doy_def by auto
qed

text \<open>The source's arithmetic, in those terms.\<close>

definition civil_mp :: "int \<Rightarrow> int" where
  "civil_mp doy = (5 * doy + 2) div 153"

lemma civil_from_days_eq:
  "civil_from_days days =
    (let mp = civil_mp (civil_doy days); m = (if mp < 10 then mp + 3 else mp - 9)
     in (civil_year days + (if m \<le> 2 then 1 else 0), m, civil_doy days - (153 * mp + 2) div 5 + 1))"
proof -
  define z where "z = days + 719468"
  define e where "e = z div 146097"
  define doe where "doe = z - e * 146097"
  have era: "(if 0 \<le> z then z else z - 146096) sdiv 146097 = e"
  proof (cases "0 \<le> z")
    case True
    then show ?thesis by (simp add: sdiv_nonneg e_def)
  next
    case False
    then have "(z - 146096) sdiv 146097 = - ((146096 - z) div 146097)"
      by (simp add: signed_divide_int_def sgn_if)
    moreover have "(146096 - z) div 146097 = - (z div 146097)"
    proof (rule int_div_pos_eq)
      show "146096 - z = 146097 * - (z div 146097) + (146096 - z mod 146097)"
        by (simp add: minus_div_mult_eq_mod [symmetric])
      show "0 \<le> 146096 - z mod 146097" "146096 - z mod 146097 < 146097"
        using pos_mod_bound [of 146097 z] pos_mod_sign [of 146097 z] by linarith+
    qed
    ultimately show ?thesis using False by (simp add: e_def)
  qed
  have doe: "doe = z mod 146097" "0 \<le> doe" "doe \<le> 146096"
    using pos_mod_bound [of 146097 z] by (simp_all add: doe_def e_def minus_div_mult_eq_mod)
  define y where "y = year_guess doe div 365"
  have y: "0 \<le> y" "y < 400" using year_of_day [OF doe(2,3)] by (simp_all add: y_def)
  have "0 \<le> year_guess doe" using y by (simp add: y_def pos_imp_zdiv_nonneg_iff)
  then have yoe: "(doe - doe sdiv 1460 + doe sdiv 36524 - doe sdiv 146096) sdiv 365 = y"
    using doe by (simp add: sdiv_nonneg year_guess_def y_def)
  have cy: "civil_year days = y + e * 400" by (simp add: civil_year_def y_def doe(1) e_def z_def Let_def)
  have "(y + e * 400) div 400 = e" using y by (simp add: div_pos_pos_trivial)
  then have "year_base (y + e * 400) = e * 146097 + year_start y" using year_base_split [of "y + e * 400"] by simp
  then have doy: "doe - (365 * y + y sdiv 4 - y sdiv 100) = civil_doy days"
    using y by (simp add: civil_doy_def cy doe_def z_def sdiv_nonneg year_start_def)
  have r: "0 \<le> civil_doy days" "0 \<le> civil_mp (civil_doy days)"
    using civil_doy_range [of days] by (simp_all add: civil_mp_def pos_imp_zdiv_nonneg_iff)
  have mp: "(5 * civil_doy days + 2) sdiv 153 = civil_mp (civil_doy days)"
    "(153 * civil_mp (civil_doy days) + 2) sdiv 5 = (153 * civil_mp (civil_doy days) + 2) div 5"
    using r by (simp_all add: sdiv_nonneg civil_mp_def)
  show ?thesis
    unfolding civil_from_days_def Let_def z_def [symmetric] era doe_def [symmetric] yoe doy mp cy by simp
qed

lemma civil_mp_range: "0 \<le> doy \<Longrightarrow> doy \<le> 365 \<Longrightarrow> 0 \<le> civil_mp doy \<and> civil_mp doy \<le> 11"
  unfolding civil_mp_def by linarith

lemma civil_day_range: "0 \<le> doy \<Longrightarrow> doy \<le> 365 \<Longrightarrow>
    1 \<le> doy - (153 * civil_mp doy + 2) div 5 + 1 \<and> doy - (153 * civil_mp doy + 2) div 5 + 1 \<le> 31"
  unfolding civil_mp_def by linarith

section \<open>Dates in order\<close>

lemma civil_parts:
  assumes "civil_from_days n = (y, m, d)"
  shows "m = (if civil_mp (civil_doy n) < 10 then civil_mp (civil_doy n) + 3 else civil_mp (civil_doy n) - 9)"
    and "y = civil_year n + (if m \<le> 2 then 1 else 0)"
    and "d = civil_doy n - (153 * civil_mp (civil_doy n) + 2) div 5 + 1"
  using assms unfolding civil_from_days_eq Let_def prod.inject by (elim conjE, simp only:)+

text \<open>Later days have later dates, by year, month and day.\<close>

lemma civil_from_days_mono:
  assumes "m < n" and "civil_from_days m = (y, mo, d)" and "civil_from_days n = (y', mo', d')"
  shows "y < y' \<or> y = y' \<and> (mo < mo' \<or> mo = mo' \<and> d < d')"
proof -
  define a where "a = civil_doy m"
  define b where "b = civil_doy n"
  define p where "p = civil_mp a"
  define q where "q = civil_mp b"
  have ab: "0 \<le> a" "a \<le> 365" "0 \<le> b" "b \<le> 365"
    using civil_doy_range [of m] civil_doy_range [of n] by (simp_all add: a_def b_def)
  have pq: "0 \<le> p" "p \<le> 11" "0 \<le> q" "q \<le> 11"
    using civil_mp_range [OF ab(1,2)] civil_mp_range [OF ab(3,4)] by (simp_all add: p_def q_def)
  note m = civil_parts(2,1,3) [OF assms(2), folded a_def p_def, folded p_def]
  note n = civil_parts(2,1,3) [OF assms(3), folded b_def q_def, folded q_def]
  from civil_year_mono [OF assms(1)] show ?thesis
  proof
    assume "civil_year m < civil_year n"
    then show ?thesis using m(1,2) n(1,2) pq by (auto split: if_splits)
  next
    assume same: "civil_year m = civil_year n \<and> civil_doy m < civil_doy n"
    then have "p \<le> q" unfolding p_def q_def civil_mp_def a_def b_def by (intro zdiv_mono1) auto
    then show ?thesis
    proof (cases "p = q")
      case True
      then show ?thesis using same m n by (simp add: a_def b_def)
    next
      case False
      with \<open>p \<le> q\<close> have "p < q" by simp
      then show ?thesis using same m(1,2) n(1,2) pq by (auto split: if_splits)
    qed
  qed
qed

lemma civil_from_days_ranges:
  assumes "0 \<le> n" and "n < 2932897" and "civil_from_days n = (y, m, d)"
  shows "1970 \<le> y \<and> y \<le> 9999 \<and> 1 \<le> m \<and> m \<le> 12 \<and> 1 \<le> d \<and> d \<le> 31"
proof -
  define p where "p = civil_mp (civil_doy n)"
  have "0 \<le> p" "p \<le> 11" using civil_mp_range civil_doy_range [of n] by (simp_all add: p_def)
  moreover have "m = (if p < 10 then p + 3 else p - 9)" "d = civil_doy n - (153 * p + 2) div 5 + 1"
    using civil_parts(1,3) [OF assms(3), folded p_def] by blast+
  ultimately have md: "1 \<le> m" "m \<le> 12" "1 \<le> d" "d \<le> 31"
    using civil_day_range [of "civil_doy n"] civil_doy_range [of n] by (auto simp: p_def split: if_splits)
  have first: "civil_from_days 0 = (1970, 1, 1)" and final: "civil_from_days 2932896 = (9999, 12, 31)"
    by code_simp+
  have "1970 \<le> y" using civil_from_days_mono [OF _ first assms(3)] assms(1,3) first by (cases "n = 0") auto
  moreover have "y \<le> 9999"
    using civil_from_days_mono [OF _ assms(3) final] assms(2,3) final by (cases "n = 2932896") auto
  ultimately show ?thesis using md by simp
qed

text \<open>The date counts the days the parsers count, and is a date of the calendar.\<close>

lemma days_of_civil: "days_of (civil_from_days n) = n"
proof -
  define mp where "mp = civil_mp (civil_doy n)"
  define m where "m = (if mp < 10 then mp + 3 else mp - 9)"
  define y where "y = civil_year n + (if m \<le> 2 then 1 else 0)"
  define d where "d = civil_doy n - (153 * mp + 2) div 5 + 1"
  have mp: "0 \<le> mp" "mp \<le> 11" using civil_mp_range civil_doy_range [of n] by (simp_all add: mp_def)
  then have m: "1 \<le> m" "m \<le> 12" "m + (if 2 < m then -3 else 9) = mp" by (auto simp: m_def)
  have "civil_from_days n = (y, m, d)"
    by (simp add: civil_from_days_eq Let_def mp_def [symmetric] m_def [symmetric] y_def d_def)
  moreover have "days_from_civil y m d = year_base (civil_year n) + (153 * mp + 2) div 5 + d - 1 - 719468"
    unfolding days_from_civil_eq [OF m(1,2)] m(3) Let_def by (simp add: year_base_def y_def)
  ultimately show ?thesis by (simp add: days_of_def d_def civil_doy_def)
qed

section \<open>Names in order\<close>

text \<open>The hours since the epoch; a directory's name tells no finer.\<close>

definition epoch_hour :: "system_time \<Rightarrow> nat" where
  "epoch_hour t = epoch_secs t div 3600"

lemma epoch_secs_mono: "s \<le> t \<Longrightarrow> epoch_secs s \<le> epoch_secs t"
  by (auto simp: epoch_secs_def system_time_since_def intro!: div_le_mono)

lemma epoch_hour_mono: "s \<le> t \<Longrightarrow> epoch_hour s \<le> epoch_hour t"
  unfolding epoch_hour_def by (intro div_le_mono epoch_secs_mono)

definition hour_name :: "nat \<Rightarrow> string" where
  "hour_name h = (let (y, m, d) = civil_from_days (int (h div 24))
     in pad 4 (nat y) @ ''-'' @ pad 2 (nat m) @ ''-'' @ pad 2 (nat d) @ ''/hour='' @ pad 2 (h mod 24))"

lemma date_hour_name: "(let (date, hour) = date_hour t in date @ ''/hour='' @ pad 2 hour) = hour_name (epoch_hour t)"
proof -
  have "epoch_secs t div 86400 = epoch_hour t div 24" by (simp add: epoch_hour_def div_mult2_eq [symmetric])
  moreover have "epoch_secs t mod 86400 div 3600 = epoch_hour t mod 24"
    using mod_mult2_eq [of "epoch_secs t" 3600 24] by (simp add: epoch_hour_def)
  ultimately show ?thesis by (simp add: date_hour_def hour_name_def Let_def split_beta)
qed

text \<open>Until the end of the year 9999, text order is time order.\<close>

definition hour_limit :: nat where
  "hour_limit = 70389528"

lemma hour_name_less:
  assumes "h < h'" and "h' < hour_limit"
  shows "hour_name h < hour_name h' \<and> length (hour_name h) = 18 \<and> length (hour_name h') = 18"
proof -
  obtain y m d where c: "civil_from_days (int (h div 24)) = (y, m, d)" by (metis prod_cases3)
  obtain y' m' d' where c': "civil_from_days (int (h' div 24)) = (y', m', d')" by (metis prod_cases3)
  have "int (h div 24) < 2932897" "int (h' div 24) < 2932897"
    using assms by (simp_all add: hour_limit_def)
  note r = civil_from_days_ranges [OF _ this(1) c] civil_from_days_ranges [OF _ this(2) c']
  have days: "h div 24 \<le> h' div 24" using assms(1) by (intro div_le_mono) simp
  have order: "y < y' \<or> y = y' \<and> (m < m' \<or> m = m' \<and> (d < d' \<or> d = d' \<and> h mod 24 < h' mod 24))"
  proof (cases "h div 24 = h' div 24")
    case True
    then have "h mod 24 < h' mod 24" using assms(1) by (metis div_mult_mod_eq nat_add_left_cancel_less)
    with True c c' show ?thesis by simp
  next
    case False
    with days have "int (h div 24) < int (h' div 24)" by simp
    from civil_from_days_mono [OF this c c'] show ?thesis by blast
  qed
  have len: "length (pad 4 (nat y)) = 4" "length (pad 4 (nat y')) = 4" "length (pad 2 (nat m)) = 2"
    "length (pad 2 (nat m')) = 2" "length (pad 2 (nat d)) = 2" "length (pad 2 (nat d')) = 2"
    "length (pad 2 (h mod 24)) = 2" "length (pad 2 (h' mod 24)) = 2"
    using r by (auto intro!: length_pad)
  have less: "pad 4 (nat y) < pad 4 (nat y') \<longleftrightarrow> y < y'" "pad 2 (nat m) < pad 2 (nat m') \<longleftrightarrow> m < m'"
    "pad 2 (nat d) < pad 2 (nat d') \<longleftrightarrow> d < d'" "pad 2 (h mod 24) < pad 2 (h' mod 24) \<longleftrightarrow> h mod 24 < h' mod 24"
    using r by (auto simp: pad_less)
  have "hour_name h < hour_name h'"
    using order r unfolding hour_name_def c c' Let_def prod.case
    by (auto simp: append_less_append len less pad_inj)
  moreover have "length (hour_name h) = 18" "length (hour_name h') = 18"
    by (simp_all add: hour_name_def c c' len)
  ultimately show ?thesis by simp
qed

end
