(* ===== verification/Archive_Writer.thy ===== *)
theory Archive_Writer
  imports Archive_Rows Archive_Store Archive_Calendar Lease
begin

text \<open>
  The writer of the archive (\<open>ma-persist/src/writer.rs\<close>, \<open>counters.rs\<close>): events are flattened,
  buffered per symbol and put into the store as files named by symbol, day, hour and part. The
  Parquet encoder is a parameter, the store is the interface of \<open>Archive_Store\<close>. A 64-bit number
  of events or parts that overflowed would take longer than a process runs; the part number wraps
  here as a release build's addition does.
\<close>

section \<open>Errors, tallies, configuration\<close>

datatype write_error = ArrowWriteError string | ParquetWriteError string | StoreWriteError store_error

record archive_counters =
  ac_rows_written :: u64
  ac_files_written :: u64
  ac_bytes_written :: u64
  ac_write_failures :: u64
  ac_open_files :: u64

definition archive_counters_default :: archive_counters where
  "archive_counters_default = \<lparr> ac_rows_written = 0, ac_files_written = 0, ac_bytes_written = 0,
     ac_write_failures = 0, ac_open_files = 0 \<rparr>"

definition record_file :: "nat \<Rightarrow> nat \<Rightarrow> archive_counters \<Rightarrow> archive_counters" where
  "record_file n bytes c = c\<lparr> ac_files_written := ac_files_written c + 1,
     ac_rows_written := ac_rows_written c + of_nat n, ac_bytes_written := ac_bytes_written c + of_nat bytes \<rparr>"

definition record_failure :: "archive_counters \<Rightarrow> archive_counters" where
  "record_failure c = c\<lparr> ac_write_failures := ac_write_failures c + 1 \<rparr>"

definition set_open_files :: "nat \<Rightarrow> archive_counters \<Rightarrow> archive_counters" where
  "set_open_files n c = c\<lparr> ac_open_files := of_nat n \<rparr>"

record writer_config =
  wc_row_group_rows :: nat
  wc_roll_every :: duration
  wc_max_open :: duration

definition writer_config_default :: writer_config where
  "writer_config_default = \<lparr> wc_row_group_rows = 8192, wc_roll_every = from_secs 3600, wc_max_open = from_secs 300 \<rparr>"

text \<open>\<open>ArrowWriter\<close>: opened empty, handed batch after batch, and finished to the bytes of a file.\<close>

record ('w, 'b) parquet_ops =
  pq_new :: "write_error + 'w"
  pq_write :: "record_batch \<Rightarrow> 'w \<Rightarrow> (write_error + unit) \<times> 'w"
  pq_into_inner :: "'w \<Rightarrow> write_error + 'b"
  pq_size :: "'b \<Rightarrow> nat"

record 'w open_file =
  of_window :: int
  of_opened_at :: ingest_time
  of_key :: string
  of_arrow :: 'w
  of_rows :: "row list"
  of_rows_total :: nat

record ('st, 'w) event_writer =
  ew_store :: 'st
  ew_prefix :: string
  ew_config :: writer_config
  ew_base :: "ingest_time option"
  ew_event_seq :: int
  ew_open :: "(string \<times> 'w open_file) list"
  ew_parts :: "(string \<times> nat) list"
  ew_counters :: archive_counters

section \<open>Names\<close>

text \<open>\<open>trim_matches\<close> of one character.\<close>

definition trim_char :: "char \<Rightarrow> string \<Rightarrow> string" where
  "trim_char c s = rev (dropWhile (\<lambda>x. x = c) (rev (dropWhile (\<lambda>x. x = c) s)))"

definition into_prefix :: "string \<Rightarrow> string" where
  "into_prefix raw = trim_char (CHR ''/'') raw"

text \<open>
  Every character that is not plain becomes an underscore; a symbol is UTF-8, so the bytes that
  continue a character leave no trace.
\<close>

definition partition_name :: "symbol \<Rightarrow> string" where
  "partition_name symbol =
     (let safe = map (\<lambda>c. if is_ascii_alphanumeric c \<or> c = CHR ''-'' \<or> c = CHR ''_'' \<or> c = CHR ''.'' then c else CHR ''_'')
                  (filter (\<lambda>c. \<not> utf8_tail (byte_of c)) symbol)
      in if trim_char (CHR ''.'') safe = [] then ''unknown'' else safe)"

text \<open>\<open>strip_prefix\<close> and \<open>strip_suffix\<close>.\<close>

definition strip_prefix :: "string \<Rightarrow> string \<Rightarrow> string option" where
  "strip_prefix p s = (if take (length p) s = p then Some (drop (length p) s) else None)"

definition strip_suffix :: "string \<Rightarrow> string \<Rightarrow> string option" where
  "strip_suffix p s = (if length p \<le> length s \<and> drop (length s - length p) s = p
     then Some (take (length s - length p) s) else None)"

definition part_number :: "string \<Rightarrow> nat option" where
  "part_number key =
     Option.bind (strip_prefix ''part-'' (last (split_on (CHR ''/'') key))) (\<lambda>rest.
     Option.bind (strip_suffix ''.parquet'' rest) (\<lambda>digits. parse_unsigned u64_max digits))"

definition next_part :: "string list \<Rightarrow> nat" where
  "next_part existing = (case List.map_filter part_number existing of
      [] \<Rightarrow> 0
    | n # ns \<Rightarrow> sat_u64 (foldl max n ns + 1))"

definition dir_for :: "('st, 'w) event_writer \<Rightarrow> string \<Rightarrow> system_time \<Rightarrow> string" where
  "dir_for w pn t = (let (date, hour) = date_hour t
     in ew_prefix w @ ''/symbol='' @ pn @ ''/date='' @ date @ ''/hour='' @ pad 2 hour @ ''/'')"

definition window_of :: "('st, 'w) event_writer \<Rightarrow> system_time \<Rightarrow> int" where
  "window_of w t = sat_i64 (epoch_secs t div max (wc_roll_every (ew_config w) div nanos_per_sec) 1)"

section \<open>The writer\<close>

definition event_writer_new :: "'st \<Rightarrow> string \<Rightarrow> ('st, 'w) event_writer" where
  "event_writer_new store prefix = \<lparr> ew_store = store, ew_prefix = into_prefix prefix,
     ew_config = writer_config_default, ew_base = None, ew_event_seq = 0, ew_open = [], ew_parts = [],
     ew_counters = archive_counters_default \<rparr>"

definition with_config :: "('st, 'w) event_writer \<Rightarrow> writer_config \<Rightarrow> ('st, 'w) event_writer" where
  "with_config w config = w\<lparr> ew_config := config \<rparr>"

definition with_counters :: "('st, 'w) event_writer \<Rightarrow> archive_counters \<Rightarrow> ('st, 'w) event_writer" where
  "with_counters w counters = w\<lparr> ew_counters := counters \<rparr>"

text \<open>A rejected batch leaves the rows where they are.\<close>

definition flush_row_group :: "('w, 'b) parquet_ops \<Rightarrow> 'w open_file \<Rightarrow> (write_error + unit) \<times> 'w open_file" where
  "flush_row_group P f =
     (if of_rows f = [] then (Inr (), f)
      else case pq_write P (to_batch (of_rows f)) (of_arrow f) of
             (Inl e, a) \<Rightarrow> (Inl e, f\<lparr> of_arrow := a \<rparr>)
           | (Inr _, a) \<Rightarrow> (Inr (), f\<lparr> of_arrow := a, of_rows := [] \<rparr>))"

definition count_open :: "('st, 'w) event_writer \<Rightarrow> ('st, 'w) event_writer" where
  "count_open w = w\<lparr> ew_counters := set_open_files (length (ew_open w)) (ew_counters w) \<rparr>"

text \<open>The file leaves \<open>open\<close> first; what happens to it afterwards decides whether it is stored or lost.\<close>

definition roll ::
  "('st, 'b) store_ops \<Rightarrow> ('w, 'b) parquet_ops \<Rightarrow> string \<Rightarrow> ('st, 'w) event_writer
     \<Rightarrow> (write_error + unit) \<times> ('st, 'w) event_writer" where
  "roll S P pn w =
     (case om_get id pn (ew_open w) of
        None \<Rightarrow> (Inr (), w)
      | Some f \<Rightarrow>
          (let w = count_open (w\<lparr> ew_open := om_remove id pn (ew_open w) \<rparr>)
           in case flush_row_group P f of
                (Inl e, _) \<Rightarrow> (Inl e, w)
              | (Inr _, f) \<Rightarrow>
                  (case pq_into_inner P (of_arrow f) of
                     Inl e \<Rightarrow> (Inl e, w)
                   | Inr bytes \<Rightarrow>
                       (case so_put S (of_key f) bytes (ew_store w) of
                          (Inl e, st) \<Rightarrow> (Inl (StoreWriteError e), w\<lparr> ew_store := st \<rparr>)
                        | (Inr _, st) \<Rightarrow> (Inr (), w\<lparr> ew_store := st,
                            ew_counters := record_file (of_rows_total f) (sat_u64 (pq_size P bytes)) (ew_counters w) \<rparr>)))))"

text \<open>The part number of a directory: remembered, or one past the highest the store lists.\<close>

definition choose_part ::
  "('st, 'b) store_ops \<Rightarrow> string \<Rightarrow> ('st, 'w) event_writer \<Rightarrow> (write_error + nat) \<times> ('st, 'w) event_writer" where
  "choose_part S dir w =
     (case om_get id dir (ew_parts w) of
        Some next \<Rightarrow> (Inr next, w)
      | None \<Rightarrow>
          (case so_list S dir (ew_store w) of
             (Inl e, st) \<Rightarrow> (Inl (StoreWriteError e), w\<lparr> ew_store := st \<rparr>)
           | (Inr existing, st) \<Rightarrow> (Inr (next_part existing), w\<lparr> ew_store := st \<rparr>)))"

definition start_file ::
  "('st, 'b) store_ops \<Rightarrow> ('w, 'b) parquet_ops \<Rightarrow> string \<Rightarrow> int \<Rightarrow> system_time \<Rightarrow> ingest_time
     \<Rightarrow> ('st, 'w) event_writer \<Rightarrow> (write_error + 'w open_file) \<times> ('st, 'w) event_writer" where
  "start_file S P pn window t opened_at w =
     (case pq_new P of
        Inl e \<Rightarrow> (Inl e, w)
      | Inr arrow \<Rightarrow>
          (let dir = dir_for w pn t
           in case choose_part S dir w of
                (Inl e, w) \<Rightarrow> (Inl e, w)
              | (Inr part, w) \<Rightarrow>
                  (Inr \<lparr> of_window = window, of_opened_at = opened_at,
                         of_key = dir @ ''part-'' @ pad 5 part @ ''.parquet'',
                         of_arrow = arrow, of_rows = [], of_rows_total = 0 \<rparr>,
                   w\<lparr> ew_parts := om_insert id dir ((part + 1) mod 2 ^ 64) (ew_parts w) \<rparr>)))"

text \<open>Whether an event closes the file of its partition first.\<close>

definition rotates :: "'d market_event \<Rightarrow> string \<Rightarrow> ('st, 'w) event_writer \<Rightarrow> bool" where
  "rotates ev pn w =
     (case om_get id pn (ew_open w) of
        None \<Rightarrow> False
      | Some f \<Rightarrow> of_window f \<noteq> window_of w (wall_t (ev_ingest_ts ev))
          \<or> wc_max_open (ew_config w) \<le> since (ev_ingest_ts ev) (of_opened_at f))"

text \<open>The file of the pn is there: a new one when none is open.\<close>

definition ensure_open ::
  "('st, 'b) store_ops \<Rightarrow> ('w, 'b) parquet_ops \<Rightarrow> 'd market_event \<Rightarrow> string \<Rightarrow> ('st, 'w) event_writer
     \<Rightarrow> (write_error + unit) \<times> ('st, 'w) event_writer" where
  "ensure_open S P ev pn w =
     (case om_get id pn (ew_open w) of
        Some _ \<Rightarrow> (Inr (), w)
      | None \<Rightarrow>
          (case start_file S P pn (window_of w (wall_t (ev_ingest_ts ev))) (wall_t (ev_ingest_ts ev)) (ev_ingest_ts ev) w of
             (Inl e, w) \<Rightarrow> (Inl e, w)
           | (Inr f, w) \<Rightarrow> (Inr (), count_open (w\<lparr> ew_open := om_insert id pn f (ew_open w) \<rparr>))))"

text \<open>The rows join the file, which flushes a row group when it holds enough.\<close>

definition append_rows ::
  "('w, 'b) parquet_ops \<Rightarrow> string \<Rightarrow> row list \<Rightarrow> ('st, 'w) event_writer
     \<Rightarrow> (write_error + unit) \<times> ('st, 'w) event_writer" where
  "append_rows P pn rs w =
     (case om_get id pn (ew_open w) of
        None \<Rightarrow> (Inr (), w)
      | Some f \<Rightarrow>
          (let f = f\<lparr> of_rows_total := of_rows_total f + length rs, of_rows := of_rows f @ rs \<rparr>;
               (res, f) = (if wc_row_group_rows (ew_config w) \<le> length (of_rows f) then flush_row_group P f else (Inr (), f))
           in (res, w\<lparr> ew_open := om_insert id pn f (ew_open w) \<rparr>)))"

definition append_event ::
  "('d, 'z) decimal_ops_scheme \<Rightarrow> ('st, 'b) store_ops \<Rightarrow> ('w, 'b) parquet_ops \<Rightarrow> 'd market_event
     \<Rightarrow> ('st, 'w) event_writer \<Rightarrow> (write_error + unit) \<times> ('st, 'w) event_writer" where
  "append_event D S P ev w =
     (let base = (case ew_base w of Some b \<Rightarrow> b | None \<Rightarrow> ev_ingest_ts ev);
          w = w\<lparr> ew_base := Some base \<rparr>;
          pn = partition_name (ev_symbol ev)
      in case (if rotates ev pn w then roll S P pn w else (Inr (), w)) of
           (Inl e, w) \<Rightarrow> (Inl e, w)
         | (Inr _, w) \<Rightarrow>
             (case ensure_open S P ev pn w of
                (Inl e, w) \<Rightarrow> (Inl e, w)
              | (Inr _, w) \<Rightarrow>
                  (let w = w\<lparr> ew_event_seq := ew_event_seq w + 1 \<rparr>
                   in append_rows P pn (flatten D ev (ew_event_seq w) base) w)))"

text \<open>Every open file is attempted; the first error is the one returned.\<close>

fun close_each ::
  "('st, 'b) store_ops \<Rightarrow> ('w, 'b) parquet_ops \<Rightarrow> string list \<Rightarrow> write_error option \<Rightarrow> ('st, 'w) event_writer
     \<Rightarrow> write_error option \<times> ('st, 'w) event_writer" where
  "close_each S P [] first_error w = (first_error, w)"
| "close_each S P (pn # ps) first_error w =
     (case roll S P pn w of
        (Inl e, w) \<Rightarrow> close_each S P ps (opt_or first_error (Some e))
                       (w\<lparr> ew_counters := record_failure (ew_counters w) \<rparr>)
      | (Inr _, w) \<Rightarrow> close_each S P ps first_error w)"

definition close_writer ::
  "('st, 'b) store_ops \<Rightarrow> ('w, 'b) parquet_ops \<Rightarrow> ('st, 'w) event_writer \<Rightarrow> (write_error + unit) \<times> ('st, 'w) event_writer" where
  "close_writer S P w = (case close_each S P (map fst (ew_open w)) None w of
      (Some e, w) \<Rightarrow> (Inl e, w)
    | (None, w) \<Rightarrow> (Inr (), w))"

definition write_event ::
  "('d, 'z) decimal_ops_scheme \<Rightarrow> ('st, 'b) store_ops \<Rightarrow> ('w, 'b) parquet_ops
     \<Rightarrow> ('st, 'w) event_writer \<Rightarrow> 'd market_event \<Rightarrow> ('st, 'w) event_writer" where
  "write_event D S P w ev = (case append_event D S P ev w of
      (Inr _, w) \<Rightarrow> w
    | (Inl _, w) \<Rightarrow> w\<lparr> ew_counters := record_failure (ew_counters w) \<rparr>)"

text \<open>\<open>run\<close>: the channel drained to its end, then every file closed; no failure stops it.\<close>

definition run_writer ::
  "('d, 'z) decimal_ops_scheme \<Rightarrow> ('st, 'b) store_ops \<Rightarrow> ('w, 'b) parquet_ops
     \<Rightarrow> 'd market_event list \<Rightarrow> ('st, 'w) event_writer \<Rightarrow> ('st, 'w) event_writer" where
  "run_writer D S P events w = snd (close_writer S P (foldl (write_event D S P) w events))"

end
