(* ===== verification/Archive_Writing.thy ===== *)
theory Archive_Writing
  imports Archive_Writer
begin

text \<open>
  What the writer of the archive keeps: the names of its files, and that no file it puts into the
  store replaces one that is there, whatever fails and however often it is restarted.
\<close>

section \<open>The names of files\<close>

definition file_name :: "nat \<Rightarrow> string" where
  "file_name n = ''part-'' @ pad 5 n @ ''.parquet''"

definition dir_name :: "string \<Rightarrow> string \<Rightarrow> nat \<Rightarrow> string" where
  "dir_name prefix pn h = prefix @ ''/symbol='' @ pn @ ''/date='' @ hour_name h @ ''/''"

lemma dir_for_name: "dir_for w pn t = dir_name (ew_prefix w) pn (epoch_hour t)"
  using date_hour_name [of t] by (simp add: dir_for_def dir_name_def Let_def split_beta)

lemma split_on_snoc: "c \<notin> set q \<Longrightarrow> split_on c (s @ c # q) = split_on c s @ [q]"
  by (induction s) (auto simp: split_on_piece split: list.splits)

lemma pad_chars: "x \<in> set (pad w n) \<Longrightarrow> is_digit_char x"
  using pad_digits [of w n] by (auto simp: list_all_iff)

lemma pad_no_char: "\<not> is_digit_char c \<Longrightarrow> c \<notin> set (pad w n)"
  using pad_chars by blast

lemma slash_no_digit [simp]: "\<not> is_digit_char (CHR ''/'')" "\<not> is_digit_char (CHR ''.'')"
  "\<not> is_digit_char (CHR 0x5C)"
  by (simp_all add: is_digit_char_def byte_of_def)

lemma file_name_chars: "CHR ''/'' \<notin> set (file_name n)" "CHR 0x5C \<notin> set (file_name n)"
  by (simp_all add: file_name_def pad_no_char)

lemma file_name_inj [simp]: "file_name m = file_name n \<longleftrightarrow> m = n"
  by (simp add: file_name_def pad_inj)

lemma name_split_file: "snd (name_split (file_name n)) = Some ''parquet''"
proof -
  have "split_on (CHR ''.'') ((''part-'' @ pad 5 n) @ CHR ''.'' # ''parquet'') = [''part-'' @ pad 5 n] @ [''parquet'']"
    by (subst split_on_snoc) (simp_all add: split_on_piece pad_no_char)
  then show ?thesis by (simp add: name_split_def file_name_def)
qed

lemma part_number_file: "n \<le> u64_max \<Longrightarrow> part_number (d @ CHR ''/'' # file_name n) = Some n"
proof -
  assume n: "n \<le> u64_max"
  have "last (split_on (CHR ''/'') (d @ CHR ''/'' # file_name n)) = file_name n"
    by (simp add: split_on_snoc file_name_chars)
  moreover have "strip_prefix ''part-'' (file_name n) = Some (pad 5 n @ ''.parquet'')"
    by (simp add: strip_prefix_def file_name_def)
  moreover have "strip_suffix ''.parquet'' (pad 5 n @ ''.parquet'') = Some (pad 5 n)"
    by (simp add: strip_suffix_def)
  ultimately show ?thesis using n by (simp add: part_number_def)
qed

lemma file_key_inj:
  "d @ CHR ''/'' # file_name n = d' @ CHR ''/'' # file_name n' \<Longrightarrow> d = d' \<and> n = n'"
proof -
  assume eq: "d @ CHR ''/'' # file_name n = d' @ CHR ''/'' # file_name n'"
  then have "split_on (CHR ''/'') d @ [file_name n] = split_on (CHR ''/'') d' @ [file_name n']"
    by (metis split_on_snoc file_name_chars(1))
  then show ?thesis by (simp add: split_inj)
qed

text \<open>The path of a file: the prefix, then four names.\<close>

definition plain_name :: "string \<Rightarrow> bool" where
  "plain_name pn \<longleftrightarrow> CHR ''/'' \<notin> set pn \<and> CHR 0x5C \<notin> set pn"

definition hour_date :: "nat \<Rightarrow> string" where
  "hour_date h = (let (y, m, d) = civil_from_days (int (h div 24))
     in pad 4 (nat y) @ ''-'' @ pad 2 (nat m) @ ''-'' @ pad 2 (nat d))"

lemma hour_name_split: "hour_name h = hour_date h @ ''/hour='' @ pad 2 (h mod 24)"
  by (simp add: hour_name_def hour_date_def Let_def split_beta)

lemma hour_date_chars: "CHR ''/'' \<notin> set (hour_date h)" "CHR 0x5C \<notin> set (hour_date h)"
  by (simp_all add: hour_date_def Let_def split_beta pad_no_char)

lemma dir_name_path:
  assumes "plain_name pn"
  shows "split_on (CHR ''/'') (dir_name prefix pn h @ file_name n) = split_on (CHR ''/'') prefix
     @ [''symbol='' @ pn, ''date='' @ hour_date h, ''hour='' @ pad 2 (h mod 24), file_name n]"
proof -
  have names: "CHR ''/'' \<notin> set (''symbol='' @ pn)" "CHR ''/'' \<notin> set (''date='' @ hour_date h)"
    "CHR ''/'' \<notin> set (''hour='' @ pad 2 (h mod 24))" "CHR ''/'' \<notin> set (file_name n)"
    using assms by (simp_all add: plain_name_def file_name_chars pad_no_char hour_date_chars)
  have key: "dir_name prefix pn h @ file_name n = (((prefix @ CHR ''/'' # (''symbol='' @ pn)) @ CHR ''/'' # (''date='' @ hour_date h))
      @ CHR ''/'' # (''hour='' @ pad 2 (h mod 24))) @ CHR ''/'' # file_name n"
    by (simp add: dir_name_def hour_name_split)
  show ?thesis
    unfolding key split_on_snoc [OF names(4)] split_on_snoc [OF names(3)] split_on_snoc [OF names(2)]
      split_on_snoc [OF names(1)] by simp
qed

lemma dir_name_inj:
  assumes "plain_name pn" "plain_name pn'"
    and "dir_name prefix pn h @ file_name n = dir_name prefix pn' h' @ file_name n'"
  shows "pn = pn' \<and> n = n'"
  using assms(3) dir_name_path [OF assms(1), of prefix h n] dir_name_path [OF assms(2), of prefix h' n'] by simp

lemma good_file_key:
  assumes "normal_path (split_on (CHR ''/'') prefix)" and "plain_name pn"
  shows "good_key (dir_name prefix pn h @ file_name n)"
proof -
  have "normal_name (''symbol='' @ pn)" using assms(2) by (simp add: normal_name_def plain_name_def)
  moreover have "normal_name (''date='' @ hour_date h)" by (simp add: normal_name_def hour_date_chars)
  moreover have "normal_name (''hour='' @ pad 2 (h mod 24))" by (simp add: normal_name_def pad_no_char)
  moreover have "normal_name (file_name n)" using file_name_chars [of n] by (simp add: normal_name_def file_name_def)
  ultimately show ?thesis
    using assms(1) name_split_file [of n]
    by (simp add: good_key_def dir_name_path [OF assms(2)] normal_path_def is_partial_file_def)
qed

lemma partition_name_plain: "plain_name (partition_name symbol)"
  by (auto simp: plain_name_def partition_name_def Let_def is_ascii_alphanumeric_def less_eq_char_def split: if_splits)

lemma dir_name_slash: "\<exists>d. dir_name prefix pn h = d @ ''/''"
  by (simp add: dir_name_def)

text \<open>The number after every listed part.\<close>

lemma foldl_max_ge: "m \<le> foldl max m ns \<and> (\<forall>n \<in> set ns. n \<le> foldl max m (ns :: nat list))"
proof (induction ns arbitrary: m)
  case (Cons n ns)
  from Cons [of "max m n"] show ?case by auto
qed simp

lemma foldl_max_less: "m < b \<Longrightarrow> \<forall>n \<in> set ns. n < b \<Longrightarrow> foldl max m ns < (b :: nat)"
  by (induction ns arbitrary: m) auto

lemma next_part_after:
  "k \<in> set existing \<Longrightarrow> part_number k = Some n \<Longrightarrow> \<forall>k \<in> set existing. \<forall>n. part_number k = Some n \<longrightarrow> n < B \<Longrightarrow>
     B \<le> u64_max \<Longrightarrow> n < next_part existing"
proof -
  assume k: "k \<in> set existing" "part_number k = Some n"
    and small: "\<forall>k \<in> set existing. \<forall>n. part_number k = Some n \<longrightarrow> n < B" "B \<le> u64_max"
  let ?ns = "List.map_filter part_number existing"
  have mem: "n \<in> set ?ns" using k by (force simp: List.map_filter_def)
  then obtain m ms where ms: "?ns = m # ms" by (cases ?ns) auto
  have bound: "\<forall>n \<in> set ?ns. n < B" using small by (auto simp: List.map_filter_def)
  have "n \<le> foldl max m ms" using mem foldl_max_ge [of m ms] by (auto simp: ms)
  moreover have "foldl max m ms < B" using bound by (intro foldl_max_less) (auto simp: ms)
  ultimately show ?thesis using small(2) by (simp add: next_part_def ms sat_u64_def)
qed

lemma next_part_bound:
  "\<forall>k \<in> set existing. \<forall>n. part_number k = Some n \<longrightarrow> n < B \<Longrightarrow> next_part existing \<le> B"
proof -
  assume small: "\<forall>k \<in> set existing. \<forall>n. part_number k = Some n \<longrightarrow> n < B"
  let ?ns = "List.map_filter part_number existing"
  have bound: "\<forall>n \<in> set ?ns. n < B" using small by (auto simp: List.map_filter_def)
  show ?thesis
  proof (cases ?ns)
    case (Cons m ms)
    then have "foldl max m ms < B" using bound by (intro foldl_max_less) auto
    then show ?thesis using sat_u64_le [of "foldl max m ms + 1"] by (simp add: next_part_def Cons del: sat_u64_le)
  qed (simp add: next_part_def)
qed

section \<open>Frames of the operations\<close>

lemma flush_row_group_key [simp]: "of_key (snd (flush_row_group P f)) = of_key f"
  by (simp add: flush_row_group_def split: prod.split sum.split)

lemma roll_absent: "om_get id pn (ew_open w) = None \<Longrightarrow> roll S P pn w = (Inr (), w)"
  by (simp add: roll_def)

text \<open>A roll removes the file from \<open>open\<close>, and the store sees at most one put, of its key.\<close>

lemma roll_effect:
  assumes "om_get id pn (ew_open w) = Some f"
  shows "\<exists>c st. snd (roll S P pn w) = w\<lparr> ew_open := om_remove id pn (ew_open w), ew_counters := c, ew_store := st \<rparr>
     \<and> (st = ew_store w \<or> (\<exists>b. st = snd (so_put S (of_key f) b (ew_store w))))"
proof -
  let ?w = "count_open (w\<lparr> ew_open := om_remove id pn (ew_open w) \<rparr>)"
  have w: "?w = w\<lparr> ew_open := om_remove id pn (ew_open w), ew_counters := ew_counters ?w, ew_store := ew_store w \<rparr>"
    by (simp add: count_open_def)
  obtain res g where flush: "flush_row_group P f = (res, g)" by (cases "flush_row_group P f")
  then have key: "of_key g = of_key f" using flush_row_group_key [of P f] by simp
  note roll = roll_def [of S P pn w, unfolded assms option.case Let_def flush prod.case]
  show ?thesis
  proof (cases res)
    case (Inl e)
    then have "snd (roll S P pn w) = ?w" using roll by simp
    then show ?thesis using w by metis
  next
    case (Inr u)
    show ?thesis
    proof (cases "pq_into_inner P (of_arrow g)")
      case (Inl e)
      then have "snd (roll S P pn w) = ?w" using roll Inr by simp
      then show ?thesis using w by metis
    next
      case bytes: (Inr bytes)
      obtain r st where put: "so_put S (of_key f) bytes (ew_store w) = (r, st)" by (cases "so_put S (of_key f) bytes (ew_store w)")
      have same: "ew_store ?w = ew_store w" by (simp add: count_open_def)
      have "\<exists>c. snd (roll S P pn w) = w\<lparr> ew_open := om_remove id pn (ew_open w), ew_counters := c, ew_store := st \<rparr>"
      proof (cases r)
        case (Inl e)
        then have "snd (roll S P pn w) = ?w\<lparr> ew_store := st \<rparr>"
          using roll Inr bytes put key same by simp
        then show ?thesis by (auto simp: count_open_def)
      next
        case r: (Inr u)
        then have "snd (roll S P pn w) = ?w\<lparr> ew_store := st,
            ew_counters := record_file (of_rows_total g) (sat_u64 (pq_size P bytes)) (ew_counters ?w) \<rparr>"
          using roll Inr bytes put key same by simp
        then show ?thesis
          by (intro exI [of _ "record_file (of_rows_total g) (sat_u64 (pq_size P bytes)) (ew_counters ?w)"])
            (cases w, simp add: count_open_def)
      qed
      then show ?thesis using put by (metis snd_conv)
    qed
  qed
qed

lemma append_rows_effect:
  "\<exists>m. snd (append_rows P pn rs w) = w\<lparr> ew_open := m \<rparr> \<and> (m = ew_open w
     \<or> (\<exists>f g. om_get id pn (ew_open w) = Some f \<and> of_key g = of_key f \<and> m = om_insert id pn g (ew_open w)))"
proof (cases "om_get id pn (ew_open w)")
  case None
  then show ?thesis by (intro exI [of _ "ew_open w"]) (simp add: append_rows_def)
next
  case (Some f)
  let ?f = "f\<lparr> of_rows_total := of_rows_total f + length rs, of_rows := of_rows f @ rs \<rparr>"
  let ?r = "if wc_row_group_rows (ew_config w) \<le> length (of_rows ?f) then flush_row_group P ?f else (Inr (), ?f)"
  have "of_key (snd ?r) = of_key f" by simp
  moreover have "snd (append_rows P pn rs w) = w\<lparr> ew_open := om_insert id pn (snd ?r) (ew_open w) \<rparr>"
    unfolding append_rows_def Some option.case Let_def split_beta by simp
  ultimately show ?thesis using Some by metis
qed

section \<open>What the writer keeps\<close>

text \<open>
  Every open file has a part number below the next of its directory, under a key that is not in
  the store; the directories already used know the first number that is free; and no number in
  the store has reached \<open>B\<close>.
\<close>

definition open_file_ok :: "('st \<Rightarrow> string \<Rightarrow> 'b option) \<Rightarrow> ('st, 'w) event_writer \<Rightarrow> string \<Rightarrow> 'w open_file \<Rightarrow> bool" where
  "open_file_ok objects w pn f \<longleftrightarrow> plain_name pn \<and> objects (ew_store w) (of_key f) = None
     \<and> (\<exists>h n m. of_key f = dir_name (ew_prefix w) pn h @ file_name n
          \<and> om_get id (dir_name (ew_prefix w) pn h) (ew_parts w) = Some m \<and> n < m)"

definition writer_inv :: "('st \<Rightarrow> string \<Rightarrow> 'b option) \<Rightarrow> ('st \<Rightarrow> bool) \<Rightarrow> nat \<Rightarrow> ('st, 'w) event_writer \<Rightarrow> bool" where
  "writer_inv objects ok B w \<longleftrightarrow> ok (ew_store w) \<and> om_sorted id (ew_open w)
     \<and> (\<forall>pn f. om_get id pn (ew_open w) = Some f \<longrightarrow> open_file_ok objects w pn f)
     \<and> (\<forall>dir m. om_get id dir (ew_parts w) = Some m \<longrightarrow> m \<le> B \<and> (\<exists>d. dir = d @ ''/'')
          \<and> (\<forall>n. m \<le> n \<longrightarrow> n \<le> u64_max \<longrightarrow> objects (ew_store w) (dir @ file_name n) = None))
     \<and> (\<forall>k n. objects (ew_store w) k \<noteq> None \<longrightarrow> part_number k = Some n \<longrightarrow> n < B)"

lemma writer_inv_mono: "writer_inv objects ok B w \<Longrightarrow> B \<le> B' \<Longrightarrow> writer_inv objects ok B' w"
  unfolding writer_inv_def by (meson le_trans less_le_trans)

lemma open_file_ok_frame:
  "objects (ew_store w') = objects (ew_store w) \<Longrightarrow> ew_prefix w' = ew_prefix w \<Longrightarrow> ew_parts w' = ew_parts w \<Longrightarrow>
     of_key g = of_key f \<Longrightarrow> open_file_ok objects w pn f \<Longrightarrow> open_file_ok objects w' pn g"
  by (simp add: open_file_ok_def)

text \<open>Steps that touch neither the store nor the parts.\<close>

lemma writer_inv_frame:
  assumes "writer_inv objects ok B w" and "ew_store w' = ew_store w" "ew_prefix w' = ew_prefix w"
    "ew_parts w' = ew_parts w" "ew_open w' = ew_open w"
  shows "writer_inv objects ok B w'"
  using assms unfolding writer_inv_def by (auto intro: open_file_ok_frame [of objects w' w])

lemma writer_inv_same_key:
  assumes inv: "writer_inv objects ok B w" and "om_get id pn (ew_open w) = Some f" and "of_key g = of_key f"
  shows "writer_inv objects ok B (w\<lparr> ew_open := om_insert id pn g (ew_open w) \<rparr>)"
proof -
  have "open_file_ok objects (w\<lparr> ew_open := om_insert id pn g (ew_open w) \<rparr>) pn' f'"
    if "om_get id pn' (om_insert id pn g (ew_open w)) = Some f'" for pn' f'
  proof (cases "pn' = pn")
    case True
    then have "f' = g" using that om_get_insert [of id pn' pn g "ew_open w"] by simp
    moreover have "open_file_ok objects w pn f" using inv assms(2) by (simp add: writer_inv_def)
    ultimately show ?thesis using True assms(3) by (simp add: open_file_ok_def)
  next
    case False
    then have "om_get id pn' (ew_open w) = Some f'" using that om_get_insert [of id pn' pn g "ew_open w"] by simp
    then have "open_file_ok objects w pn' f'" using inv by (simp add: writer_inv_def)
    then show ?thesis by (simp add: open_file_ok_def)
  qed
  then show ?thesis using inv unfolding writer_inv_def by (simp add: om_sorted_insert)
qed

context object_store
begin

text \<open>One put of an open file: nothing in the store is replaced, and the rest of the writer stands.\<close>

lemma writer_inv_put:
  assumes inv: "writer_inv objects ok B w" and f: "om_get id pn (ew_open w) = Some f"
    and good: "good (of_key f)" and B: "B \<le> u64_max"
    and w': "ew_store w' = snd (so_put S (of_key f) b (ew_store w))" "ew_prefix w' = ew_prefix w"
      "ew_parts w' = ew_parts w" "ew_open w' = om_remove id pn (ew_open w)"
  shows "writer_inv objects ok B w' \<and> objects (ew_store w) \<subseteq>\<^sub>m objects (ew_store w')"
proof
  have ok: "ok (ew_store w)" and sorted: "om_sorted id (ew_open w)" and fok: "open_file_ok objects w pn f"
    using inv f by (auto simp: writer_inv_def)
  from fok obtain h n m where key: "of_key f = dir_name (ew_prefix w) pn h @ file_name n"
    and m: "om_get id (dir_name (ew_prefix w) pn h) (ew_parts w) = Some m" "n < m"
    and absent: "objects (ew_store w) (of_key f) = None" and plain: "plain_name pn"
    by (auto simp: open_file_ok_def)
  have mB: "m \<le> B" using inv m by (simp add: writer_inv_def)
  show "objects (ew_store w) \<subseteq>\<^sub>m objects (ew_store w')"
    unfolding w'(1) by (rule put_extends [OF ok good absent])
  have other: "objects (ew_store w') k = objects (ew_store w) k" if "k \<noteq> of_key f" for k
    unfolding w'(1) by (rule put_other [OF ok good that])
  have "ok (ew_store w')" unfolding w'(1) by (rule ok_put [OF ok good])
  moreover have "om_sorted id (ew_open w')" unfolding w'(4) using sorted by (rule om_sorted_remove)
  moreover have "open_file_ok objects w' pn' f'" if "om_get id pn' (ew_open w') = Some f'" for pn' f'
  proof -
    have get: "om_get id pn' (om_remove id pn (ew_open w)) = (if pn' = pn then None else om_get id pn' (ew_open w))"
      by (rule om_get_remove [OF sorted])
    then have ne: "pn' \<noteq> pn" and "om_get id pn' (ew_open w) = Some f'" using that by (auto simp: w'(4) split: if_splits)
    then have f'ok: "open_file_ok objects w pn' f'" using inv by (simp add: writer_inv_def)
    then obtain h' n' where "of_key f' = dir_name (ew_prefix w) pn' h' @ file_name n'" "plain_name pn'"
      by (auto simp: open_file_ok_def)
    then have "of_key f' \<noteq> of_key f" using ne key plain dir_name_inj by metis
    then show ?thesis using f'ok other w'(2,3) by (simp add: open_file_ok_def)
  qed
  moreover have "m' \<le> B \<and> (\<exists>d. dir = d @ ''/'')
      \<and> (\<forall>n'. m' \<le> n' \<longrightarrow> n' \<le> u64_max \<longrightarrow> objects (ew_store w') (dir @ file_name n') = None)"
    if "om_get id dir (ew_parts w') = Some m'" for dir m'
  proof (intro conjI allI impI)
    have parts: "om_get id dir (ew_parts w) = Some m'" using that by (simp add: w'(3))
    then show "m' \<le> B" and slash: "\<exists>d. dir = d @ ''/''" using inv by (simp_all add: writer_inv_def)
    fix n' assume n': "m' \<le> n'" "n' \<le> u64_max"
    then have none: "objects (ew_store w) (dir @ file_name n') = None" using inv parts by (simp add: writer_inv_def)
    have "dir @ file_name n' \<noteq> of_key f"
    proof
      assume eq: "dir @ file_name n' = of_key f"
      obtain d where d: "dir = d @ ''/''" using slash by blast
      obtain d' where d': "dir_name (ew_prefix w) pn h = d' @ ''/''" using dir_name_slash by blast
      have "d @ CHR ''/'' # file_name n' = d' @ CHR ''/'' # file_name n"
        using eq unfolding key d d' by simp
      from file_key_inj [OF this] d d' have "dir = dir_name (ew_prefix w) pn h" "n' = n" by auto
      then show False using m n' parts by simp
    qed
    then show "objects (ew_store w') (dir @ file_name n') = None" using none other by simp
  qed
  moreover have "n' < B" if "objects (ew_store w') k \<noteq> None" "part_number k = Some n'" for k n'
  proof (cases "k = of_key f")
    case True
    obtain d' where d': "dir_name (ew_prefix w) pn h = d' @ ''/''" using dir_name_slash by blast
    have "part_number k = Some n"
      using part_number_file [of n d'] m(2) mB B unfolding True key d' by simp
    then show ?thesis using that(2) m(2) mB by simp
  next
    case False
    then show ?thesis using that inv other by (simp add: writer_inv_def)
  qed
  ultimately show "writer_inv objects ok B w'" unfolding writer_inv_def by blast
qed

lemma roll_inv:
  assumes inv: "writer_inv objects ok B w" and B: "B \<le> u64_max"
    and good: "\<And>pn h n. plain_name pn \<Longrightarrow> good (dir_name (ew_prefix w) pn h @ file_name n)"
  shows "writer_inv objects ok B (snd (roll S P pn w))
    \<and> objects (ew_store w) \<subseteq>\<^sub>m objects (ew_store (snd (roll S P pn w)))
    \<and> ew_prefix (snd (roll S P pn w)) = ew_prefix w"
proof (cases "om_get id pn (ew_open w)")
  case None
  then show ?thesis using inv by (simp add: roll_absent map_le_def)
next
  case (Some f)
  have "open_file_ok objects w pn f" using inv Some by (simp add: writer_inv_def)
  then obtain h n where "plain_name pn" "of_key f = dir_name (ew_prefix w) pn h @ file_name n"
    by (auto simp: open_file_ok_def)
  then have key_good: "good (of_key f)" using good by simp
  obtain c st where roll: "snd (roll S P pn w) = w\<lparr> ew_open := om_remove id pn (ew_open w), ew_counters := c, ew_store := st \<rparr>"
    and st: "st = ew_store w \<or> (\<exists>b. st = snd (so_put S (of_key f) b (ew_store w)))"
    using roll_effect [OF Some, of S P] by blast
  from st show ?thesis
  proof
    assume same: "st = ew_store w"
    have sorted: "om_sorted id (ew_open w)" using inv by (simp add: writer_inv_def)
    have "om_get id pn' (om_remove id pn (ew_open w)) = Some f' \<Longrightarrow> om_get id pn' (ew_open w) = Some f'" for pn' f'
      using om_get_remove [OF sorted, of pn' pn] by (auto split: if_splits)
    then have "writer_inv objects ok B (snd (roll S P pn w))"
      using inv sorted unfolding writer_inv_def roll same by (auto simp: open_file_ok_def om_sorted_remove)
    then show ?thesis by (simp add: roll same map_le_def)
  next
    assume "\<exists>b. st = snd (so_put S (of_key f) b (ew_store w))"
    then obtain b where "st = snd (so_put S (of_key f) b (ew_store w))" by blast
    then show ?thesis
      using writer_inv_put [OF inv Some key_good B, of "snd (roll S P pn w)" b] by (simp add: roll)
  qed
qed

text \<open>The part chosen for a directory is free, and so are all after it.\<close>

lemma choose_part_free:
  assumes inv: "writer_inv objects ok B w" and B: "B \<le> u64_max" and slash: "dir = d @ ''/''"
    and choose: "choose_part S dir w = (res, w')"
  shows "ok (ew_store w') \<and> objects (ew_store w') = objects (ew_store w) \<and> w' = w\<lparr> ew_store := ew_store w' \<rparr>
    \<and> (case res of Inl _ \<Rightarrow> True | Inr part \<Rightarrow> part \<le> B
        \<and> (\<forall>n. part \<le> n \<longrightarrow> n \<le> u64_max \<longrightarrow> objects (ew_store w) (dir @ file_name n) = None))"
proof (cases "om_get id dir (ew_parts w)")
  case (Some m)
  then show ?thesis using inv choose by (auto simp: choose_part_def writer_inv_def)
next
  case None
  have okw: "ok (ew_store w)" using inv by (simp add: writer_inv_def)
  obtain r st where list: "so_list S dir (ew_store w) = (r, st)" by (cases "so_list S dir (ew_store w)")
  have st: "ok st" "objects st = objects (ew_store w)" using list_same [OF okw, of dir] list by simp_all
  show ?thesis
  proof (cases r)
    case (Inl e)
    then show ?thesis using choose None list st by (auto simp: choose_part_def)
  next
    case (Inr existing)
    have mem: "set existing = {k. objects (ew_store w) k \<noteq> None \<and> take (length dir) k = dir}"
      using list_ok [OF okw] list Inr by blast
    have small: "\<forall>k \<in> set existing. \<forall>n. part_number k = Some n \<longrightarrow> n < B"
      using inv mem by (auto simp: writer_inv_def)
    have "objects (ew_store w) (dir @ file_name n) = None" if n: "next_part existing \<le> n" "n \<le> u64_max" for n
    proof (rule ccontr)
      assume "objects (ew_store w) (dir @ file_name n) \<noteq> None"
      then have "dir @ file_name n \<in> set existing" using mem by simp
      moreover have "part_number (dir @ file_name n) = Some n"
        using part_number_file [OF n(2), of d] by (simp add: slash)
      ultimately have "n < next_part existing" using next_part_after [OF _ _ small B] by blast
      then show False using n(1) by simp
    qed
    then show ?thesis
      using choose None list st Inr next_part_bound [OF small] by (auto simp: choose_part_def)
  qed
qed

lemma ensure_open_inv:
  assumes inv: "writer_inv objects ok B w" and B: "B < u64_max" and plain: "plain_name pn"
  shows "writer_inv objects ok (Suc B) (snd (ensure_open S P ev pn w))
    \<and> objects (ew_store (snd (ensure_open S P ev pn w))) = objects (ew_store w)
    \<and> ew_prefix (snd (ensure_open S P ev pn w)) = ew_prefix w"
proof (cases "om_get id pn (ew_open w)")
  case (Some f)
  then show ?thesis using writer_inv_mono [OF inv, of "Suc B"] by (simp add: ensure_open_def)
next
  case None
  let ?t = "wall_t (ev_ingest_ts ev)"
  let ?dir = "dir_name (ew_prefix w) pn (epoch_hour ?t)"
  obtain d where d: "?dir = d @ ''/''" using dir_name_slash by blast
  show ?thesis
  proof (cases "pq_new P")
    case (Inl e)
    then show ?thesis using None writer_inv_mono [OF inv, of "Suc B"] by (simp add: ensure_open_def start_file_def)
  next
    case (Inr arrow)
    obtain res w1 where choose: "choose_part S ?dir w = (res, w1)" by (cases "choose_part S ?dir w")
    have "B \<le> u64_max" using B by simp
    note cp = choose_part_free [OF inv this d choose]
    then have w1: "ok (ew_store w1)" "objects (ew_store w1) = objects (ew_store w)" "w1 = w\<lparr> ew_store := ew_store w1 \<rparr>"
      by (blast, blast, blast)
    from cp have part: "\<And>part. res = Inr part \<Longrightarrow> part \<le> B
        \<and> (\<forall>n. part \<le> n \<longrightarrow> n \<le> u64_max \<longrightarrow> objects (ew_store w) (?dir @ file_name n) = None)"
      by simp
    have frame: "ew_prefix w1 = ew_prefix w" "ew_parts w1 = ew_parts w" "ew_open w1 = ew_open w"
      by (subst w1(3), simp)+
    show ?thesis
    proof (cases res)
      case (Inl e)
      have "writer_inv objects ok B w1"
        using inv w1(1) unfolding writer_inv_def open_file_ok_def frame w1(2) by simp
      then have "writer_inv objects ok (Suc B) w1" by (rule writer_inv_mono) simp
      then show ?thesis using None Inr choose Inl w1(2) frame
        by (simp add: ensure_open_def start_file_def Let_def dir_for_name)
    next
      case r: (Inr n)
      define f where "f = \<lparr> of_window = window_of w ?t, of_opened_at = ev_ingest_ts ev,
         of_key = ?dir @ file_name n, of_arrow = arrow, of_rows = [], of_rows_total = 0 \<rparr>"
      define w2 where "w2 = w1\<lparr> ew_parts := om_insert id ?dir (Suc n) (ew_parts w1), ew_open := om_insert id pn f (ew_open w1) \<rparr>"
      have n: "n \<le> B" and free: "\<And>n'. n \<le> n' \<Longrightarrow> n' \<le> u64_max \<Longrightarrow> objects (ew_store w) (?dir @ file_name n') = None"
        using part [OF r] by auto
      have "(n + 1) mod 2 ^ 64 = Suc n" using n B by (simp add: u64_max_def)
      then have result: "snd (ensure_open S P ev pn w) = count_open w2"
        using None Inr choose r
        by (simp add: ensure_open_def start_file_def Let_def dir_for_name f_def w2_def file_name_def)
      have get_parts: "om_get id dir (ew_parts w2) = (if dir = ?dir then Some (Suc n) else om_get id dir (ew_parts w))" for dir
        using om_get_insert [of id dir ?dir "Suc n" "ew_parts w"] by (simp add: w2_def frame)
      have get_open: "om_get id pn' (ew_open w2) = (if pn' = pn then Some f else om_get id pn' (ew_open w))" for pn'
        using om_get_insert [of id pn' pn f "ew_open w"] by (simp add: w2_def frame)
      have w2: "ew_store w2 = ew_store w1" "ew_prefix w2 = ew_prefix w" by (simp_all add: w2_def frame)
      have files: "open_file_ok objects w2 pn' f'" if "om_get id pn' (ew_open w2) = Some f'" for pn' f'
      proof (cases "pn' = pn")
        case True
        then have f': "f' = f" using that get_open by simp
        have "objects (ew_store w2) (of_key f) = None"
          using free [of n] n B w1(2) by (simp add: f_def w2)
        moreover have "of_key f = dir_name (ew_prefix w2) pn (epoch_hour ?t) @ file_name n" by (simp add: f_def w2)
        moreover have "om_get id (dir_name (ew_prefix w2) pn (epoch_hour ?t)) (ew_parts w2) = Some (Suc n)"
          by (simp add: get_parts w2)
        ultimately show ?thesis using True plain unfolding open_file_ok_def f' by blast
      next
        case False
        then have "open_file_ok objects w pn' f'" using that get_open inv by (simp add: writer_inv_def)
        then obtain h n' m where o: "plain_name pn'" "objects (ew_store w) (of_key f') = None"
          "of_key f' = dir_name (ew_prefix w) pn' h @ file_name n'"
          "om_get id (dir_name (ew_prefix w) pn' h) (ew_parts w) = Some m" "n' < m"
          by (auto simp: open_file_ok_def)
        have "\<exists>m. om_get id (dir_name (ew_prefix w) pn' h) (ew_parts w2) = Some m \<and> n' < m"
        proof (cases "dir_name (ew_prefix w) pn' h = ?dir")
          case True
          have "m \<le> n"
          proof (rule ccontr)
            assume "\<not> m \<le> n"
            have "choose_part S ?dir w = (Inr m, w)" using o(4) True by (simp add: choose_part_def)
            then show False using choose r \<open>\<not> m \<le> n\<close> by simp
          qed
          then show ?thesis using True o(5) by (simp add: get_parts)
        next
          case False
          then show ?thesis using o(4,5) by (simp add: get_parts)
        qed
        then show ?thesis using o(1,2,3) w1(2) unfolding open_file_ok_def w2 by auto
      qed
      have parts: "m \<le> Suc B \<and> (\<exists>d. dir = d @ ''/'')
          \<and> (\<forall>n'. m \<le> n' \<longrightarrow> n' \<le> u64_max \<longrightarrow> objects (ew_store w2) (dir @ file_name n') = None)"
        if "om_get id dir (ew_parts w2) = Some m" for dir m
      proof (cases "dir = ?dir")
        case True
        then have "m = Suc n" using that get_parts by simp
        then show ?thesis using True n d free w1(2) by (auto simp: w2)
      next
        case False
        then have "om_get id dir (ew_parts w) = Some m" using that get_parts by simp
        then have "m \<le> B \<and> (\<exists>d. dir = d @ ''/'')
            \<and> (\<forall>n'. m \<le> n' \<longrightarrow> n' \<le> u64_max \<longrightarrow> objects (ew_store w) (dir @ file_name n') = None)"
          using inv by (simp add: writer_inv_def)
        then show ?thesis using w1(2) by (simp add: w2)
      qed
      have "om_sorted id (ew_open w2)"
        using inv unfolding w2_def by (simp add: writer_inv_def frame om_sorted_insert)
      moreover have "\<forall>k n. objects (ew_store w2) k \<noteq> None \<longrightarrow> part_number k = Some n \<longrightarrow> n < Suc B"
        using inv w1(2) by (auto simp: writer_inv_def w2 less_Suc_eq)
      ultimately have "writer_inv objects ok (Suc B) w2"
        using w1(1) files parts unfolding writer_inv_def w2 by blast
      then have "writer_inv objects ok (Suc B) (count_open w2)"
        by (rule writer_inv_frame) (simp_all add: count_open_def)
      then show ?thesis unfolding result using w1(2) by (simp add: count_open_def w2)
    qed
  qed
qed

lemma append_rows_inv:
  assumes "writer_inv objects ok B w"
  shows "writer_inv objects ok B (snd (append_rows P pn rs w))
    \<and> objects (ew_store (snd (append_rows P pn rs w))) = objects (ew_store w)
    \<and> ew_prefix (snd (append_rows P pn rs w)) = ew_prefix w"
proof -
  from append_rows_effect [of P pn rs w] obtain m where w': "snd (append_rows P pn rs w) = w\<lparr> ew_open := m \<rparr>"
    and m: "m = ew_open w
     \<or> (\<exists>f g. om_get id pn (ew_open w) = Some f \<and> of_key g = of_key f \<and> m = om_insert id pn g (ew_open w))"
    by blast
  from m have "writer_inv objects ok B (w\<lparr> ew_open := m \<rparr>)"
  proof
    assume "m = ew_open w"
    then show ?thesis using assms by simp
  next
    assume "\<exists>f g. om_get id pn (ew_open w) = Some f \<and> of_key g = of_key f \<and> m = om_insert id pn g (ew_open w)"
    then show ?thesis using writer_inv_same_key [OF assms] by blast
  qed
  then show ?thesis by (simp add: w')
qed

text \<open>The states an append passes through.\<close>

lemma append_event_states:
  "\<exists>b w1 w2. (w1 = w\<lparr> ew_base := b \<rparr> \<or> w1 = snd (roll S P (partition_name (ev_symbol ev)) (w\<lparr> ew_base := b \<rparr>)))
     \<and> w2 = snd (ensure_open S P ev (partition_name (ev_symbol ev)) w1)
     \<and> (snd (append_event D S P ev w) = w1 \<or> snd (append_event D S P ev w) = w2
        \<or> (\<exists>rs. snd (append_event D S P ev w)
             = snd (append_rows P (partition_name (ev_symbol ev)) rs (w2\<lparr> ew_event_seq := ew_event_seq w2 + 1 \<rparr>))))"
proof -
  let ?pn = "partition_name (ev_symbol ev)"
  let ?base = "case ew_base w of Some b \<Rightarrow> b | None \<Rightarrow> ev_ingest_ts ev"
  let ?w0 = "w\<lparr> ew_base := Some ?base \<rparr>"
  let ?first = "if rotates ev ?pn ?w0 then roll S P ?pn ?w0 else (Inr (), ?w0)"
  obtain r1 w1 where first: "?first = (r1, w1)" by (cases ?first)
  then have w1: "w1 = ?w0 \<or> w1 = snd (roll S P ?pn ?w0)" by (auto split: if_splits)
  obtain r2 w2 where second: "ensure_open S P ev ?pn w1 = (r2, w2)" by (cases "ensure_open S P ev ?pn w1")
  have "snd (append_event D S P ev w) = (case r1 of Inl _ \<Rightarrow> w1 | Inr _ \<Rightarrow> (case r2 of Inl _ \<Rightarrow> w2
      | Inr _ \<Rightarrow> snd (append_rows P ?pn (flatten D ev (ew_event_seq w2 + 1) ?base) (w2\<lparr> ew_event_seq := ew_event_seq w2 + 1 \<rparr>))))"
    unfolding append_event_def Let_def first by (simp add: second split: sum.split)
  then have "snd (append_event D S P ev w) = w1 \<or> snd (append_event D S P ev w) = w2
      \<or> (\<exists>rs. snd (append_event D S P ev w) = snd (append_rows P ?pn rs (w2\<lparr> ew_event_seq := ew_event_seq w2 + 1 \<rparr>)))"
    by (auto split: sum.splits)
  then show ?thesis using w1 second by (intro exI [of _ "Some ?base"] exI [of _ w1] exI [of _ w2]) simp
qed

lemma writer_inv_with:
  "writer_inv objects ok B w \<Longrightarrow> writer_inv objects ok B (w\<lparr> ew_base := b \<rparr>)
     \<and> writer_inv objects ok B (w\<lparr> ew_event_seq := n \<rparr>) \<and> writer_inv objects ok B (w\<lparr> ew_counters := c \<rparr>)"
  by (intro conjI; rule writer_inv_frame) simp_all

lemma write_event_inv:
  assumes inv: "writer_inv objects ok B w" and B: "B < u64_max"
    and good: "\<And>pn h n. plain_name pn \<Longrightarrow> good (dir_name (ew_prefix w) pn h @ file_name n)"
  shows "writer_inv objects ok (Suc B) (write_event D S P w ev)
    \<and> objects (ew_store w) \<subseteq>\<^sub>m objects (ew_store (write_event D S P w ev))
    \<and> ew_prefix (write_event D S P w ev) = ew_prefix w"
proof -
  let ?pn = "partition_name (ev_symbol ev)" and ?w' = "snd (append_event D S P ev w)"
  from append_event_states [where w = w and P = P and ev = ev and D = D] obtain b w1 w2 where
    w1: "w1 = w\<lparr> ew_base := b \<rparr> \<or> w1 = snd (roll S P ?pn (w\<lparr> ew_base := b \<rparr>))"
    and w2: "w2 = snd (ensure_open S P ev ?pn w1)"
    and w': "?w' = w1 \<or> ?w' = w2
        \<or> (\<exists>rs. ?w' = snd (append_rows P ?pn rs (w2\<lparr> ew_event_seq := ew_event_seq w2 + 1 \<rparr>)))"
    by blast
  have inv0: "writer_inv objects ok B (w\<lparr> ew_base := b \<rparr>)" using writer_inv_with [OF inv] by blast
  have good0: "\<And>pn h n. plain_name pn \<Longrightarrow> good (dir_name (ew_prefix (w\<lparr> ew_base := b \<rparr>)) pn h @ file_name n)"
    using good by simp
  have step1: "writer_inv objects ok B w1 \<and> objects (ew_store w) \<subseteq>\<^sub>m objects (ew_store w1) \<and> ew_prefix w1 = ew_prefix w"
    using w1
  proof
    assume "w1 = w\<lparr> ew_base := b \<rparr>"
    then show ?thesis using inv0 by (simp add: map_le_def)
  next
    assume "w1 = snd (roll S P ?pn (w\<lparr> ew_base := b \<rparr>))"
    moreover have "B \<le> u64_max" using B by simp
    ultimately show ?thesis using roll_inv [OF inv0 _ good0, where pn = ?pn and P = P] by simp
  qed
  have step2: "writer_inv objects ok (Suc B) w2 \<and> objects (ew_store w2) = objects (ew_store w1) \<and> ew_prefix w2 = ew_prefix w1"
    using ensure_open_inv [OF conjunct1 [OF step1] B partition_name_plain, of P ev "ev_symbol ev"] unfolding w2 by blast
  have "writer_inv objects ok (Suc B) (w2\<lparr> ew_event_seq := ew_event_seq w2 + 1 \<rparr>)"
    using writer_inv_with step2 by blast
  note step3 = append_rows_inv [OF this, of P ?pn]
  have "writer_inv objects ok (Suc B) ?w' \<and> objects (ew_store w) \<subseteq>\<^sub>m objects (ew_store ?w') \<and> ew_prefix ?w' = ew_prefix w"
    using w'
  proof (elim disjE exE)
    assume "?w' = w1"
    then show ?thesis using step1 writer_inv_mono [of objects ok B w1 "Suc B"] by simp
  next
    assume "?w' = w2"
    then show ?thesis using step1 step2 by simp
  next
    fix rs assume "?w' = snd (append_rows P ?pn rs (w2\<lparr> ew_event_seq := ew_event_seq w2 + 1 \<rparr>))"
    then show ?thesis using step1 step2 step3 [of rs] by simp
  qed
  note kept = this
  have "\<exists>c. write_event D S P w ev = ?w'\<lparr> ew_counters := c \<rparr>"
  proof (cases "append_event D S P ev w")
    case (Pair r v)
    show ?thesis
    proof (cases r)
      case (Inl e)
      then show ?thesis using Pair by (auto simp: write_event_def)
    next
      case (Inr u)
      then have "write_event D S P w ev = v\<lparr> ew_counters := ew_counters v \<rparr>" using Pair by (simp add: write_event_def)
      then show ?thesis using Pair by (metis snd_conv)
    qed
  qed
  then obtain c where c: "write_event D S P w ev = ?w'\<lparr> ew_counters := c \<rparr>" by blast
  have "writer_inv objects ok (Suc B) (?w'\<lparr> ew_counters := c \<rparr>)" using kept writer_inv_with by blast
  then show ?thesis using kept unfolding c by simp
qed

lemma write_events_inv:
  assumes "writer_inv objects ok B w" and "B + length events \<le> u64_max"
    and "\<And>pn h n. plain_name pn \<Longrightarrow> good (dir_name (ew_prefix w) pn h @ file_name n)"
  shows "writer_inv objects ok (B + length events) (foldl (write_event D S P) w events)
    \<and> objects (ew_store w) \<subseteq>\<^sub>m objects (ew_store (foldl (write_event D S P) w events))
    \<and> ew_prefix (foldl (write_event D S P) w events) = ew_prefix w"
  using assms
proof (induction events arbitrary: B w)
  case Nil
  then show ?case by (simp add: map_le_def)
next
  case (Cons ev events)
  have step: "writer_inv objects ok (Suc B) (write_event D S P w ev)
    \<and> objects (ew_store w) \<subseteq>\<^sub>m objects (ew_store (write_event D S P w ev))
    \<and> ew_prefix (write_event D S P w ev) = ew_prefix w"
    using Cons.prems by (intro write_event_inv) auto
  then have "writer_inv objects ok (Suc B + length events) (foldl (write_event D S P) (write_event D S P w ev) events)
    \<and> objects (ew_store (write_event D S P w ev)) \<subseteq>\<^sub>m objects (ew_store (foldl (write_event D S P) (write_event D S P w ev) events))
    \<and> ew_prefix (foldl (write_event D S P) (write_event D S P w ev) events) = ew_prefix (write_event D S P w ev)"
    using Cons.prems(2,3) by (intro Cons.IH) auto
  with step show ?case by (auto intro: map_le_trans)
qed

lemma close_each_inv:
  assumes "writer_inv objects ok B w" and "B \<le> u64_max"
    and "\<And>pn h n. plain_name pn \<Longrightarrow> good (dir_name (ew_prefix w) pn h @ file_name n)"
  shows "objects (ew_store w) \<subseteq>\<^sub>m objects (ew_store (snd (close_each S P pns e w)))"
  using assms
proof (induction pns arbitrary: e w)
  case Nil
  then show ?case by (simp add: map_le_def)
next
  case (Cons pn pns)
  obtain r w1 where roll: "roll S P pn w = (r, w1)" by (cases "roll S P pn w")
  then have w1: "writer_inv objects ok B w1" "objects (ew_store w) \<subseteq>\<^sub>m objects (ew_store w1)" "ew_prefix w1 = ew_prefix w"
    using roll_inv [OF Cons.prems, where pn = pn and P = P] by simp_all
  have "writer_inv objects ok B (w1\<lparr> ew_counters := c \<rparr>)" for c using writer_inv_with [OF w1(1)] by blast
  then have "objects (ew_store w1) \<subseteq>\<^sub>m objects (ew_store (snd (close_each S P (pn # pns) e w)))"
    using roll Cons.IH [of "w1\<lparr> ew_counters := record_failure (ew_counters w1) \<rparr>"] Cons.IH [of w1] Cons.prems w1
    by (cases r) auto
  with w1(2) show ?case by (rule map_le_trans)
qed

lemma close_writer_store: "ew_store (snd (close_writer S P w)) = ew_store (snd (close_each S P (map fst (ew_open w)) None w))"
  by (simp add: close_writer_def split: prod.split option.split)

lemma writer_new_inv:
  assumes "ok st" and "\<And>k n. objects st k \<noteq> None \<Longrightarrow> part_number k = Some n \<Longrightarrow> n < B"
  shows "writer_inv objects ok B (with_config (event_writer_new st prefix) config)"
  using assms by (auto simp: writer_inv_def with_config_def event_writer_new_def)

text \<open>A run only adds to the store.\<close>

lemma run_only_adds:
  assumes "ok st" and "\<And>k n. objects st k \<noteq> None \<Longrightarrow> part_number k = Some n \<Longrightarrow> n + length (xs @ ys) < u64_max"
    and good: "\<And>pn h n. plain_name pn \<Longrightarrow> good (dir_name (into_prefix prefix) pn h @ file_name n)"
    and small: "length (xs @ ys) < u64_max"
    and w_def: "w = with_config (event_writer_new st prefix) config"
  shows "objects st \<subseteq>\<^sub>m objects (ew_store (foldl (write_event D S P) w xs))
    \<and> objects (ew_store (foldl (write_event D S P) w xs)) \<subseteq>\<^sub>m objects (ew_store (run_writer D S P (xs @ ys) w))"
proof
  let ?B = "u64_max - length (xs @ ys)" and ?w1 = "foldl (write_event D S P) w xs"
  have "writer_inv objects ok ?B w"
    unfolding w_def using assms(1,2) by (intro writer_new_inv) force+
  moreover have good_w: "\<And>pn h n. plain_name pn \<Longrightarrow> good (dir_name (ew_prefix w) pn h @ file_name n)"
    using good by (simp add: w_def with_config_def event_writer_new_def)
  ultimately have w1: "writer_inv objects ok (?B + length xs) ?w1 \<and> objects (ew_store w) \<subseteq>\<^sub>m objects (ew_store ?w1)
      \<and> ew_prefix ?w1 = ew_prefix w"
    using small by (intro write_events_inv) auto
  then show "objects st \<subseteq>\<^sub>m objects (ew_store ?w1)" by (simp add: w_def with_config_def event_writer_new_def)
  let ?w2 = "foldl (write_event D S P) ?w1 ys"
  have w2: "writer_inv objects ok (?B + length xs + length ys) ?w2 \<and> objects (ew_store ?w1) \<subseteq>\<^sub>m objects (ew_store ?w2)
      \<and> ew_prefix ?w2 = ew_prefix ?w1"
    using w1 small good_w by (intro write_events_inv) auto
  have "objects (ew_store ?w2) \<subseteq>\<^sub>m objects (ew_store (snd (close_each S P (map fst (ew_open ?w2)) None ?w2)))"
    using w1 w2 small good_w by (intro close_each_inv [of "?B + length xs + length ys"]) auto
  then show "objects (ew_store ?w1) \<subseteq>\<^sub>m objects (ew_store (run_writer D S P (xs @ ys) w))"
    using w2 unfolding run_writer_def close_writer_store foldl_append by (auto intro: map_le_trans)
qed

end

section \<open>Properties\<close>


text \<open>A directory an earlier run wrote part 0 of hour 0 into; and a writer that encodes by keeping the batches.\<close>

definition sample_key :: string where
  "sample_key = dir_name ''events'' ''BTC'' 0 @ file_name 0"

definition sample_store :: "record_batch list local_store" where
  "sample_store = \<lparr> st_files = [(split_on (CHR ''/'') sample_key, [])], st_io = [] \<rparr>"

definition sample_parquet :: "(record_batch list, record_batch list) parquet_ops" where
  "sample_parquet = \<lparr> pq_new = Inr [], pq_write = (\<lambda>b bs. (Inr (), bs @ [b])), pq_into_inner = Inr, pq_size = length \<rparr>"

lemma sample_store_ok: "local_ok sample_store \<and> (\<forall>k n. local_objects sample_store k \<noteq> None \<and> part_number k = Some n \<longrightarrow> n = 0)"
proof -
  have events: "split_on (CHR ''/'') ''events'' = [''events'']" by simp
  have "good_key sample_key"
    unfolding sample_key_def
    by (rule good_file_key) (unfold events, simp_all add: normal_path_def normal_name_def plain_name_def)
  moreover have "part_number sample_key = Some 0"
  proof -
    obtain d where "dir_name ''events'' ''BTC'' 0 = d @ ''/''" using dir_name_slash by blast
    then show ?thesis using part_number_file [of 0 d] by (simp add: sample_key_def)
  qed
  moreover have only: "k = sample_key" if "local_objects sample_store k \<noteq> None" for k
    using that by (auto simp: local_objects_def sample_store_def split_inj split: if_splits)
  ultimately have "n = 0" if "local_objects sample_store k \<noteq> None" "part_number k = Some n" for k n
    using that only [OF that(1)] by simp
  moreover have "local_ok sample_store"
    using \<open>good_key sample_key\<close> by (simp add: local_ok_def sample_store_def good_key_def)
  ultimately show ?thesis by blast
qed


end
