(* ===== verification/Archive_Reader.thy ===== *)
theory Archive_Reader
  imports Archive_Rows
begin

text \<open>
  The reader of the archive (\<open>EventReader\<close> of \<open>ma-persist/src/reader.rs\<close>): the files below the
  prefixes are grouped by partition, each partition is read in key order, and the partitions are
  merged by wall clock. \<open>batches\<close> is the Parquet decoder, \<open>now\<close> the readings of the monotonic
  clock while a file is decoded.
\<close>

section \<open>Partitions\<close>

text \<open>The part of a text before the last occurrence of a pattern (\<open>rsplit_once\<close>).\<close>

fun rsplit_head :: "string \<Rightarrow> string \<Rightarrow> string option" where
  "rsplit_head pat [] = (if pat = [] then Some [] else None)"
| "rsplit_head pat (x # xs) =
     (case rsplit_head pat xs of
        Some h \<Rightarrow> Some (x # h)
      | None \<Rightarrow> if take (length pat) (x # xs) = pat then Some [] else None)"

definition partition_of :: "string \<Rightarrow> string" where
  "partition_of key =
     (case rsplit_head ''/date='' key of
        Some head \<Rightarrow> head
      | None \<Rightarrow> (case rsplit_head ''/'' key of Some head \<Rightarrow> head | None \<Rightarrow> ''''))"

definition ends_with :: "string \<Rightarrow> string \<Rightarrow> bool" where
  "ends_with p s \<longleftrightarrow> length p \<le> length s \<and> drop (length s - length p) s = p"

text \<open>\<open>by_partition.entry(partition).or_default().insert(key)\<close>.\<close>

definition insert_key :: "string \<Rightarrow> (string \<times> string list) list \<Rightarrow> (string \<times> string list) list" where
  "insert_key key m = (let p = partition_of key
     in om_insert id p (btree_set (key # (case om_get id p m of Some ks \<Rightarrow> ks | None \<Rightarrow> []))) m)"

fun list_prefixes ::
  "('st, 'b) store_ops \<Rightarrow> string list \<Rightarrow> (string \<times> string list) list \<Rightarrow> 'st
     \<Rightarrow> (read_error + (string \<times> string list) list) \<times> 'st" where
  "list_prefixes S [] m st = (Inr m, st)"
| "list_prefixes S (prefix # ps) m st =
     (case so_list S prefix st of
        (Inl e, st) \<Rightarrow> (Inl (StoreReadError e), st)
      | (Inr keys, st) \<Rightarrow>
          list_prefixes S ps (foldl (\<lambda>m key. if ends_with ''.parquet'' key then insert_key key m else m) m keys) st)"

section \<open>The reader\<close>

record 'd cursor =
  cu_keys :: "string list"
  cu_pending :: "'d stored_event list"

record ('st, 'd) event_reader =
  rd_store :: 'st
  rd_cursors :: "'d cursor list"

definition open_many :: "('st, 'b) store_ops \<Rightarrow> string list \<Rightarrow> 'st \<Rightarrow> read_error + ('st, 'd) event_reader" where
  "open_many S prefixes st =
     (case list_prefixes S prefixes [] st of
        (Inl e, _) \<Rightarrow> Inl e
      | (Inr by_partition, st) \<Rightarrow>
          Inr \<lparr> rd_store = st, rd_cursors = map (\<lambda>(_, keys). \<lparr> cu_keys = keys, cu_pending = [] \<rparr>) by_partition \<rparr>)"

definition open_one :: "('st, 'b) store_ops \<Rightarrow> string \<Rightarrow> 'st \<Rightarrow> read_error + ('st, 'd) event_reader" where
  "open_one S prefix st = open_many S [prefix] st"

text \<open>
  A cursor whose pending events have run out loads its next file, until one has events or none is
  left. A key is gone once it has been tried.
\<close>

fun load_keys ::
  "('d, 'z) decimal_ops_scheme \<Rightarrow> ('st, 'b) store_ops \<Rightarrow> ('b \<Rightarrow> read_error + (read_error + record_batch) list)
     \<Rightarrow> (string \<Rightarrow> nat \<Rightarrow> instant) \<Rightarrow> string list \<Rightarrow> 'd stored_event list \<Rightarrow> 'st
     \<Rightarrow> (read_error + unit) \<times> 'd cursor \<times> 'st" where
  "load_keys D S batches now [] pending st = (Inr (), \<lparr> cu_keys = [], cu_pending = pending \<rparr>, st)"
| "load_keys D S batches now (key # keys) pending st =
     (if pending \<noteq> [] then (Inr (), \<lparr> cu_keys = key # keys, cu_pending = pending \<rparr>, st)
      else case so_get S key st of
             (Inl e, st) \<Rightarrow> (Inl (StoreReadError e), \<lparr> cu_keys = keys, cu_pending = [] \<rparr>, st)
           | (Inr bytes, st) \<Rightarrow>
               (case decode_file D (now key) batches bytes of
                  Inl e \<Rightarrow> (Inl e, \<lparr> cu_keys = keys, cu_pending = [] \<rparr>, st)
                | Inr events \<Rightarrow> load_keys D S batches now keys events st))"

fun load_cursors ::
  "('d, 'z) decimal_ops_scheme \<Rightarrow> ('st, 'b) store_ops \<Rightarrow> ('b \<Rightarrow> read_error + (read_error + record_batch) list)
     \<Rightarrow> (string \<Rightarrow> nat \<Rightarrow> instant) \<Rightarrow> 'd cursor list \<Rightarrow> 'st \<Rightarrow> (read_error + unit) \<times> 'd cursor list \<times> 'st" where
  "load_cursors D S batches now [] st = (Inr (), [], st)"
| "load_cursors D S batches now (c # cs) st =
     (case load_keys D S batches now (cu_keys c) (cu_pending c) st of
        (Inl e, c, st) \<Rightarrow> (Inl e, c # cs, st)
      | (Inr _, c, st) \<Rightarrow>
          (case load_cursors D S batches now cs st of (r, cs, st) \<Rightarrow> (r, c # cs, st)))"

text \<open>The earliest wall clock among the heads; the first of equals.\<close>

definition head_wall :: "'d stored_event \<Rightarrow> system_time" where
  "head_wall e = wall_t (ev_ingest_ts (se_event e))"

fun earliest :: "('e \<Rightarrow> int) \<Rightarrow> nat \<Rightarrow> 'e list list \<Rightarrow> (int \<times> nat) option" where
  "earliest w i [] = None"
| "earliest w i (es # rest) =
     (case es of
        [] \<Rightarrow> earliest w (Suc i) rest
      | e # _ \<Rightarrow> (case earliest w (Suc i) rest of
                    None \<Rightarrow> Some (w e, i)
                  | Some (v, j) \<Rightarrow> if w e \<le> v then Some (w e, i) else Some (v, j)))"

definition next_event ::
  "('d, 'z) decimal_ops_scheme \<Rightarrow> ('st, 'b) store_ops \<Rightarrow> ('b \<Rightarrow> read_error + (read_error + record_batch) list)
     \<Rightarrow> (string \<Rightarrow> nat \<Rightarrow> instant) \<Rightarrow> ('st, 'd) event_reader
     \<Rightarrow> (read_error + 'd stored_event option) \<times> ('st, 'd) event_reader" where
  "next_event D S batches now r =
     (case load_cursors D S batches now (rd_cursors r) (rd_store r) of
        (Inl e, cs, st) \<Rightarrow> (Inl e, \<lparr> rd_store = st, rd_cursors = cs \<rparr>)
      | (Inr _, cs, st) \<Rightarrow>
          (case earliest head_wall 0 (map cu_pending cs) of
             None \<Rightarrow> (Inr None, \<lparr> rd_store = st, rd_cursors = cs \<rparr>)
           | Some (_, i) \<Rightarrow>
               (Inr (Some (hd (cu_pending (cs ! i)))),
                \<lparr> rd_store = st, rd_cursors = cs[i := (cs ! i)\<lparr> cu_pending := tl (cu_pending (cs ! i)) \<rparr>] \<rparr>)))"

section \<open>Reading everything\<close>

text \<open>What reading still has to do: the files not yet opened, then the events not yet handed out.\<close>

definition unread_keys :: "'d cursor list \<Rightarrow> nat" where
  "unread_keys cs = sum_list (map (\<lambda>c. length (cu_keys c)) cs)"

definition unread_events :: "'d cursor list \<Rightarrow> nat" where
  "unread_events cs = sum_list (map (\<lambda>c. length (cu_pending c)) cs)"

lemma load_keys_progress:
  assumes "load_keys D S batches now keys pending st = (r, c, st')"
  shows "length (cu_keys c) < length keys \<or> cu_keys c = keys \<and> cu_pending c = pending"
  using assms
proof (induction D S batches now keys pending st rule: load_keys.induct)
  case (2 D S batches now key keys pending st)
  show ?case
  proof (cases "pending = []")
    case True
    obtain g st1 where get: "so_get S key st = (g, st1)" by (cases "so_get S key st")
    show ?thesis
    proof (cases g)
      case (Inl e)
      with 2(2) True get show ?thesis by auto
    next
      case (Inr bytes)
      show ?thesis
      proof (cases "decode_file D (now key) batches bytes")
        case (Inl e)
        with 2(2) True get Inr show ?thesis by auto
      next
        case dec: (Inr events)
        with 2(2) True get Inr have "load_keys D S batches now keys events st1 = (r, c, st')" by simp
        from 2(1) [OF _ get [symmetric] Inr dec this] True show ?thesis by auto
      qed
    qed
  qed (use 2(2) in auto)
qed auto

lemma load_cursors_progress:
  assumes "load_cursors D S batches now cs st = (r, cs', st')"
  shows "length cs' = length cs \<and> (unread_keys cs' < unread_keys cs \<or> cs' = cs)"
  using assms
proof (induction cs arbitrary: r cs' st st')
  case (Cons c cs)
  obtain r1 c1 st1 where c1: "load_keys D S batches now (cu_keys c) (cu_pending c) st = (r1, c1, st1)"
    by (cases "load_keys D S batches now (cu_keys c) (cu_pending c) st") auto
  note head = load_keys_progress [OF c1]
  have same: "c1 = c" if "cu_keys c1 = cu_keys c \<and> cu_pending c1 = cu_pending c"
    using that by (cases c; cases c1) simp
  show ?case
  proof (cases r1)
    case (Inl e)
    with Cons.prems c1 have "cs' = c1 # cs" by simp
    with head same show ?thesis by (auto simp: unread_keys_def)
  next
    case (Inr u)
    obtain r2 cs2 st2 where cs2: "load_cursors D S batches now cs st1 = (r2, cs2, st2)"
      by (cases "load_cursors D S batches now cs st1") auto
    with Cons.prems c1 Inr have "cs' = c1 # cs2" by simp
    with head same Cons.IH [OF cs2] show ?thesis by (auto simp: unread_keys_def)
  qed
qed simp

lemma earliest_index: "earliest w i ls = Some (v, j) \<Longrightarrow> i \<le> j \<and> j < i + length ls \<and> ls ! (j - i) \<noteq> [] \<and> v = w (hd (ls ! (j - i)))"
proof (induction w i ls arbitrary: v j rule: earliest.induct)
  case (2 w i es rest)
  show ?case
  proof (cases es)
    case Nil
    then show ?thesis using 2(1) [OF Nil] 2(3) by (fastforce simp: nth_Cons' split: if_splits)
  next
    case (Cons e es')
    show ?thesis
    proof (cases "earliest w (Suc i) rest")
      case None
      with 2(3) Cons show ?thesis by simp
    next
      case (Some p)
      obtain v' j' where p: "p = (v', j')" by (cases p)
      show ?thesis using 2(2) [OF Cons, of v' j'] 2(3) Cons Some p
        by (fastforce simp: nth_Cons' split: if_splits)
    qed
  qed
qed simp

lemma next_event_progress:
  assumes "next_event D S batches now r = (Inr (Some e), r')"
  shows "unread_keys (rd_cursors r') < unread_keys (rd_cursors r)
    \<or> unread_keys (rd_cursors r') = unread_keys (rd_cursors r) \<and> unread_events (rd_cursors r') < unread_events (rd_cursors r)"
proof -
  obtain r1 cs st where load: "load_cursors D S batches now (rd_cursors r) (rd_store r) = (r1, cs, st)"
    by (cases "load_cursors D S batches now (rd_cursors r) (rd_store r)") auto
  with assms obtain v i where pick: "earliest head_wall 0 (map cu_pending cs) = Some (v, i)"
    and r': "rd_cursors r' = cs[i := (cs ! i)\<lparr> cu_pending := tl (cu_pending (cs ! i)) \<rparr>]"
    by (auto simp: next_event_def split: sum.splits option.splits)
  from earliest_index [OF pick] have i: "i < length cs" and ne: "cu_pending (cs ! i) \<noteq> []" by auto
  let ?c = "(cs ! i)\<lparr> cu_pending := tl (cu_pending (cs ! i)) \<rparr>"
  have cs: "cs = take i cs @ cs ! i # drop (Suc i) cs" using i by (rule id_take_nth_drop)
  have cs': "cs[i := ?c] = take i cs @ ?c # drop (Suc i) cs" using i by (rule upd_conv_take_nth_drop)
  have keys: "unread_keys (rd_cursors r') = unread_keys cs"
    unfolding r' cs' by (subst (2) cs) (simp add: unread_keys_def)
  have events: "unread_events (rd_cursors r') < unread_events cs"
    unfolding r' cs' by (subst (3) cs) (use ne in \<open>simp add: unread_events_def\<close>)
  show ?thesis using load_cursors_progress [OF load] keys events by auto
qed

function collect ::
  "('d, 'z) decimal_ops_scheme \<Rightarrow> ('st, 'b) store_ops \<Rightarrow> ('b \<Rightarrow> read_error + (read_error + record_batch) list)
     \<Rightarrow> (string \<Rightarrow> nat \<Rightarrow> instant) \<Rightarrow> ('st, 'd) event_reader \<Rightarrow> 'd stored_event list \<Rightarrow> read_error + 'd stored_event list" where
  "collect D S batches now r out =
     (case next_event D S batches now r of
        (Inl e, _) \<Rightarrow> Inl e
      | (Inr None, _) \<Rightarrow> Inr out
      | (Inr (Some e), r) \<Rightarrow> collect D S batches now r (out @ [e]))"
  by pat_completeness auto
termination
  by (relation "measures [\<lambda>(D, S, batches, now, r, out). unread_keys (rd_cursors r),
      \<lambda>(D, S, batches, now, r, out). unread_events (rd_cursors r)]")
    (auto dest!: next_event_progress [OF sym])

declare collect.simps [simp del]

end
