(* ===== verification/Archive_Reading.thy ===== *)
theory Archive_Reading
  imports Archive_Reader "HOL-Library.Multiset"
begin

text \<open>
  Reading the archive back: what the reader hands out is the merge of its partitions, each in the
  order of its keys.
\<close>

section \<open>The merge, as a function of the lists merged\<close>

text \<open>A sum over a list of which one element changes.\<close>

lemma sum_list_upd:
  fixes f :: "'a \<Rightarrow> 'b::comm_monoid_add"
  shows "i < length ls \<Longrightarrow> sum_list (map f (ls[i := x])) + f (ls ! i) = sum_list (map f ls) + f x"
proof (induction ls arbitrary: i)
  case (Cons l ls)
  then show ?case by (cases i) (simp_all add: ac_simps add.left_commute)
qed simp

function merge_by :: "('e \<Rightarrow> int) \<Rightarrow> 'e list list \<Rightarrow> 'e list" where
  "merge_by w ls = (case earliest w 0 ls of
      None \<Rightarrow> []
    | Some (_, i) \<Rightarrow> hd (ls ! i) # merge_by w (ls[i := tl (ls ! i)]))"
  by pat_completeness auto
termination
proof (relation "measure (\<lambda>(w, ls). sum_list (map length ls))", simp, clarsimp)
  fix w :: "'e \<Rightarrow> int" and ls :: "'e list list" and v i
  assume "earliest w 0 ls = Some (v, i)"
  from earliest_index [OF this] have i: "i < length ls" and ne: "ls ! i \<noteq> []" by auto
  have "sum_list (map length (ls[i := tl (ls ! i)])) + length (ls ! i) = sum_list (map length ls) + length (tl (ls ! i))"
    using i by (rule sum_list_upd)
  moreover have "length (tl (ls ! i)) < length (ls ! i)" using ne by simp
  ultimately show "sum_list (map length (ls[i := tl (ls ! i)])) < sum_list (map length ls)" by linarith
qed

declare merge_by.simps [simp del]

lemma earliest_None: "earliest w i ls = None \<longleftrightarrow> (\<forall>l \<in> set ls. l = [])"
proof (induction w i ls rule: earliest.induct)
  case (2 w i es rest)
  show ?case by (cases es) (auto simp: 2(1) split: option.splits)
qed simp

lemma merge_by_None: "\<forall>l \<in> set ls. l = [] \<Longrightarrow> merge_by w ls = []"
  by (subst merge_by.simps) (simp add: iffD2 [OF earliest_None])

lemma merge_by_Some:
  "earliest w 0 ls = Some (v, i) \<Longrightarrow> merge_by w ls = hd (ls ! i) # merge_by w (ls[i := tl (ls ! i)])"
  by (subst merge_by.simps) simp

text \<open>The head that is taken is an earliest head.\<close>

lemma earliest_least: "earliest w i ls = Some (v, j) \<Longrightarrow> l \<in> set ls \<Longrightarrow> l \<noteq> [] \<Longrightarrow> v \<le> w (hd l)"
proof (induction w i ls arbitrary: v j rule: earliest.induct)
  case (2 w i es rest)
  show ?case
  proof (cases es)
    case Nil
    then show ?thesis using 2(1) [OF Nil] 2(3-5) by auto
  next
    case (Cons e es')
    show ?thesis
    proof (cases "earliest w (Suc i) rest")
      case None
      then have "\<forall>l \<in> set rest. l = []" by (simp add: earliest_None)
      with None Cons 2(3-5) show ?thesis by auto
    next
      case (Some p)
      obtain v' j' where p: "p = (v', j')" by (cases p)
      show ?thesis using 2(2) [OF Cons, of v' j'] 2(3-5) Cons Some p
        by (fastforce split: if_splits)
    qed
  qed
qed simp

text \<open>Only the heads matter for the choice.\<close>

lemma earliest_heads:
  "list_all2 (\<lambda>l l'. (l = [] \<longleftrightarrow> l' = []) \<and> (l \<noteq> [] \<longrightarrow> hd l = hd l')) ls ls' \<Longrightarrow> earliest w i ls = earliest w i ls'"
proof (induction ls ls' arbitrary: i rule: list_all2_induct)
  case (Cons l ls l' ls')
  then show ?case by (cases l; cases l') (auto split: option.splits)
qed simp

text \<open>A list that alone holds the elements of a kind gives them in its own order.\<close>

lemma merge_by_filter:
  assumes "i < length ls" and "\<forall>j < length ls. j \<noteq> i \<longrightarrow> filter P (ls ! j) = []"
  shows "filter P (merge_by w ls) = filter P (ls ! i)"
  using assms
proof (induction w ls rule: merge_by.induct)
  case (1 w ls)
  show ?case
  proof (cases "earliest w 0 ls")
    case None
    then have "\<forall>l \<in> set ls. l = []" by (simp add: earliest_None)
    then have "ls ! i = []" using nth_mem [OF 1(2)] by blast
    with \<open>\<forall>l \<in> set ls. l = []\<close> show ?thesis by (simp add: merge_by_None)
  next
    case (Some p)
    obtain v j where p: "p = (v, j)" by (cases p)
    from earliest_index [OF Some [unfolded p]] have j: "j < length ls" "ls ! j \<noteq> []" by auto
    let ?ls = "ls[j := tl (ls ! j)]"
    obtain e es where e: "ls ! j = e # es" using j(2) by (cases "ls ! j") auto
    have rest: "filter P (?ls ! k) = []" if "k < length ?ls" "k \<noteq> i" for k
      using 1(3) that e by (cases "k = j") (auto split: if_splits)
    have "filter P (merge_by w ?ls) = filter P (?ls ! i)"
      using 1(1) [OF Some p [symmetric]] 1(2) rest by simp
    moreover have "\<not> P e" if "j \<noteq> i" using 1(3) j(1) that e by (auto split: if_splits)
    ultimately show ?thesis
      using j(1) e by (cases "j = i") (auto simp: merge_by_Some [OF Some [unfolded p]])
  qed
qed

text \<open>Nothing is lost and nothing repeated.\<close>

lemma merge_by_mset: "mset (merge_by w ls) = sum_list (map mset ls)"
proof (induction w ls rule: merge_by.induct)
  case (1 w ls)
  show ?case
  proof (cases "earliest w 0 ls")
    case None
    then have "\<forall>l \<in> set ls. l = []" by (simp add: earliest_None)
    then have "sum_list (map mset ls) = {#}" by (induction ls) auto
    with \<open>\<forall>l \<in> set ls. l = []\<close> show ?thesis by (simp add: merge_by_None)
  next
    case (Some p)
    obtain v i where p: "p = (v, i)" by (cases p)
    from earliest_index [OF Some [unfolded p]] have i: "i < length ls" and ne: "ls ! i \<noteq> []" by auto
    have "mset (ls ! i) = add_mset (hd (ls ! i)) (mset (tl (ls ! i)))" using ne by (metis hd_Cons_tl mset.simps(2))
    moreover have "mset (merge_by w ls) = add_mset (hd (ls ! i)) (sum_list (map mset (ls[i := tl (ls ! i)])))"
      using 1 [OF Some p [symmetric]] by (simp add: merge_by_Some [OF Some [unfolded p]])
    moreover have "sum_list (map mset (ls[i := tl (ls ! i)])) + mset (ls ! i) = sum_list (map mset ls) + mset (tl (ls ! i))"
      using i by (rule sum_list_upd)
    ultimately show ?thesis by simp
  qed
qed

section \<open>The cursors merge\<close>

text \<open>
  \<open>F\<close> gives the events of a file and \<open>R\<close> the states of the store in which every file of \<open>K\<close>
  can be read.
\<close>

definition readable ::
  "('d, 'z) decimal_ops_scheme \<Rightarrow> ('st, 'b) store_ops \<Rightarrow> ('b \<Rightarrow> read_error + (read_error + record_batch) list)
     \<Rightarrow> (string \<Rightarrow> nat \<Rightarrow> instant) \<Rightarrow> string set \<Rightarrow> (string \<Rightarrow> 'd stored_event list) \<Rightarrow> ('st \<Rightarrow> bool) \<Rightarrow> bool" where
  "readable D S batches now K F R \<longleftrightarrow> (\<forall>st key. R st \<longrightarrow> key \<in> K \<longrightarrow>
     (\<exists>bytes st'. so_get S key st = (Inr bytes, st') \<and> R st' \<and> decode_file D (now key) batches bytes = Inr (F key)))"

definition remaining :: "(string \<Rightarrow> 'd stored_event list) \<Rightarrow> 'd cursor \<Rightarrow> 'd stored_event list" where
  "remaining F c = cu_pending c @ concat (map F (cu_keys c))"

lemma load_keys_readable:
  assumes "readable D S batches now K F R"
  shows "R st \<Longrightarrow> set keys \<subseteq> K \<Longrightarrow> \<exists>c st'. load_keys D S batches now keys pending st = (Inr (), c, st') \<and> R st'
     \<and> set (cu_keys c) \<subseteq> K \<and> remaining F c = pending @ concat (map F keys) \<and> (cu_pending c = [] \<longrightarrow> remaining F c = [])"
proof (induction keys arbitrary: pending st)
  case Nil
  then show ?case by (simp add: remaining_def)
next
  case (Cons key keys)
  show ?case
  proof (cases "pending = []")
    case True
    obtain bytes st1 where get: "so_get S key st = (Inr bytes, st1)" and R: "R st1"
        and dec: "decode_file D (now key) batches bytes = Inr (F key)"
      using assms Cons.prems unfolding readable_def by (metis list.set_intros(1) subsetD)
    from Cons.IH [OF R, of "F key"] Cons.prems True get dec show ?thesis by auto
  next
    case False
    then show ?thesis using Cons.prems by (auto simp: remaining_def)
  qed
qed

lemma load_cursors_readable:
  assumes "readable D S batches now K F R"
  shows "R st \<Longrightarrow> \<forall>c \<in> set cs. set (cu_keys c) \<subseteq> K \<Longrightarrow> \<exists>cs' st'. load_cursors D S batches now cs st = (Inr (), cs', st')
     \<and> R st' \<and> (\<forall>c \<in> set cs'. set (cu_keys c) \<subseteq> K) \<and> map (remaining F) cs' = map (remaining F) cs
     \<and> (\<forall>c \<in> set cs'. cu_pending c = [] \<longrightarrow> remaining F c = [])"
proof (induction cs arbitrary: st)
  case Nil
  then show ?case by simp
next
  case (Cons c cs)
  then have "set (cu_keys c) \<subseteq> K" by simp
  from load_keys_readable [OF assms Cons.prems(1) this, of "cu_pending c"]
  obtain c1 st1 where c1: "load_keys D S batches now (cu_keys c) (cu_pending c) st = (Inr (), c1, st1)" "R st1"
     "set (cu_keys c1) \<subseteq> K" "remaining F c1 = remaining F c" "cu_pending c1 = [] \<longrightarrow> remaining F c1 = []"
    by (auto simp: remaining_def)
  have "\<forall>c \<in> set cs. set (cu_keys c) \<subseteq> K" using Cons.prems(2) by simp
  from Cons.IH [OF c1(2) this] c1 show ?case by auto
qed

lemma collect_merges:
  assumes "readable D S batches now K F R"
  shows "R (rd_store r) \<Longrightarrow> \<forall>c \<in> set (rd_cursors r). set (cu_keys c) \<subseteq> K \<Longrightarrow>
     collect D S batches now r out = Inr (out @ merge_by head_wall (map (remaining F) (rd_cursors r)))"
  using assms
proof (induction D S batches now r out rule: collect.induct)
  case (1 D S batches now r out)
  from load_cursors_readable [OF 1(4) 1(2,3)] obtain cs st where
    load: "load_cursors D S batches now (rd_cursors r) (rd_store r) = (Inr (), cs, st)" and R: "R st"
    and K: "\<forall>c \<in> set cs. set (cu_keys c) \<subseteq> K" and rem: "map (remaining F) cs = map (remaining F) (rd_cursors r)"
    and heads: "\<forall>c \<in> set cs. cu_pending c = [] \<longrightarrow> remaining F c = []"
    by blast
  have same: "earliest head_wall 0 (map cu_pending cs) = earliest head_wall 0 (map (remaining F) cs)"
    using heads by (intro earliest_heads) (auto simp: list_all2_conv_all_nth remaining_def)
  show ?case
  proof (cases "earliest head_wall 0 (map cu_pending cs)")
    case None
    then have "next_event D S batches now r = (Inr None, \<lparr> rd_store = st, rd_cursors = cs \<rparr>)"
      by (simp add: next_event_def load)
    moreover have "merge_by head_wall (map (remaining F) cs) = []"
      using None unfolding same earliest_None by (rule merge_by_None)
    ultimately show ?thesis by (subst collect.simps) (simp flip: rem)
  next
    case (Some p)
    obtain v i where p: "p = (v, i)" by (cases p)
    let ?c = "(cs ! i)\<lparr> cu_pending := tl (cu_pending (cs ! i)) \<rparr>"
    let ?e = "hd (cu_pending (cs ! i))" and ?r = "\<lparr> rd_store = st, rd_cursors = cs[i := ?c] \<rparr>"
    have nxt: "next_event D S batches now r = (Inr (Some ?e), ?r)"
      using Some by (simp add: next_event_def load p)
    from earliest_index [OF Some [unfolded p]] have i: "i < length cs" and ne: "cu_pending (cs ! i) \<noteq> []" by auto
    have KR: "\<forall>c \<in> set (cs[i := ?c]). set (cu_keys c) \<subseteq> K"
    proof
      fix c assume "c \<in> set (cs[i := ?c])"
      then have "c = ?c \<or> c \<in> set cs" using set_update_subset_insert [of cs i ?c] by blast
      moreover have "set (cu_keys (cs ! i)) \<subseteq> K" using K nth_mem [OF i] by blast
      ultimately show "set (cu_keys c) \<subseteq> K" using K by (elim disjE) simp_all
    qed
    have "remaining F ?c = tl (remaining F (cs ! i))" "?e = hd (remaining F (cs ! i))"
      using ne by (simp_all add: remaining_def)
    then have "merge_by head_wall (map (remaining F) cs) = ?e # merge_by head_wall (map (remaining F) (cs[i := ?c]))"
      using i merge_by_Some [OF Some [unfolded p same]] by (simp add: map_update)
    moreover have "collect D S batches now ?r (out @ [?e])
        = Inr ((out @ [?e]) @ merge_by head_wall (map (remaining F) (cs[i := ?c])))"
      using 1(1) [OF nxt [symmetric] refl refl] R KR 1(4) by simp
    ultimately show ?thesis by (subst collect.simps) (simp add: nxt flip: rem)
  qed
qed

section \<open>The files, by partition\<close>

lemma sorted_list_unique: "sorted_wrt (<) xs \<Longrightarrow> set xs = A \<Longrightarrow> sorted_list_of_set A = (xs :: 'a::linorder list)"
  by (metis sorted_list_of_set.idem_if_sorted_distinct strict_sorted_iff)

definition partition_keys :: "string set \<Rightarrow> string \<Rightarrow> string list" where
  "partition_keys A p = sorted_list_of_set {k \<in> A. partition_of k = p}"

definition partition_map :: "string set \<Rightarrow> (string \<times> string list) list \<Rightarrow> bool" where
  "partition_map A m \<longleftrightarrow> finite A \<and> om_sorted id m
     \<and> (\<forall>p. om_get id p m = (if p \<in> partition_of ` A then Some (partition_keys A p) else None))"

lemma partition_map_Nil: "partition_map {} []"
  by (simp add: partition_map_def)

lemma insert_key_map:
  assumes "partition_map A m"
  shows "partition_map (insert key A) (insert_key key m)"
proof -
  let ?p = "partition_of key" and ?A = "insert key A"
  let ?old = "case om_get id ?p m of Some ks \<Rightarrow> ks | None \<Rightarrow> []"
  have fin: "finite A" and sorted: "om_sorted id m"
    and get: "\<And>p. om_get id p m = (if p \<in> partition_of ` A then Some (partition_keys A p) else None)"
    using assms by (simp_all add: partition_map_def)
  have old: "set ?old = {k \<in> A. partition_of k = ?p}"
  proof (cases "?p \<in> partition_of ` A")
    case True
    then show ?thesis using fin by (simp add: get partition_keys_def)
  next
    case False
    then have "{k \<in> A. partition_of k = ?p} = {}" by (auto simp: image_iff)
    with False show ?thesis by (simp add: get)
  qed
  have new: "btree_set (key # ?old) = partition_keys ?A ?p"
    unfolding partition_keys_def
    by (rule sorted_list_unique [OF sorted_btree_set, symmetric]) (use old in auto)
  have other: "partition_keys ?A p = partition_keys A p" if "p \<noteq> ?p" for p
  proof -
    have "{k \<in> ?A. partition_of k = p} = {k \<in> A. partition_of k = p}" using that by auto
    then show ?thesis by (simp add: partition_keys_def)
  qed
  have ins: "insert_key key m = om_insert id ?p (partition_keys ?A ?p) m"
    unfolding insert_key_def Let_def new ..
  have "om_get id p (insert_key key m) = (if p \<in> partition_of ` ?A then Some (partition_keys ?A p) else None)" for p
    using om_get_insert [of id p ?p "partition_keys ?A ?p" m] other [of p] get [of p] unfolding ins by simp
  moreover have "om_sorted id (insert_key key m)"
    unfolding insert_key_def Let_def using sorted by (rule om_sorted_insert)
  ultimately show ?thesis using fin by (simp add: partition_map_def)
qed

lemma insert_keys_map:
  "partition_map A m \<Longrightarrow> partition_map (A \<union> {k \<in> set keys. P k}) (foldl (\<lambda>m key. if P key then insert_key key m else m) m keys)"
proof (induction keys arbitrary: A m)
  case (Cons key keys)
  show ?case
  proof (cases "P key")
    case True
    have "A \<union> {k \<in> set (key # keys). P k} = insert key A \<union> {k \<in> set keys. P k}" using True by auto
    then show ?thesis using Cons.IH [OF insert_key_map [OF Cons.prems, of key]] True by simp
  next
    case False
    have "A \<union> {k \<in> set (key # keys). P k} = A \<union> {k \<in> set keys. P k}" using False by auto
    then show ?thesis using Cons.IH [OF Cons.prems] False by simp
  qed
qed simp

lemma partition_map_lists:
  assumes "partition_map A m"
  shows "map snd m = map (partition_keys A) (sorted_list_of_set (partition_of ` A))"
proof -
  have sorted: "om_sorted id m"
    and get: "\<And>p. om_get id p m = (if p \<in> partition_of ` A then Some (partition_keys A p) else None)"
    using assms by (simp_all add: partition_map_def)
  have strict: "sorted_wrt (<) (map fst m)" using sorted by (simp add: om_sorted_def)
  have "p \<in> set (map fst m) \<longleftrightarrow> p \<in> partition_of ` A" for p
    using om_get_None [of id p m] get [of p] by (simp split: if_splits)
  then have "set (map fst m) = partition_of ` A" by (rule set_eqI)
  with strict have fst: "sorted_list_of_set (partition_of ` A) = map fst m" by (rule sorted_list_unique)
  have "snd x = partition_keys A (fst x)" if "x \<in> set m" for x
  proof -
    obtain p v where x: "x = (p, v)" by (cases x)
    have "om_get id p m = Some v" using om_get_in [OF sorted, of p v] that by (simp add: x)
    then show ?thesis using get [of p] by (simp add: x split: if_splits)
  qed
  then show ?thesis unfolding fst by simp
qed

context object_store
begin

definition archive_keys :: "string list \<Rightarrow> 'st \<Rightarrow> string set" where
  "archive_keys prefixes st = {k. objects st k \<noteq> None \<and> ends_with ''.parquet'' k
     \<and> (\<exists>p \<in> set prefixes. take (length p) k = p)}"

lemma list_prefixes_map:
  "ok st \<Longrightarrow> partition_map A m \<Longrightarrow> list_prefixes S prefixes m st = (Inr m', st') \<Longrightarrow>
     ok st' \<and> objects st' = objects st \<and> partition_map (A \<union> archive_keys prefixes st) m'"
proof (induction prefixes arbitrary: A m st)
  case Nil
  then show ?case by (simp add: archive_keys_def)
next
  case (Cons p ps)
  obtain r st1 where list: "so_list S p st = (r, st1)" by (cases "so_list S p st")
  obtain keys where keys: "r = Inr keys" using Cons.prems(3) list by (cases r) auto
  have st1: "ok st1" "objects st1 = objects st" using list_same [OF Cons.prems(1), of p] list by simp_all
  have mem: "set keys = {k. objects st k \<noteq> None \<and> take (length p) k = p}"
    using list_ok [OF Cons.prems(1)] list keys by blast
  let ?A = "A \<union> {k \<in> set keys. ends_with ''.parquet'' k}"
  have "?A \<union> archive_keys ps st1 = A \<union> archive_keys (p # ps) st"
    unfolding archive_keys_def st1 mem by auto
  moreover have "ok st' \<and> objects st' = objects st1 \<and> partition_map (?A \<union> archive_keys ps st1) m'"
    using Cons.prems(3) list keys by (intro Cons.IH [OF st1(1) insert_keys_map [OF Cons.prems(2)]]) simp
  ultimately show ?case using st1 by simp
qed

text \<open>The cursors of a reader just opened: one for each partition, holding its keys in order.\<close>

lemma open_many_cursors:
  assumes "ok st" and "open_many S prefixes st = Inr r"
  shows "ok (rd_store r) \<and> objects (rd_store r) = objects st
    \<and> rd_cursors r = map (\<lambda>p. \<lparr> cu_keys = partition_keys (archive_keys prefixes st) p, cu_pending = [] \<rparr>)
        (sorted_list_of_set (partition_of ` archive_keys prefixes st))"
proof -
  from assms(2) obtain m st' where list: "list_prefixes S prefixes [] st = (Inr m, st')"
    and r: "r = \<lparr> rd_store = st', rd_cursors = map (\<lambda>(_, keys). \<lparr> cu_keys = keys, cu_pending = [] \<rparr>) m \<rparr>"
    by (auto simp: open_many_def split: prod.splits sum.splits)
  from list_prefixes_map [OF assms(1) partition_map_Nil list]
  have st': "ok st'" "objects st' = objects st" and m: "partition_map (archive_keys prefixes st) m" by simp_all
  have "rd_cursors r = map (\<lambda>keys. \<lparr> cu_keys = keys, cu_pending = [] \<rparr>) (map snd m)"
    by (simp add: r split_beta)
  then show ?thesis unfolding partition_map_lists [OF m] by (simp add: st' r)
qed

end

section \<open>Properties\<close>

text \<open>The files of a local directory that are parts of the archive below some prefixes.\<close>

definition local_archive :: "string list \<Rightarrow> 'b local_store \<Rightarrow> string set" where
  "local_archive prefixes st = {k. local_objects st k \<noteq> None \<and> ends_with ''.parquet'' k
     \<and> (\<exists>p \<in> set prefixes. take (length p) k = p)}"

lemma local_list_prefixes:
  "st_io st = [] \<Longrightarrow> \<exists>m'. list_prefixes local_ops prefixes m st = (Inr m', st)"
  by (induction prefixes arbitrary: m) (simp_all add: local_ops_def local_list_def next_io_def)

lemma local_readable:
  assumes "local_ok st" and "st_io st = []"
    and "\<forall>k \<in> local_archive prefixes st. decode_file D (now k) batches (the (local_objects st k)) = Inr (F k)"
  shows "readable D local_ops batches now (local_archive prefixes st) F (\<lambda>st'. st' = st)"
proof -
  have "\<exists>bytes. local_get k st = (Inr bytes, st) \<and> decode_file D (now k) batches bytes = Inr (F k)"
    if k: "k \<in> local_archive prefixes st" for k
  proof -
    obtain bytes where b: "local_objects st k = Some bytes" using k by (auto simp: local_archive_def)
    then have good: "good_key k" and get: "om_get id (split_on (CHR ''/'') k) (st_files st) = Some bytes"
      by (auto simp: local_objects_def split: if_splits)
    have "local_get k st = (Inr bytes, st)"
      using get assms(2) by (simp add: local_get_def resolve_good [OF good] next_io_def)
    then show ?thesis using assms(3) k b by auto
  qed
  then show ?thesis by (simp add: readable_def local_ops_def)
qed

lemma finite_local_archive: "local_ok st \<Longrightarrow> finite (local_archive prefixes st)"
proof -
  assume ok: "local_ok st"
  have "{k. local_objects st k \<noteq> None} = set (walk [] st)" using walk_keys [OF ok, of "[]"] by simp
  then have "finite {k. local_objects st k \<noteq> None}" by simp
  then show ?thesis by (rule finite_subset [rotated]) (auto simp: local_archive_def)
qed

lemma local_reading:
  fixes st :: "'b local_store" and F :: "string \<Rightarrow> 'd stored_event list"
  assumes "local_ok st" and "st_io st = []"
    and "\<forall>k \<in> local_archive prefixes st. decode_file D (now k) batches (the (local_objects st k)) = Inr (F k)"
  shows "and_then (open_many local_ops prefixes st) (\<lambda>r. collect D local_ops batches now r []) =
    Inr (merge_by head_wall (map (\<lambda>p. concat (map F (partition_keys (local_archive prefixes st) p)))
       (sorted_list_of_set (partition_of ` local_archive prefixes st))))"
proof -
  obtain m where "list_prefixes local_ops prefixes [] st = (Inr m, st)" using local_list_prefixes [OF assms(2)] by blast
  then obtain r :: "('b local_store, 'd) event_reader" where r: "open_many local_ops prefixes st = Inr r" "rd_store r = st"
    by (simp add: open_many_def)
  have keys: "local.archive_keys prefixes st = local_archive prefixes st"
    by (simp add: local.archive_keys_def local_archive_def)
  have cursors: "rd_cursors r = map (\<lambda>p. \<lparr> cu_keys = partition_keys (local_archive prefixes st) p, cu_pending = [] \<rparr>)
        (sorted_list_of_set (partition_of ` local_archive prefixes st))"
    using local.open_many_cursors [OF assms(1) r(1)] unfolding keys by blast
  have fin: "finite (local_archive prefixes st)" using assms(1) by (rule finite_local_archive)
  have "\<forall>c \<in> set (rd_cursors r). set (cu_keys c) \<subseteq> local_archive prefixes st"
    using fin by (auto simp: cursors partition_keys_def)
  from collect_merges [OF local_readable [OF assms], OF r(2) this, of "[]"]
  show ?thesis by (simp add: r(1) cursors comp_def remaining_def)
qed

text \<open>The events of a partition, counted and filtered.\<close>

lemma mset_keys: "finite B \<Longrightarrow> mset (concat (map F (sorted_list_of_set B))) = (\<Sum>k \<in> B. mset (F k))"
proof -
  assume fin: "finite B"
  have "mset (concat (map F ks)) = sum_list (map (\<lambda>k. mset (F k)) ks)" for ks
    by (induction ks) simp_all
  then show ?thesis using fin by (simp add: sum_list_distinct_conv_sum_set)
qed

lemma mset_partitions:
  assumes "finite A"
  shows "sum_list (map mset (map (\<lambda>p. concat (map F (partition_keys A p))) (sorted_list_of_set (partition_of ` A))))
    = (\<Sum>k \<in> A. mset (F k))"
proof -
  have "sum_list (map mset (map (\<lambda>p. concat (map F (partition_keys A p))) (sorted_list_of_set (partition_of ` A))))
      = (\<Sum>p \<in> partition_of ` A. \<Sum>k \<in> {k \<in> A. partition_of k = p}. mset (F k))"
    using assms by (simp add: comp_def partition_keys_def mset_keys sum_list_distinct_conv_sum_set)
  also have "\<dots> = (\<Sum>k \<in> A. mset (F k))"
    using assms by (intro sum.group) auto
  finally show ?thesis .
qed

lemma filter_other_keys:
  "finite A \<Longrightarrow> \<forall>k \<in> A. partition_of k \<noteq> p \<longrightarrow> filter P (F k) = [] \<Longrightarrow> q \<noteq> p \<Longrightarrow>
     filter P (concat (map F (partition_keys A q))) = []"
  by (auto simp: partition_keys_def filter_concat)

lemma merge_by_partition:
  assumes fin: "finite A" and only: "\<forall>k \<in> A. partition_of k \<noteq> p \<longrightarrow> filter P (F k) = []"
  shows "filter P (merge_by w (map (\<lambda>p. concat (map F (partition_keys A p))) (sorted_list_of_set (partition_of ` A))))
    = filter P (concat (map F (partition_keys A p)))"
proof -
  let ?ps = "sorted_list_of_set (partition_of ` A)"
  let ?ls = "map (\<lambda>p. concat (map F (partition_keys A p))) ?ps"
  show ?thesis
  proof (cases "p \<in> partition_of ` A")
    case True
    then obtain i where i: "i < length ?ps" "?ps ! i = p" using fin by (metis finite_imageI in_set_conv_nth set_sorted_list_of_set)
    have "filter P (?ls ! j) = []" if "j < length ?ls" "j \<noteq> i" for j
    proof -
      have "?ps ! j \<noteq> p" using that i by (auto simp: nth_eq_iff_index_eq)
      then show ?thesis using filter_other_keys [OF fin only] that by simp
    qed
    then show ?thesis using merge_by_filter [of i ?ls P w] i by simp
  next
    case False
    then have "\<forall>k \<in> A. filter P (F k) = []" using only by auto
    moreover have "set (merge_by w ?ls) = (\<Union>k \<in> A. set (F k))"
    proof -
      have "set_mset (mset (merge_by w ?ls)) = set_mset (\<Sum>k \<in> A. mset (F k))"
        by (simp only: merge_by_mset mset_partitions [OF fin])
      then show ?thesis using fin by (simp add: set_mset_sum)
    qed
    moreover have "partition_keys A p = []" using False fin by (auto simp: partition_keys_def image_iff)
    ultimately show ?thesis by (auto simp: filter_empty_conv)
  qed
qed

text \<open>
  C40. What reading an archive gives back, from a directory that can be read: the merge of its
  partitions. Every event of every file below the prefixes comes exactly once, prefixes that
  overlap included; and the events of a stream that lives in one partition come in the order of
  that partition's keys, and of the rows in each.
\<close>

theorem reading_merges_partitions:
  assumes "local_ok st" and "st_io st = []"
    and "\<forall>k \<in> local_archive prefixes st. decode_file D (now k) batches (the (local_objects st k)) = Inr (F k)"
  shows "\<exists>out. and_then (open_many local_ops prefixes st) (\<lambda>r. collect D local_ops batches now r []) = Inr out
    \<and> mset out = (\<Sum>k \<in> local_archive prefixes st. mset (F k))
    \<and> (\<forall>s p. (\<forall>k \<in> local_archive prefixes st. partition_of k \<noteq> p \<longrightarrow> filter (\<lambda>e. se_stream e = s) (F k) = []) \<longrightarrow>
         filter (\<lambda>e. se_stream e = s) out
           = filter (\<lambda>e. se_stream e = s) (concat (map F (partition_keys (local_archive prefixes st) p))))"
proof (intro exI conjI allI impI)
  let ?A = "local_archive prefixes st"
  let ?out = "merge_by head_wall (map (\<lambda>p. concat (map F (partition_keys ?A p))) (sorted_list_of_set (partition_of ` ?A)))"
  have fin: "finite ?A" using assms(1) by (rule finite_local_archive)
  show "and_then (open_many local_ops prefixes st) (\<lambda>r. collect D local_ops batches now r []) = Inr ?out"
    using assms by (rule local_reading)
  show "mset ?out = (\<Sum>k \<in> ?A. mset (F k))"
    unfolding merge_by_mset by (rule mset_partitions [OF fin])
  fix s p
  assume "\<forall>k \<in> ?A. partition_of k \<noteq> p \<longrightarrow> filter (\<lambda>e. se_stream e = s) (F k) = []"
  then show "filter (\<lambda>e. se_stream e = s) ?out = filter (\<lambda>e. se_stream e = s) (concat (map F (partition_keys ?A p)))"
    by (rule merge_by_partition [OF fin])
qed

text \<open>A directory with one file, which holds the rows of two events.\<close>

definition one_file_store :: "record_batch list local_store" where
  "one_file_store = \<lparr> st_files = [([''a.parquet''], [to_batch sample_rows])], st_io = [] \<rparr>"

lemma one_file_objects: "local_objects one_file_store k = Some bytes \<Longrightarrow> bytes = [to_batch sample_rows]"
  by (simp add: local_objects_def one_file_store_def split: if_splits)

lemma reading_merges_partitions_witness:
  "\<exists>out. and_then (open_many local_ops [''''] one_file_store)
      (\<lambda>r. collect nat_decimals local_ops (\<lambda>bs. Inr (map Inr bs)) (\<lambda>_ k. k) r []) = Inr out
    \<and> mset out = (\<Sum>k \<in> local_archive [''''] one_file_store.
        mset (map2 (stored_form (\<lambda>k. k) sample_base) [0..<length sample_events] (map snd sample_events)))"
proof -
  let ?F = "\<lambda>_ :: string. map2 (stored_form (\<lambda>k. k) sample_base) [0..<length sample_events] (map snd sample_events)"
  have ok: "local_ok one_file_store"
    by (simp add: local_ok_def one_file_store_def normal_path_def normal_name_def)
  have io: "st_io one_file_store = []" by (simp add: one_file_store_def)
  have dec: "\<forall>k \<in> local_archive [''''] one_file_store.
      decode_file nat_decimals ((\<lambda>_ k. k) k) (\<lambda>bs. Inr (map Inr bs)) (the (local_objects one_file_store k)) = Inr (?F k)"
  proof
    fix k assume "k \<in> local_archive [''''] one_file_store"
    then obtain bytes where k: "local_objects one_file_store k = Some bytes" by (auto simp: local_archive_def)
    have "decode_file nat_decimals (\<lambda>k. k) (\<lambda>bs. Inr (map Inr bs)) [to_batch sample_rows] = Inr (?F k)"
    proof (rule decode_file_rows)
      show "\<forall>(seq, ev) \<in> set sample_events. storable nat_decimals sample_base ev"
        by (simp add: sample_events_def storable_def sample_event_def sample_base_def i64_max_def since_def)
      show "distinct_adj (map fst sample_events)" by (simp add: sample_events_def)
      show "concat [sample_rows] = concat (map (\<lambda>(seq, ev). flatten nat_decimals ev seq sample_base) sample_events)"
        by (simp add: sample_rows_def)
    qed simp_all
    then show "decode_file nat_decimals ((\<lambda>_ k. k) k) (\<lambda>bs. Inr (map Inr bs)) (the (local_objects one_file_store k)) = Inr (?F k)"
      by (simp add: k one_file_objects [OF k])
  qed
  from reading_merges_partitions [OF ok io dec] show ?thesis by (elim exE conjE) (intro exI conjI; assumption?)
qed

end
