(* ===== verification/Archive_Round_Trip.thy ===== *)
theory Archive_Round_Trip
  imports Archive_Writing Archive_Reading
begin

text \<open>
  The archive end to end: a run of the writer over a fresh local directory in which nothing fails,
  and the reader over what it left.
\<close>

section \<open>Positions of files\<close>

text \<open>A file of a partition is named by its hour and its part.\<close>

definition pos_key :: "string \<Rightarrow> string \<Rightarrow> nat \<times> nat \<Rightarrow> string" where
  "pos_key prefix pn pos = dir_name prefix pn (fst pos) @ file_name (snd pos)"

definition pos_less :: "nat \<times> nat \<Rightarrow> nat \<times> nat \<Rightarrow> bool" where
  "pos_less p q \<longleftrightarrow> fst p < fst q \<or> fst p = fst q \<and> snd p < snd q"

lemma append_less_same: "s @ u < s @ v \<longleftrightarrow> u < (v :: 'a::linorder list)"
  by (induction s) auto

text \<open>Later files have greater keys, until the year 10000 and up to 100000 parts an hour.\<close>

lemma pos_key_less:
  assumes "pos_less p q" and "fst q < hour_limit" and "snd q < 100000"
  shows "pos_key prefix pn p < pos_key prefix pn q"
proof -
  have name: "file_name (snd p) < file_name (snd q)" if "snd p < snd q"
  proof -
    have "pad 5 (snd p) < pad 5 (snd q)" "length (pad 5 (snd p)) = length (pad 5 (snd q))"
      using that assms(3) by (simp_all add: pad_less length_pad)
    then show ?thesis by (simp add: file_name_def append_less_append)
  qed
  show ?thesis
  proof (cases "fst p < fst q")
    case True
    note h = hour_name_less [OF True assms(2)]
    have "hour_name (fst p) @ ''/'' @ file_name (snd p) < hour_name (fst q) @ ''/'' @ file_name (snd q)"
      using h by (subst append_less_append) auto
    then show ?thesis by (simp add: pos_key_def dir_name_def append_less_same)
  next
    case False
    then have "fst p = fst q" "snd p < snd q" using assms(1) by (auto simp: pos_less_def)
    then show ?thesis using name by (simp add: pos_key_def append_less_same)
  qed
qed

text \<open>The reader finds the partition of a file above its date.\<close>

lemma rsplit_head_skip:
  "CHR ''/'' \<notin> set p \<Longrightarrow> rsplit_head (CHR ''/'' # pat) s = None \<Longrightarrow> rsplit_head (CHR ''/'' # pat) (p @ s) = None"
  by (induction p) auto

lemma rsplit_head_prefix: "rsplit_head pat s = Some h \<Longrightarrow> rsplit_head pat (p @ s) = Some (p @ h)"
  by (induction p) auto

lemma partition_of_key:
  assumes "plain_name pn"
  shows "partition_of (pos_key prefix pn pos) = prefix @ ''/symbol='' @ pn"
proof -
  have name: "rsplit_head ''/date='' (file_name n) = None" for n
    using rsplit_head_skip [of "file_name n" "''date=''" "[]"] file_name_chars(1) [of n] by simp
  have slash: "rsplit_head ''/date='' (CHR ''/'' # file_name n) = None" for n
    using name [of n] by (simp add: file_name_def)
  have hour: "rsplit_head ''/date='' (pad 2 h @ CHR ''/'' # file_name n) = None" for h n
    using rsplit_head_skip [of "pad 2 h" "''date=''" "CHR ''/'' # file_name n"] slash [of n] by (simp add: pad_no_char)
  have rest: "rsplit_head ''/date='' (hour_name h @ CHR ''/'' # file_name n) = None" for h n
  proof -
    have "rsplit_head ''/date='' (''/hour='' @ pad 2 (h mod 24) @ CHR ''/'' # file_name n) = None"
      using hour [of "h mod 24" n] by simp
    then show ?thesis
      using rsplit_head_skip [OF hour_date_chars(1) [of h], of "''date=''" "''/hour='' @ pad 2 (h mod 24) @ CHR ''/'' # file_name n"]
      by (simp add: hour_name_split)
  qed
  have "rsplit_head ''/date='' (''/date='' @ hour_name (fst pos) @ CHR ''/'' # file_name (snd pos)) = Some []"
    using rest [of "fst pos" "snd pos"] by simp
  from rsplit_head_prefix [OF this, of "prefix @ ''/symbol='' @ pn"] show ?thesis
    by (simp add: partition_of_def pos_key_def dir_name_def)
qed

lemma ends_with_append: "ends_with t (u @ t)"
  by (simp add: ends_with_def)

lemma ends_with_parquet: "ends_with ''.parquet'' (pos_key prefix pn pos)"
    using ends_with_append [of "''.parquet''" "dir_name prefix pn (fst pos) @ ''part-'' @ pad 5 (snd pos)"]
  by (simp add: pos_key_def file_name_def)

section \<open>A directory in which nothing fails\<close>

definition flat_store :: "nat \<Rightarrow> 'b local_store \<Rightarrow> bool" where
  "flat_store n st \<longleftrightarrow> local_ok st \<and> st_io st = [] \<and> (\<forall>(path, _) \<in> set (st_files st). length path = n)"

lemma flat_put:
  assumes flat: "flat_store n st" and good: "good_key k" and len: "length (split_on (CHR ''/'') k) = n"
  shows "\<exists>st'. so_put local_ops k b st = (Inr (), st') \<and> flat_store n st'
    \<and> local_objects st' = (local_objects st)(k \<mapsto> b)"
proof -
  let ?path = "split_on (CHR ''/'') k"
  let ?st = "st\<lparr> st_files := om_insert id ?path b (om_remove id (staging_path ?path) (st_files st)) \<rparr>"
  have ok: "local_ok st" and io: "st_io st = []" and lens: "\<forall>(path, _) \<in> set (st_files st). length path = n"
    using flat by (simp_all add: flat_store_def)
  have "\<not> blocked ?path st"
    using lens len by (fastforce simp: blocked_def list_ex_iff)
  then have put: "local_put k b st = (Inr (), ?st)"
    using io by (simp add: local_put_def resolve_good [OF good] next_io_def Let_def)
  have "local_ok ?st \<and> local_objects ?st = (local_objects st)(k \<mapsto> b)"
    using local_put_effect [OF ok good put] by simp
  moreover have "\<forall>(path, _) \<in> set (st_files ?st). length path = n"
    using lens len set_om_insert [of id ?path b "om_remove id (staging_path ?path) (st_files st)"]
      set_om_remove [of id "staging_path ?path" "st_files st"] by fastforce
  ultimately show ?thesis using put io by (simp add: flat_store_def local_ops_def)
qed

lemma flat_list:
  "flat_store n st \<Longrightarrow> \<exists>ks. so_list local_ops p st = (Inr ks, st)"
  by (simp add: flat_store_def local_ops_def local_list_def next_io_def)

text \<open>
  Documented behaviour of the Parquet crate when nothing fails: \<open>rows_in\<close> are the rows a writer
  holds, and a finished file yields those rows in order, in some batches.
\<close>

definition holds_rows :: "('b \<Rightarrow> read_error + (read_error + record_batch) list) \<Rightarrow> 'b \<Rightarrow> row list \<Rightarrow> bool" where
  "holds_rows batches bytes rs \<longleftrightarrow>
     (\<exists>groups. batches bytes = Inr (map (\<lambda>g. Inr (to_batch g)) groups) \<and> concat groups = rs)"

definition parquet_law ::
  "('w, 'b) parquet_ops \<Rightarrow> ('b \<Rightarrow> read_error + (read_error + record_batch) list) \<Rightarrow> ('w \<Rightarrow> row list) \<Rightarrow> bool" where
  "parquet_law P batches rows_in \<longleftrightarrow>
     (\<exists>a. pq_new P = Inr a \<and> rows_in a = [])
     \<and> (\<forall>rs a. \<exists>a'. pq_write P (to_batch rs) a = (Inr (), a') \<and> rows_in a' = rows_in a @ rs)
     \<and> (\<forall>a. \<exists>bytes. pq_into_inner P a = Inr bytes \<and> holds_rows batches bytes (rows_in a))"

lemma flush_lossless:
  assumes "parquet_law P batches rows_in"
  shows "\<exists>a rs. flush_row_group P f = (Inr (), f\<lparr> of_arrow := a, of_rows := rs \<rparr>)
    \<and> rows_in a @ rs = rows_in (of_arrow f) @ of_rows f \<and> rs = []"
proof (cases "of_rows f = []")
  case True
  then have "flush_row_group P f = (Inr (), f\<lparr> of_arrow := of_arrow f, of_rows := [] \<rparr>)"
    by (cases f) (simp add: flush_row_group_def)
  then show ?thesis using True by (intro exI [of _ "of_arrow f"] exI [of _ "[]"] conjI) simp_all
next
  case False
  obtain a where "pq_write P (to_batch (of_rows f)) (of_arrow f) = (Inr (), a)" "rows_in a = rows_in (of_arrow f) @ of_rows f"
    using assms unfolding parquet_law_def by blast
  then show ?thesis using False by (intro exI [of _ a] exI [of _ "[]"]) (simp add: flush_row_group_def)
qed

section \<open>What a run without failures keeps\<close>

text \<open>The events of a partition, each with its number.\<close>

definition of_partition :: "string \<Rightarrow> (int \<times> 'd market_event) list \<Rightarrow> (int \<times> 'd market_event) list" where
  "of_partition pn xs = filter (\<lambda>x. partition_name (ev_symbol (snd x)) = pn) xs"

text \<open>
  A position in use: of an hour some event of the partition fell into, and below the next part of
  its directory.
\<close>

definition reached :: "string \<Rightarrow> string \<Rightarrow> 'd market_event list \<Rightarrow> ('st, 'w) event_writer \<Rightarrow> nat \<times> nat \<Rightarrow> bool" where
  "reached prefix pn seen w pos \<longleftrightarrow>
     (\<exists>ev \<in> set seen. partition_name (ev_symbol ev) = pn \<and> fst pos = epoch_hour (wall_t (ev_ingest_ts ev)))
     \<and> (\<exists>m. om_get id (dir_name prefix pn (fst pos)) (ew_parts w) = Some m \<and> snd pos < m \<and> m \<le> 100000)
     \<and> fst pos < hour_limit"

text \<open>
  One partition: its stored files hold their events, and the open file holds the rest, at a later
  position.
\<close>

definition partition_lossless ::
  "('d, 'z) decimal_ops_scheme \<Rightarrow> ('b \<Rightarrow> read_error + (read_error + record_batch) list) \<Rightarrow> ('w \<Rightarrow> row list)
     \<Rightarrow> ingest_time \<Rightarrow> (int \<times> 'd market_event) list \<Rightarrow> 'd market_event list
     \<Rightarrow> ((nat \<times> nat) \<times> (int \<times> 'd market_event) list) list \<Rightarrow> ('b local_store, 'w) event_writer \<Rightarrow> string \<Rightarrow> bool" where
  "partition_lossless D batches rows_in base done seen fs w pn \<longleftrightarrow>
     (\<forall>(pos, xs) \<in> set fs. \<exists>bytes. local_objects (ew_store w) (pos_key (ew_prefix w) pn pos) = Some bytes
        \<and> holds_rows batches bytes (file_rows D base xs))
     \<and> (case om_get id pn (ew_open w) of
          None \<Rightarrow> concat (map snd fs) = of_partition pn done \<and> sorted_wrt pos_less (map fst fs)
            \<and> (\<forall>p \<in> set (map fst fs). reached (ew_prefix w) pn seen w p)
        | Some f \<Rightarrow> (\<exists>pos xs. of_key f = pos_key (ew_prefix w) pn pos
            \<and> rows_in (of_arrow f) @ of_rows f = file_rows D base xs
            \<and> concat (map snd fs) @ xs = of_partition pn done
            \<and> sorted_wrt pos_less (map fst fs @ [pos])
            \<and> (\<forall>p \<in> set (map fst fs @ [pos]). reached (ew_prefix w) pn seen w p)))"

definition lossless ::
  "('d, 'z) decimal_ops_scheme \<Rightarrow> ('b \<Rightarrow> read_error + (read_error + record_batch) list) \<Rightarrow> ('w \<Rightarrow> row list)
     \<Rightarrow> ingest_time \<Rightarrow> (int \<times> 'd market_event) list \<Rightarrow> 'd market_event list
     \<Rightarrow> (string \<Rightarrow> ((nat \<times> nat) \<times> (int \<times> 'd market_event) list) list) \<Rightarrow> ('b local_store, 'w) event_writer \<Rightarrow> bool" where
  "lossless D batches rows_in base done seen G w \<longleftrightarrow>
     flat_store (length (split_on (CHR ''/'') (ew_prefix w)) + 4) (ew_store w)
     \<and> normal_path (split_on (CHR ''/'') (ew_prefix w))
     \<and> om_sorted id (ew_open w)
     \<and> (\<forall>pn. om_get id pn (ew_open w) \<noteq> None \<longrightarrow> plain_name pn)
     \<and> (\<forall>k. local_objects (ew_store w) k \<noteq> None \<longrightarrow>
          (\<exists>pn pos xs. plain_name pn \<and> (pos, xs) \<in> set (G pn) \<and> k = pos_key (ew_prefix w) pn pos))
     \<and> (\<forall>pn. plain_name pn \<longrightarrow> partition_lossless D batches rows_in base done seen (G pn) w pn)"

lemma pos_key_good:
  assumes "normal_path (split_on (CHR ''/'') prefix)" and "plain_name pn"
  shows "good_key (pos_key prefix pn pos)
    \<and> length (split_on (CHR ''/'') (pos_key prefix pn pos)) = length (split_on (CHR ''/'') prefix) + 4"
  using good_file_key [OF assms] by (simp add: pos_key_def dir_name_path [OF assms(2)])

text \<open>Steps that only touch counters, the sequence number or the base.\<close>

lemma lossless_frame:
  assumes "lossless D batches rows_in base done seen G w" and "ew_store w' = ew_store w" "ew_prefix w' = ew_prefix w"
    "ew_parts w' = ew_parts w" "ew_open w' = ew_open w"
  shows "lossless D batches rows_in base done seen G w'"
  using assms(1) unfolding lossless_def partition_lossless_def reached_def assms(2-5) .

lemma reached_mono: "reached prefix pn seen w p \<Longrightarrow> set seen \<subseteq> set seen' \<Longrightarrow> reached prefix pn seen' w p"
  by (auto simp: reached_def)

text \<open>A partition a step leaves alone.\<close>

lemma partition_frame:
  assumes part: "partition_lossless D batches rows_in base done seen fs w pn"
    and same: "om_get id pn (ew_open w') = om_get id pn (ew_open w)" "ew_prefix w' = ew_prefix w"
      "of_partition pn done' = of_partition pn done"
    and reach: "\<And>p. reached (ew_prefix w) pn seen w p \<Longrightarrow> reached (ew_prefix w) pn seen' w' p"
    and stored: "\<And>p ys. (p, ys) \<in> set fs \<Longrightarrow>
      local_objects (ew_store w') (pos_key (ew_prefix w) pn p) = local_objects (ew_store w) (pos_key (ew_prefix w) pn p)"
  shows "partition_lossless D batches rows_in base done' seen' fs w' pn"
proof -
  have files: "\<forall>(pos, xs) \<in> set fs. \<exists>bytes. local_objects (ew_store w') (pos_key (ew_prefix w) pn pos) = Some bytes
      \<and> holds_rows batches bytes (file_rows D base xs)"
    using part stored unfolding partition_lossless_def by fastforce
  show ?thesis
  proof (cases "om_get id pn (ew_open w)")
    case None
    then show ?thesis using part files reach unfolding partition_lossless_def same None option.case by blast
  next
    case (Some f)
    from part obtain pos xs where "of_key f = pos_key (ew_prefix w) pn pos" "rows_in (of_arrow f) @ of_rows f = file_rows D base xs"
      "concat (map snd fs) @ xs = of_partition pn done" "sorted_wrt pos_less (map fst fs @ [pos])"
      and "\<forall>p \<in> set (map fst fs @ [pos]). reached (ew_prefix w) pn seen w p"
      unfolding partition_lossless_def Some option.case by blast
    moreover from this(5) reach have "\<forall>p \<in> set (map fst fs @ [pos]). reached (ew_prefix w) pn seen' w' p" by blast
    ultimately show ?thesis using files unfolding partition_lossless_def same Some option.case by blast
  qed
qed

lemma pos_less_irrefl: "\<not> pos_less p p"
  by (simp add: pos_less_def)

lemma reached_key_less:
  "pos_less p q \<Longrightarrow> reached prefix pn seen w q \<Longrightarrow> pos_key prefix pn p < pos_key prefix pn q"
  by (auto simp: reached_def intro: pos_key_less)

text \<open>A file opened after all the others; a file that grows; and one that is stored.\<close>

lemma partition_opened:
  assumes part: "partition_lossless D batches rows_in base done seen fs w pn" and none: "om_get id pn (ew_open w) = None"
    and f: "om_get id pn (ew_open w') = Some f" "of_key f = pos_key (ew_prefix w) pn pos" "rows_in (of_arrow f) @ of_rows f = []"
    and same: "ew_prefix w' = ew_prefix w" "ew_store w' = ew_store w"
    and reach: "\<And>p. reached (ew_prefix w) pn seen w p \<Longrightarrow> reached (ew_prefix w) pn seen w' p \<and> pos_less p pos"
    and mine: "reached (ew_prefix w) pn seen w' pos"
  shows "partition_lossless D batches rows_in base done seen fs w' pn"
proof -
  from part have old: "concat (map snd fs) @ [] = of_partition pn done" "sorted_wrt pos_less (map fst fs)"
      "\<forall>p \<in> set (map fst fs). reached (ew_prefix w) pn seen w p"
    and stored: "\<forall>(pos, xs) \<in> set fs. \<exists>bytes. local_objects (ew_store w) (pos_key (ew_prefix w) pn pos) = Some bytes
        \<and> holds_rows batches bytes (file_rows D base xs)"
    unfolding partition_lossless_def none option.case by simp_all
  have "sorted_wrt pos_less (map fst fs @ [pos])" using old reach by (simp add: sorted_wrt_append)
  moreover have "\<forall>p \<in> set (map fst fs @ [pos]). reached (ew_prefix w) pn seen w' p" using old(3) reach mine by simp
  moreover have "rows_in (of_arrow f) @ of_rows f = file_rows D base []" using f(3) by (simp add: file_rows_def)
  ultimately show ?thesis using stored old(1) f(2) unfolding partition_lossless_def f(1) option.case same by blast
qed

lemma partition_grown:
  assumes part: "partition_lossless D batches rows_in base done seen fs w pn"
    and f: "om_get id pn (ew_open w) = Some f" "om_get id pn (ew_open w') = Some g" "of_key g = of_key f"
      "rows_in (of_arrow g) @ of_rows g = (rows_in (of_arrow f) @ of_rows f) @ file_rows D base ys"
    and done': "of_partition pn done' = of_partition pn done @ ys"
    and same: "ew_prefix w' = ew_prefix w" "ew_store w' = ew_store w" "ew_parts w' = ew_parts w"
  shows "partition_lossless D batches rows_in base done' seen fs w' pn"
proof -
  from part obtain pos xs where key: "of_key f = pos_key (ew_prefix w) pn pos" and rows: "rows_in (of_arrow f) @ of_rows f = file_rows D base xs"
    and all: "concat (map snd fs) @ xs = of_partition pn done" and pos: "sorted_wrt pos_less (map fst fs @ [pos])"
      "\<forall>p \<in> set (map fst fs @ [pos]). reached (ew_prefix w) pn seen w p"
    and stored: "\<forall>(pos, xs) \<in> set fs. \<exists>bytes. local_objects (ew_store w) (pos_key (ew_prefix w) pn pos) = Some bytes
        \<and> holds_rows batches bytes (file_rows D base xs)"
    unfolding partition_lossless_def f(1) option.case by blast
  have "reached prefix pn seen w' = reached prefix pn seen w" for prefix by (simp add: reached_def fun_eq_iff same)
  with pos have pos': "sorted_wrt pos_less (map fst fs @ [pos])" "\<forall>p \<in> set (map fst fs @ [pos]). reached (ew_prefix w) pn seen w' p"
    by auto
  have rows': "rows_in (of_arrow g) @ of_rows g = file_rows D base (xs @ ys)" using f(4) rows by (simp add: file_rows_def)
  have all': "concat (map snd fs) @ xs @ ys = of_partition pn done'" using all done' by simp
  show ?thesis using key stored pos' rows' all' unfolding partition_lossless_def f(2,3) option.case same(1,2) by blast
qed

lemma partition_stored:
  assumes part: "partition_lossless D batches rows_in base done seen fs w pn" and f: "om_get id pn (ew_open w) = Some f"
    and none: "om_get id pn (ew_open w') = None" and same: "ew_prefix w' = ew_prefix w" "ew_parts w' = ew_parts w"
    and law: "\<And>xs. rows_in (of_arrow f) @ of_rows f = file_rows D base xs \<Longrightarrow> holds_rows batches bytes (file_rows D base xs)"
    and put: "local_objects (ew_store w') = (local_objects (ew_store w))(of_key f \<mapsto> bytes)"
  shows "\<exists>pos xs. of_key f = pos_key (ew_prefix w) pn pos
    \<and> partition_lossless D batches rows_in base done seen (fs @ [(pos, xs)]) w' pn"
proof -
  from part obtain pos xs where key: "of_key f = pos_key (ew_prefix w) pn pos" and rows: "rows_in (of_arrow f) @ of_rows f = file_rows D base xs"
    and all: "concat (map snd fs) @ xs = of_partition pn done" and order: "sorted_wrt pos_less (map fst fs @ [pos])"
    and reach: "\<forall>p \<in> set (map fst fs @ [pos]). reached (ew_prefix w) pn seen w p"
    and stored: "\<forall>(pos, xs) \<in> set fs. \<exists>bytes. local_objects (ew_store w) (pos_key (ew_prefix w) pn pos) = Some bytes
        \<and> holds_rows batches bytes (file_rows D base xs)"
    unfolding partition_lossless_def f option.case by blast
  have "reached prefix pn seen w' = reached prefix pn seen w" for prefix by (simp add: reached_def fun_eq_iff same)
  moreover have "pos_key (ew_prefix w) pn p \<noteq> of_key f" if "(p, ys) \<in> set fs" for p ys
  proof -
    have "p \<in> set (map fst fs)" using that by force
    then have "pos_less p pos" using order by (auto simp: sorted_wrt_append)
    then have "pos_key (ew_prefix w) pn p < pos_key (ew_prefix w) pn pos" using reach by (intro reached_key_less) auto
    then show ?thesis by (simp add: key)
  qed
  then have "\<forall>(p, ys) \<in> set (fs @ [(pos, xs)]). \<exists>bytes. local_objects (ew_store w') (pos_key (ew_prefix w) pn p) = Some bytes
      \<and> holds_rows batches bytes (file_rows D base ys)"
    using stored law [OF rows] by (auto simp: put key)
  moreover have "concat (map snd (fs @ [(pos, xs)])) = of_partition pn done" "sorted_wrt pos_less (map fst (fs @ [(pos, xs)]))"
    using all order by simp_all
  ultimately have "partition_lossless D batches rows_in base done seen (fs @ [(pos, xs)]) w' pn"
    using reach unfolding partition_lossless_def none option.case same(1) by simp
  with key show ?thesis by blast
qed

lemma lossless_seen:
  assumes "lossless D batches rows_in base done seen G w" and "set seen \<subseteq> set seen'"
  shows "lossless D batches rows_in base done seen' G w"
proof -
  have "partition_lossless D batches rows_in base done seen' fs w pn" if "partition_lossless D batches rows_in base done seen fs w pn" for fs pn
    using that reached_mono assms(2) by (intro partition_frame [OF that]) blast+
  then show ?thesis using assms(1) unfolding lossless_def by blast
qed

text \<open>The whole state after a put of the file of one partition.\<close>

lemma lossless_put:
  assumes loss: "lossless D batches rows_in base done seen G w" and plain: "plain_name pn"
    and key: "k = pos_key (ew_prefix w) pn pos"
    and flat: "flat_store (length (split_on (CHR ''/'') (ew_prefix w)) + 4) (ew_store w')"
    and objs: "local_objects (ew_store w') = (local_objects (ew_store w))(k \<mapsto> bytes)"
    and w': "ew_prefix w' = ew_prefix w" "ew_parts w' = ew_parts w" "om_sorted id (ew_open w')"
    and get: "\<And>pn'. om_get id pn' (ew_open w') = (if pn' = pn then None else om_get id pn' (ew_open w))"
    and mine: "partition_lossless D batches rows_in base done seen (G pn @ [(pos, xs)]) w' pn"
  shows "lossless D batches rows_in base done seen (G(pn := G pn @ [(pos, xs)])) w'"
proof -
  let ?G = "G(pn := G pn @ [(pos, xs)])"
  have "partition_lossless D batches rows_in base done seen (?G pn') w' pn'" if pn': "plain_name pn'" for pn'
  proof (cases "pn' = pn")
    case True
    then show ?thesis using mine by simp
  next
    case False
    have "pos_key (ew_prefix w) pn' p \<noteq> k" for p
      using False dir_name_inj [OF pn' plain] unfolding key pos_key_def by blast
    moreover have "reached prefix pn' seen w' = reached prefix pn' seen w" for prefix
      by (simp add: reached_def fun_eq_iff w')
    moreover have old: "partition_lossless D batches rows_in base done seen (G pn') w pn'" using loss pn' by (simp add: lossless_def)
    ultimately have "partition_lossless D batches rows_in base done seen (G pn') w' pn'"
      using False by - (rule partition_frame [OF old], simp_all add: get w' objs)
    then show ?thesis using False by simp
  qed
  moreover have "\<exists>pn' p ys. plain_name pn' \<and> (p, ys) \<in> set (?G pn') \<and> k' = pos_key (ew_prefix w) pn' p"
    if "local_objects (ew_store w') k' \<noteq> None" for k'
  proof (cases "k' = k")
    case True
    then show ?thesis using plain key by (intro exI [of _ pn] exI [of _ pos] exI [of _ xs]) simp
  next
    case False
    then have "local_objects (ew_store w) k' \<noteq> None" using that by (simp add: objs)
    then obtain pn' p ys where "plain_name pn'" "(p, ys) \<in> set (G pn')" "k' = pos_key (ew_prefix w) pn' p"
      using loss unfolding lossless_def by blast
    then show ?thesis by (intro exI [of _ pn'] exI [of _ p] exI [of _ ys]) auto
  qed
  moreover have "plain_name pn'" if "om_get id pn' (ew_open w') \<noteq> None" for pn'
    using that get [of pn'] loss by (auto simp: lossless_def split: if_splits)
  ultimately show ?thesis using loss flat w'(3) unfolding lossless_def w'(1) by blast
qed

text \<open>The state after the file of a partition has been stored.\<close>

lemma roll_lossless:
  assumes law: "parquet_law P batches rows_in" and loss: "lossless D batches rows_in base done seen G w"
    and f: "om_get id pn (ew_open w) = Some f"
  shows "\<exists>w' x. roll local_ops P pn w = (Inr (), w') \<and> lossless D batches rows_in base done seen (G(pn := G pn @ [x])) w'
    \<and> ew_prefix w' = ew_prefix w \<and> ew_base w' = ew_base w \<and> ew_event_seq w' = ew_event_seq w
    \<and> ew_parts w' = ew_parts w \<and> ew_open w' = om_remove id pn (ew_open w)"
proof -
  have flat: "flat_store (length (split_on (CHR ''/'') (ew_prefix w)) + 4) (ew_store w)"
    and normal: "normal_path (split_on (CHR ''/'') (ew_prefix w))" and sorted: "om_sorted id (ew_open w)"
    and plain: "plain_name pn"
    and parts: "\<And>pn. plain_name pn \<Longrightarrow> partition_lossless D batches rows_in base done seen (G pn) w pn"
    using loss f by (auto simp: lossless_def)
  obtain a where flush: "flush_row_group P f = (Inr (), f\<lparr> of_arrow := a, of_rows := [] \<rparr>)"
    and a: "rows_in a = rows_in (of_arrow f) @ of_rows f"
    using flush_lossless [OF law, of f] by auto
  obtain bytes where inner: "pq_into_inner P a = Inr bytes" and holds: "holds_rows batches bytes (rows_in a)"
    using law unfolding parquet_law_def by metis
  from parts [OF plain] f obtain p where "of_key f = pos_key (ew_prefix w) pn p" unfolding partition_lossless_def by fastforce
  then have "good_key (of_key f)" "length (split_on (CHR ''/'') (of_key f)) = length (split_on (CHR ''/'') (ew_prefix w)) + 4"
    using pos_key_good [OF normal plain] by simp_all
  from flat_put [OF flat this, of bytes] obtain st where put: "so_put local_ops (of_key f) bytes (ew_store w) = (Inr (), st)"
    and flat': "flat_store (length (split_on (CHR ''/'') (ew_prefix w)) + 4) st"
    and objs: "local_objects st = (local_objects (ew_store w))(of_key f \<mapsto> bytes)"
    by blast
  define w' where "w' = snd (roll local_ops P pn w)"
  have roll: "roll local_ops P pn w = (Inr (), w')"
    and w': "ew_prefix w' = ew_prefix w" "ew_base w' = ew_base w" "ew_event_seq w' = ew_event_seq w"
      "ew_parts w' = ew_parts w" "ew_open w' = om_remove id pn (ew_open w)" "ew_store w' = st"
    using put by (simp_all add: w'_def roll_def f Let_def flush inner count_open_def)
  have get: "om_get id pn' (ew_open w') = (if pn' = pn then None else om_get id pn' (ew_open w))" for pn'
    unfolding w'(5) by (rule om_get_remove [OF sorted])
  have none: "om_get id pn (ew_open w') = None" by (simp add: get)
  have put': "local_objects (ew_store w') = (local_objects (ew_store w))(of_key f \<mapsto> bytes)" by (simp add: w' objs)
  have rows: "holds_rows batches bytes (file_rows D base xs)" if "rows_in (of_arrow f) @ of_rows f = file_rows D base xs" for xs
    using holds that a by simp
  obtain pos xs where key: "of_key f = pos_key (ew_prefix w) pn pos"
    and mine: "partition_lossless D batches rows_in base done seen (G pn @ [(pos, xs)]) w' pn"
    using partition_stored [OF parts [OF plain] f none w'(1,4) rows put'] by blast
  have "lossless D batches rows_in base done seen (G(pn := G pn @ [(pos, xs)])) w'"
    using loss flat' get w'(5) sorted mine unfolding w'(6) [symmetric]
    by (intro lossless_put [OF loss plain key]) (simp_all add: w' objs om_sorted_remove)
  then show ?thesis using roll w' by blast
qed

text \<open>
  Opening a file: its position comes after those of the partition's stored files, by the hour, or
  by the part within the hour. The part numbers of the store are small, so a listing continues them.
\<close>

definition parts_fit :: "('st, 'w) event_writer \<Rightarrow> bool" where
  "parts_fit w \<longleftrightarrow> (\<forall>dir m. om_get id dir (ew_parts w) = Some m \<longrightarrow> m \<le> 100000)"

lemma stored_parts_small:
  assumes "lossless D batches rows_in base done seen G w"
    and "local_objects (ew_store w) k \<noteq> None" and "part_number k = Some n"
  shows "n < 100000"
proof -
  obtain pn pos xs where plain: "plain_name pn" and x: "(pos, xs) \<in> set (G pn)" and k: "k = pos_key (ew_prefix w) pn pos"
    and part: "partition_lossless D batches rows_in base done seen (G pn) w pn"
    using assms(1,2) unfolding lossless_def by blast
  have "reached (ew_prefix w) pn seen w pos"
  proof (cases "om_get id pn (ew_open w)")
    case None
    then show ?thesis using part x unfolding partition_lossless_def None option.case by force
  next
    case (Some f)
    then show ?thesis using part x unfolding partition_lossless_def Some option.case by force
  qed
  then have small: "snd pos < 100000" by (auto simp: reached_def)
  obtain d where "dir_name (ew_prefix w) pn (fst pos) = d @ ''/''" using dir_name_slash by blast
  then have "part_number k = Some (snd pos)"
    using part_number_file [of "snd pos" d] small by (simp add: k pos_key_def u64_max_def)
  then show ?thesis using assms(3) small by simp
qed

lemma choose_lossless:
  assumes loss: "lossless D batches rows_in base done seen G w" and fit: "parts_fit w"
  shows "\<exists>part. choose_part local_ops dir w = (Inr part, w) \<and> part \<le> 100000
    \<and> (\<forall>m. om_get id dir (ew_parts w) = Some m \<longrightarrow> part = m)"
proof (cases "om_get id dir (ew_parts w)")
  case (Some m)
  then show ?thesis using fit by (simp add: choose_part_def parts_fit_def)
next
  case None
  have flat: "flat_store (length (split_on (CHR ''/'') (ew_prefix w)) + 4) (ew_store w)"
    using loss by (simp add: lossless_def)
  obtain ks where ks: "so_list local_ops dir (ew_store w) = (Inr ks, ew_store w)" using flat_list [OF flat] by blast
  have "local_ok (ew_store w)" using flat by (simp add: flat_store_def)
  from local.list_ok [OF this ks] have "\<forall>k \<in> set ks. local_objects (ew_store w) k \<noteq> None" by blast
  then have "\<forall>k \<in> set ks. \<forall>n. part_number k = Some n \<longrightarrow> n < 100000" using stored_parts_small [OF loss] by blast
  then have "next_part ks \<le> 100000" by (rule next_part_bound)
  moreover have "w\<lparr> ew_store := ew_store w \<rparr> = w" by simp
  ultimately show ?thesis using None ks by (simp add: choose_part_def)
qed

text \<open>An event's own hour is the latest its partition has seen.\<close>

definition latest :: "string \<Rightarrow> 'd market_event list \<Rightarrow> nat \<Rightarrow> bool" where
  "latest pn seen h \<longleftrightarrow> h < hour_limit
     \<and> (\<exists>ev \<in> set seen. partition_name (ev_symbol ev) = pn \<and> epoch_hour (wall_t (ev_ingest_ts ev)) = h)
     \<and> (\<forall>ev \<in> set seen. partition_name (ev_symbol ev) = pn \<longrightarrow> epoch_hour (wall_t (ev_ingest_ts ev)) \<le> h)"

lemma reached_insert_part:
  assumes "reached prefix pn seen w p" and "ew_parts w' = om_insert id dir m (ew_parts w)"
    and "\<forall>m'. om_get id dir (ew_parts w) = Some m' \<longrightarrow> m' \<le> m" and "m \<le> 100000"
  shows "reached prefix pn seen w' p"
  using assms om_get_insert [of id "dir_name prefix pn (fst p)" dir m "ew_parts w"]
  by (fastforce simp: reached_def)

lemma ensure_lossless:
  assumes law: "parquet_law P batches rows_in" and loss: "lossless D batches rows_in base done seen G w"
    and pn: "pn = partition_name (ev_symbol ev)" and hour: "latest pn seen (epoch_hour (wall_t (ev_ingest_ts ev)))"
    and fit: "parts_fit w" "parts_fit (snd (ensure_open local_ops P ev pn w))"
  shows "\<exists>w'. ensure_open local_ops P ev pn w = (Inr (), w') \<and> lossless D batches rows_in base done seen G w'
    \<and> om_get id pn (ew_open w') \<noteq> None \<and> ew_prefix w' = ew_prefix w \<and> ew_base w' = ew_base w
    \<and> ew_event_seq w' = ew_event_seq w"
proof (cases "om_get id pn (ew_open w)")
  case (Some f)
  then show ?thesis using loss by (simp add: ensure_open_def)
next
  case None
  let ?h = "epoch_hour (wall_t (ev_ingest_ts ev))"
  let ?dir = "dir_name (ew_prefix w) pn ?h"
  obtain a where new: "pq_new P = Inr a" "rows_in a = []" using law by (auto simp: parquet_law_def)
  obtain part where choose: "choose_part local_ops ?dir w = (Inr part, w)" and small: "part \<le> 100000"
    and known: "\<forall>m. om_get id ?dir (ew_parts w) = Some m \<longrightarrow> part = m"
    using choose_lossless [OF loss fit(1)] by blast
  define w' where "w' = snd (ensure_open local_ops P ev pn w)"
  define f where "f = \<lparr> of_window = window_of w (wall_t (ev_ingest_ts ev)), of_opened_at = ev_ingest_ts ev,
    of_key = pos_key (ew_prefix w) pn (?h, part), of_arrow = a, of_rows = [], of_rows_total = 0 \<rparr>"
  have ensure: "ensure_open local_ops P ev pn w = (Inr (), w')"
    and w': "ew_store w' = ew_store w" "ew_prefix w' = ew_prefix w" "ew_base w' = ew_base w" "ew_event_seq w' = ew_event_seq w"
      "ew_parts w' = om_insert id ?dir (part + 1) (ew_parts w)" "ew_open w' = om_insert id pn f (ew_open w)"
    using None choose small
    by (simp_all add: w'_def ensure_open_def start_file_def new dir_for_name Let_def count_open_def f_def pos_key_def file_name_def)
  have get: "om_get id pn' (ew_open w') = (if pn' = pn then Some f else om_get id pn' (ew_open w))" for pn'
    unfolding w'(6) using om_get_insert [of id pn' pn f "ew_open w"] by simp
  have part: "om_get id ?dir (ew_parts w') = Some (part + 1)"
    unfolding w'(5) using om_get_insert [of id ?dir ?dir "part + 1" "ew_parts w"] by simp
  then have fits: "part + 1 \<le> 100000" using fit(2) unfolding w'_def parts_fit_def by blast
  have kept: "reached prefix pn' seen w' p" if "reached prefix pn' seen w p" for prefix pn' p
    using reached_insert_part [OF that w'(5)] known fits by auto
  have mine: "reached (ew_prefix w) pn seen w' (?h, part)"
    using hour part fits by (auto simp: reached_def latest_def)
  have after: "pos_less p (?h, part)" if "reached (ew_prefix w) pn seen w p" for p
    using that hour known by (fastforce simp: reached_def latest_def pos_less_def le_less)
  have "partition_lossless D batches rows_in base done seen (G pn') w' pn'" if plain: "plain_name pn'" for pn'
  proof (cases "pn' = pn")
    case True
    have "partition_lossless D batches rows_in base done seen (G pn) w pn" using loss plain True by (simp add: lossless_def)
    then have "partition_lossless D batches rows_in base done seen (G pn) w' pn"
      by (rule partition_opened [OF _ None, where f = f and pos = "(?h, part)"]) (use get [of pn] kept after mine w'(1,2) new(2) in \<open>simp_all add: f_def\<close>)
    then show ?thesis using True by simp
  next
    case False
    have "partition_lossless D batches rows_in base done seen (G pn') w pn'" using loss plain by (simp add: lossless_def)
    then show ?thesis
      by (rule partition_frame) (use False kept get [of pn'] in \<open>simp_all add: w'(1,2)\<close>)
  qed
  moreover have "om_sorted id (ew_open w')"
    unfolding w'(6) using loss by (intro om_sorted_insert) (simp add: lossless_def)
  moreover have "plain_name pn'" if "om_get id pn' (ew_open w') \<noteq> None" for pn'
    using that get [of pn'] loss partition_name_plain by (auto simp: lossless_def pn split: if_splits)
  ultimately have "lossless D batches rows_in base done seen G w'"
    using loss unfolding lossless_def w'(1,2) by blast
  then show ?thesis using ensure get [of pn] w' by simp
qed

lemma append_rows_lossless:
  assumes law: "parquet_law P batches rows_in" and loss: "lossless D batches rows_in base done seen G w"
    and pn: "pn = partition_name (ev_symbol ev)" and f: "om_get id pn (ew_open w) = Some f"
  shows "\<exists>w'. append_rows P pn (flatten D ev n base) w = (Inr (), w') \<and> lossless D batches rows_in base (done @ [(n, ev)]) seen G w'
    \<and> ew_prefix w' = ew_prefix w \<and> ew_base w' = ew_base w \<and> ew_event_seq w' = ew_event_seq w \<and> ew_parts w' = ew_parts w"
proof -
  let ?rs = "flatten D ev n base"
  define f1 where "f1 = f\<lparr> of_rows_total := of_rows_total f + length ?rs, of_rows := of_rows f @ ?rs \<rparr>"
  obtain a where a: "flush_row_group P f1 = (Inr (), f1\<lparr> of_arrow := a, of_rows := [] \<rparr>)" "rows_in a = rows_in (of_arrow f1) @ of_rows f1"
    using flush_lossless [OF law, of f1] by auto
  define g where "g = (if wc_row_group_rows (ew_config w) \<le> length (of_rows f1) then f1\<lparr> of_arrow := a, of_rows := [] \<rparr> else f1)"
  have g: "(if wc_row_group_rows (ew_config w) \<le> length (of_rows f1) then flush_row_group P f1 else (Inr (), f1)) = (Inr (), g)"
    by (simp add: g_def a(1))
  have key: "of_key g = of_key f" and rows: "rows_in (of_arrow g) @ of_rows g = (rows_in (of_arrow f) @ of_rows f) @ ?rs"
    by (simp_all add: g_def a(2) f1_def)
  define w' where "w' = w\<lparr> ew_open := om_insert id pn g (ew_open w) \<rparr>"
  have res: "append_rows P pn ?rs w = (Inr (), w')"
    unfolding append_rows_def f option.case Let_def f1_def [symmetric] g w'_def by simp
  have w': "ew_prefix w' = ew_prefix w" "ew_store w' = ew_store w" "ew_parts w' = ew_parts w" by (simp_all add: w'_def)
  have get: "om_get id pn' (ew_open w') = (if pn' = pn then Some g else om_get id pn' (ew_open w))" for pn'
    using om_get_insert [of id pn' pn g "ew_open w"] by (simp add: w'_def)
  have "partition_lossless D batches rows_in base (done @ [(n, ev)]) seen (G pn') w' pn'" if plain: "plain_name pn'" for pn'
  proof -
    have old: "partition_lossless D batches rows_in base done seen (G pn') w pn'" using loss plain by (simp add: lossless_def)
    show ?thesis
    proof (cases "pn' = pn")
      case True
      have "rows_in (of_arrow g) @ of_rows g = (rows_in (of_arrow f) @ of_rows f) @ file_rows D base [(n, ev)]"
        using rows by (simp add: file_rows_def)
      moreover have "of_partition pn (done @ [(n, ev)]) = of_partition pn done @ [(n, ev)]"
        by (simp add: of_partition_def pn)
      moreover have "om_get id pn (ew_open w') = Some g" by (simp add: get)
      ultimately show ?thesis using partition_grown [OF old [unfolded True] f _ key _ _ w'] True by simp
    next
      case False
      have "of_partition pn' (done @ [(n, ev)]) = of_partition pn' done" using False by (simp add: of_partition_def pn)
      moreover have "reached prefix pn' seen w' = reached prefix pn' seen w" for prefix
        by (simp add: reached_def fun_eq_iff w')
      ultimately show ?thesis using False by - (rule partition_frame [OF old], simp_all add: get w')
    qed
  qed
  moreover have "om_sorted id (ew_open w')"
    using loss by (simp add: w'_def lossless_def om_sorted_insert)
  moreover have "plain_name pn'" if "om_get id pn' (ew_open w') \<noteq> None" for pn'
    using that get [of pn'] loss partition_name_plain by (auto simp: lossless_def pn split: if_splits)
  ultimately have "lossless D batches rows_in base (done @ [(n, ev)]) seen G w'"
    using loss unfolding lossless_def w'(1,2) by blast
  then show ?thesis using res w' by (simp add: w'_def)
qed

section \<open>A run\<close>

text \<open>The events of a run, numbered from one; and the state after some of them.\<close>

definition numbered :: "'d market_event list \<Rightarrow> (int \<times> 'd market_event) list" where
  "numbered evs = zip (map (\<lambda>i. int i + 1) [0..<length evs]) evs"

lemma numbered_Nil [simp]: "numbered [] = []"
  by (simp add: numbered_def)

lemma numbered_snoc: "numbered (evs @ [ev]) = numbered evs @ [(int (length evs) + 1, ev)]"
  by (simp add: numbered_def)

definition running_well ::
  "('d, 'z) decimal_ops_scheme \<Rightarrow> ('b \<Rightarrow> read_error + (read_error + record_batch) list) \<Rightarrow> ('w \<Rightarrow> row list)
     \<Rightarrow> ingest_time \<Rightarrow> string \<Rightarrow> 'd market_event list \<Rightarrow> ('b local_store, 'w) event_writer \<Rightarrow> bool" where
  "running_well D batches rows_in base prefix evs w \<longleftrightarrow>
     (\<exists>G. lossless D batches rows_in base (numbered evs) evs G w) \<and> ew_prefix w = prefix
     \<and> ew_event_seq w = int (length evs) \<and> ew_base w = (if evs = [] then None else Some base)"

lemma append_rows_parts: "append_rows P pn rs w = (r, w') \<Longrightarrow> ew_parts w' = ew_parts w"
  using append_rows_effect [of P pn rs w] by auto

lemma write_event_well:
  assumes law: "parquet_law P batches rows_in" and well: "running_well D batches rows_in base prefix evs w"
    and first: "evs = [] \<longrightarrow> base = ev_ingest_ts ev"
    and hour: "latest (partition_name (ev_symbol ev)) (evs @ [ev]) (epoch_hour (wall_t (ev_ingest_ts ev)))"
    and fit: "parts_fit w" "parts_fit (write_event D local_ops P w ev)"
  shows "running_well D batches rows_in base prefix (evs @ [ev]) (write_event D local_ops P w ev)"
proof -
  let ?pn = "partition_name (ev_symbol ev)"
  define w0 where "w0 = w\<lparr> ew_base := Some base \<rparr>"
  obtain G where loss: "lossless D batches rows_in base (numbered evs) evs G w" and pre: "ew_prefix w = prefix"
    and seq: "ew_event_seq w = int (length evs)" and base: "ew_base w = (if evs = [] then None else Some base)"
    using well by (auto simp: running_well_def)
  have base': "(case ew_base w of Some b \<Rightarrow> b | None \<Rightarrow> ev_ingest_ts ev) = base" using base first by (simp split: if_splits)
  have loss0: "lossless D batches rows_in base (numbered evs) (evs @ [ev]) G w0"
    by (rule lossless_frame [OF lossless_seen [OF loss]]) (auto simp: w0_def)
  obtain w1 G1 where first: "(if rotates ev ?pn w0 then roll local_ops P ?pn w0 else (Inr (), w0)) = (Inr (), w1)"
    and loss1: "lossless D batches rows_in base (numbered evs) (evs @ [ev]) G1 w1"
    and w1: "ew_prefix w1 = ew_prefix w" "ew_base w1 = Some base" "ew_event_seq w1 = ew_event_seq w" "ew_parts w1 = ew_parts w"
  proof (cases "rotates ev ?pn w0")
    case True
    then obtain f where "om_get id ?pn (ew_open w0) = Some f" by (auto simp: rotates_def split: option.splits)
    from roll_lossless [OF law loss0 this] show ?thesis using that True by (auto simp: w0_def)
  next
    case False
    then show ?thesis using that [OF _ loss0] by (simp add: w0_def)
  qed
  obtain r2 w2 where second: "ensure_open local_ops P ev ?pn w1 = (r2, w2)" by (cases "ensure_open local_ops P ev ?pn w1")
  have event: "write_event D local_ops P w ev = (case r2 of Inl _ \<Rightarrow> w2\<lparr> ew_counters := record_failure (ew_counters w2) \<rparr>
      | Inr _ \<Rightarrow> (case append_rows P ?pn (flatten D ev (ew_event_seq w2 + 1) base) (w2\<lparr> ew_event_seq := ew_event_seq w2 + 1 \<rparr>) of
          (Inr _, w) \<Rightarrow> w | (Inl _, w) \<Rightarrow> w\<lparr> ew_counters := record_failure (ew_counters w) \<rparr>))"
    unfolding write_event_def append_event_def Let_def base' w0_def [symmetric] first by (simp add: second split: sum.split)
  have "ew_parts (write_event D local_ops P w ev) = ew_parts w2"
    unfolding event by (cases r2) (auto dest!: append_rows_parts split: prod.split sum.split)
  then have "parts_fit w2" using fit(2) by (simp add: parts_fit_def)
  moreover have "parts_fit w1" using fit(1) w1(4) by (simp add: parts_fit_def)
  ultimately have "r2 = Inr ()" and loss2: "lossless D batches rows_in base (numbered evs) (evs @ [ev]) G1 w2"
    and w2: "om_get id ?pn (ew_open w2) \<noteq> None" "ew_prefix w2 = ew_prefix w" "ew_base w2 = Some base" "ew_event_seq w2 = int (length evs)"
    using ensure_lossless [OF law loss1 refl hour, unfolded second] w1 seq by auto
  let ?w2 = "w2\<lparr> ew_event_seq := ew_event_seq w2 + 1 \<rparr>"
  have loss2': "lossless D batches rows_in base (numbered evs) (evs @ [ev]) G1 ?w2"
    by (rule lossless_frame [OF loss2]) simp_all
  obtain f where "om_get id ?pn (ew_open ?w2) = Some f" using w2(1) by auto
  from append_rows_lossless [OF law loss2' refl this, of "int (length evs) + 1"] obtain w3 where
    third: "append_rows P ?pn (flatten D ev (int (length evs) + 1) base) ?w2 = (Inr (), w3)"
    and loss3: "lossless D batches rows_in base (numbered evs @ [(int (length evs) + 1, ev)]) (evs @ [ev]) G1 w3"
    and w3: "ew_prefix w3 = prefix" "ew_base w3 = Some base" "ew_event_seq w3 = int (length evs) + 1"
    using w2 pre by auto
  have "write_event D local_ops P w ev = w3" using event third w2(4) \<open>r2 = Inr ()\<close> by simp
  then show ?thesis using loss3 w3 by (auto simp: running_well_def numbered_snoc)
qed

text \<open>
  What a run needs for its keys to sort: the hours of a symbol never step back, and no directory
  gets more parts than five digits count.
\<close>

definition hours_in_order :: "'d market_event list \<Rightarrow> bool" where
  "hours_in_order evs \<longleftrightarrow> (\<forall>ev \<in> set evs. epoch_hour (wall_t (ev_ingest_ts ev)) < hour_limit)
     \<and> sorted_wrt (\<lambda>a b. partition_name (ev_symbol a) = partition_name (ev_symbol b)
          \<longrightarrow> epoch_hour (wall_t (ev_ingest_ts a)) \<le> epoch_hour (wall_t (ev_ingest_ts b))) evs"

lemma hours_latest:
  "hours_in_order (evs @ [ev]) \<Longrightarrow> latest (partition_name (ev_symbol ev)) (evs @ [ev]) (epoch_hour (wall_t (ev_ingest_ts ev)))"
  by (auto simp: hours_in_order_def latest_def sorted_wrt_append)

lemma write_events_well:
  assumes law: "parquet_law P batches rows_in" and start: "running_well D batches rows_in base prefix [] w"
    and base: "evs \<noteq> [] \<longrightarrow> base = ev_ingest_ts (hd evs)" and hours: "hours_in_order evs"
    and fit: "\<forall>n \<le> length evs. parts_fit (foldl (write_event D local_ops P) w (take n evs))"
  shows "running_well D batches rows_in base prefix evs (foldl (write_event D local_ops P) w evs)"
  using base hours fit
proof (induction evs rule: rev_induct)
  case Nil
  then show ?case using start by simp
next
  case (snoc ev evs)
  have "\<forall>n \<le> length evs. parts_fit (foldl (write_event D local_ops P) w (take n evs))"
  proof (intro allI impI)
    fix n assume "n \<le> length evs"
    then show "parts_fit (foldl (write_event D local_ops P) w (take n evs))" using snoc.prems(3) [rule_format, of n] by simp
  qed
  moreover have "hours_in_order evs" using snoc.prems(2) by (auto simp: hours_in_order_def sorted_wrt_append)
  moreover have "evs \<noteq> [] \<longrightarrow> base = ev_ingest_ts (hd evs)" using snoc.prems(1) by auto
  ultimately have "running_well D batches rows_in base prefix evs (foldl (write_event D local_ops P) w evs)"
    by (intro snoc.IH)
  moreover have "parts_fit (foldl (write_event D local_ops P) w evs)"
    using snoc.prems(3) by (auto dest!: spec [of _ "length evs"])
  moreover have "parts_fit (foldl (write_event D local_ops P) w (evs @ [ev]))"
    using snoc.prems(3) by (auto dest!: spec [of _ "length (evs @ [ev])"])
  ultimately show ?case
    using write_event_well [OF law, of D base prefix evs "foldl (write_event D local_ops P) w evs" ev]
      hours_latest [OF snoc.prems(2)] snoc.prems(1) by simp
qed

text \<open>Closing stores every file that is open.\<close>

lemma close_each_well:
  assumes law: "parquet_law P batches rows_in"
  shows "lossless D batches rows_in base done seen G w \<Longrightarrow>
    \<exists>w' G'. close_each local_ops P pns None w = (None, w') \<and> lossless D batches rows_in base done seen G' w'
      \<and> ew_prefix w' = ew_prefix w \<and> (\<forall>pn. om_get id pn (ew_open w') = (if pn \<in> set pns then None else om_get id pn (ew_open w)))"
proof (induction pns arbitrary: G w)
  case Nil
  then show ?case by (auto simp only: close_each.simps list.set(1) empty_iff if_False)
next
  case (Cons pn pns)
  show ?case
  proof (cases "om_get id pn (ew_open w)")
    case None
    with Cons.IH [OF Cons.prems] show ?thesis by (auto simp: roll_absent)
  next
    case (Some f)
    from roll_lossless [OF law Cons.prems Some] obtain w1 x where roll: "roll local_ops P pn w = (Inr (), w1)"
      and loss1: "lossless D batches rows_in base done seen (G(pn := G pn @ [x])) w1"
      and w1: "ew_prefix w1 = ew_prefix w" "ew_open w1 = om_remove id pn (ew_open w)"
      by blast
    have "om_sorted id (ew_open w)" using Cons.prems by (simp add: lossless_def)
    then have "om_get id pn' (ew_open w1) = (if pn' = pn then None else om_get id pn' (ew_open w))" for pn'
      unfolding w1(2) by (rule om_get_remove)
    with Cons.IH [OF loss1] roll w1(1) show ?thesis by fastforce
  qed
qed

lemma run_well:
  assumes law: "parquet_law P batches rows_in" and start: "running_well D batches rows_in base prefix [] w"
    and base: "evs \<noteq> [] \<longrightarrow> base = ev_ingest_ts (hd evs)" and hours: "hours_in_order evs"
    and fit: "\<forall>n \<le> length evs. parts_fit (foldl (write_event D local_ops P) w (take n evs))"
  shows "\<exists>G. lossless D batches rows_in base (numbered evs) evs G (run_writer D local_ops P evs w)
    \<and> ew_prefix (run_writer D local_ops P evs w) = prefix \<and> (\<forall>pn. om_get id pn (ew_open (run_writer D local_ops P evs w)) = None)"
proof -
  let ?w = "foldl (write_event D local_ops P) w evs"
  obtain G where "lossless D batches rows_in base (numbered evs) evs G ?w" "ew_prefix ?w = prefix"
    using write_events_well [OF assms] by (auto simp: running_well_def)
  from close_each_well [OF law this(1), of "map fst (ew_open ?w)"] this(2) obtain w' G' where
    close: "close_each local_ops P (map fst (ew_open ?w)) None ?w = (None, w')"
    and loss': "lossless D batches rows_in base (numbered evs) evs G' w'" "ew_prefix w' = prefix"
    and get: "\<And>pn. om_get id pn (ew_open w') = (if pn \<in> set (map fst (ew_open ?w)) then None else om_get id pn (ew_open ?w))"
    by fastforce
  have "om_get id pn (ew_open w') = None" for pn
    using get [of pn] om_get_None [of id pn "ew_open ?w"] by (auto split: if_splits)
  moreover have "run_writer D local_ops P evs w = w'" by (simp add: run_writer_def close_writer_def close)
  ultimately show ?thesis using loss' by auto
qed

section \<open>Reading a run back\<close>

text \<open>What the archive keeps of an event: everything but the monotonic reading.\<close>

definition recorded :: "ingest_time \<Rightarrow> 'd market_event \<Rightarrow> 'd stored_event" where
  "recorded base ev = stored_form (\<lambda>_. 0) base 0 ev"

definition forget_mono :: "'d stored_event \<Rightarrow> 'd stored_event" where
  "forget_mono e = e\<lparr> se_event := (se_event e)\<lparr> ev_ingest_ts := (ev_ingest_ts (se_event e))\<lparr> mono_t := 0 \<rparr> \<rparr> \<rparr>"

lemma forget_stored [simp]: "forget_mono (stored_form now base k ev) = recorded base ev"
  by (simp add: forget_mono_def stored_form_def recorded_def)

lemma forget_stream [simp]: "se_stream (forget_mono e) = se_stream e"
  by (simp add: forget_mono_def)

lemma recorded_stream [simp]: "se_stream (recorded base ev) = StreamId (ev_venue ev) (ev_symbol ev)"
  by (simp add: recorded_def stored_form_def)

lemma forget_stored_forms:
  "map forget_mono (map2 (stored_form now base) [i..<i + length xs] (map snd xs)) = map (recorded base) (map snd xs)"
  by (rule nth_equalityI) simp_all

text \<open>The files of a run that is over: what each holds, and the keys of each partition.\<close>

lemma stored_files:
  assumes loss: "lossless D batches rows_in base done seen G w" and none: "\<And>pn. om_get id pn (ew_open w) = None"
    and plain: "plain_name pn"
  shows "concat (map snd (G pn)) = of_partition pn done" "sorted_wrt pos_less (map fst (G pn))"
    and "p \<in> set (map fst (G pn)) \<Longrightarrow> reached (ew_prefix w) pn seen w p"
    and "(p, xs) \<in> set (G pn) \<Longrightarrow> \<exists>bytes. local_objects (ew_store w) (pos_key (ew_prefix w) pn p) = Some bytes
      \<and> holds_rows batches bytes (file_rows D base xs)"
proof -
  have "partition_lossless D batches rows_in base done seen (G pn) w pn" using loss plain by (simp add: lossless_def)
  then have all: "(\<forall>(pos, xs) \<in> set (G pn). \<exists>bytes. local_objects (ew_store w) (pos_key (ew_prefix w) pn pos) = Some bytes
        \<and> holds_rows batches bytes (file_rows D base xs))
      \<and> concat (map snd (G pn)) = of_partition pn done \<and> sorted_wrt pos_less (map fst (G pn))
      \<and> (\<forall>p \<in> set (map fst (G pn)). reached (ew_prefix w) pn seen w p)"
    unfolding partition_lossless_def none option.case .
  then show "concat (map snd (G pn)) = of_partition pn done" "sorted_wrt pos_less (map fst (G pn))" by blast+
  show "p \<in> set (map fst (G pn)) \<Longrightarrow> reached (ew_prefix w) pn seen w p" using all by blast
  show "(p, xs) \<in> set (G pn) \<Longrightarrow> \<exists>bytes. local_objects (ew_store w) (pos_key (ew_prefix w) pn p) = Some bytes
      \<and> holds_rows batches bytes (file_rows D base xs)" using all by blast
qed

lemma run_archive:
  assumes loss: "lossless D batches rows_in base done seen G w" and none: "\<And>pn. om_get id pn (ew_open w) = None"
  shows "local_archive [ew_prefix w] (ew_store w) = {pos_key (ew_prefix w) pn p | pn p xs. plain_name pn \<and> (p, xs) \<in> set (G pn)}"
proof -
  have below: "ends_with ''.parquet'' (pos_key (ew_prefix w) pn p)
    \<and> take (length (ew_prefix w)) (pos_key (ew_prefix w) pn p) = ew_prefix w" for pn p
    by (simp add: ends_with_parquet) (simp add: pos_key_def dir_name_def)
  show ?thesis
  proof (rule set_eqI, rule iffI)
    fix k assume "k \<in> local_archive [ew_prefix w] (ew_store w)"
    then have "local_objects (ew_store w) k \<noteq> None" by (simp add: local_archive_def)
    then show "k \<in> {pos_key (ew_prefix w) pn p | pn p xs. plain_name pn \<and> (p, xs) \<in> set (G pn)}"
      using loss unfolding lossless_def by blast
  next
    fix k assume "k \<in> {pos_key (ew_prefix w) pn p | pn p xs. plain_name pn \<and> (p, xs) \<in> set (G pn)}"
    then obtain pn p xs where "plain_name pn" "(p, xs) \<in> set (G pn)" "k = pos_key (ew_prefix w) pn p" by blast
    then show "k \<in> local_archive [ew_prefix w] (ew_store w)"
      using stored_files(4) [OF loss none, of pn p xs] below [of pn p] by (auto simp: local_archive_def)
  qed
qed

lemma run_partition_keys:
  assumes loss: "lossless D batches rows_in base done seen G w" and none: "\<And>pn. om_get id pn (ew_open w) = None"
    and plain: "plain_name pn"
  shows "partition_keys (local_archive [ew_prefix w] (ew_store w)) (ew_prefix w @ ''/symbol='' @ pn)
    = map (pos_key (ew_prefix w) pn) (map fst (G pn))"
  unfolding partition_keys_def
proof (rule sorted_list_unique)
  have "sorted_wrt (\<lambda>p q. pos_key (ew_prefix w) pn p < pos_key (ew_prefix w) pn q) (map fst (G pn))"
  proof (rule sorted_wrt_mono_rel [OF _ stored_files(2) [OF loss none plain]])
    fix p q assume "q \<in> set (map fst (G pn))" "pos_less p q"
    then show "pos_key (ew_prefix w) pn p < pos_key (ew_prefix w) pn q"
      using stored_files(3) [OF loss none plain] by (intro reached_key_less)
  qed
  then show "sorted_wrt (<) (map (pos_key (ew_prefix w) pn) (map fst (G pn)))" by (simp add: sorted_wrt_map)
  show "set (map (pos_key (ew_prefix w) pn) (map fst (G pn)))
      = {k \<in> local_archive [ew_prefix w] (ew_store w). partition_of k = ew_prefix w @ ''/symbol='' @ pn}"
    unfolding run_archive [OF loss none] using plain by (force simp: partition_of_key)
qed

lemma distinct_neighbours: "distinct xs \<Longrightarrow> distinct_adj xs"
  by (induction xs rule: induct_list012) auto

lemma run_file_decodes:
  assumes law: "d_text_law D" and loss: "lossless D batches rows_in base (numbered evs) seen G w"
    and none: "\<And>pn. om_get id pn (ew_open w) = None" and fit: "\<forall>ev \<in> set evs. storable D base ev"
    and x: "plain_name pn" "(p, xs) \<in> set (G pn)"
  shows "decode_file D now batches (the (local_objects (ew_store w) (pos_key (ew_prefix w) pn p)))
    = Inr (map2 (stored_form now base) [0..<0 + length xs] (map snd xs))"
proof -
  obtain bytes where bytes: "local_objects (ew_store w) (pos_key (ew_prefix w) pn p) = Some bytes"
    and "holds_rows batches bytes (file_rows D base xs)"
    using stored_files(4) [OF loss none x] by blast
  then obtain groups where groups: "batches bytes = Inr (map (\<lambda>g. Inr (to_batch g)) groups)" "concat groups = file_rows D base xs"
    by (auto simp: holds_rows_def)
  have sub: "concat (map snd (G pn)) = of_partition pn (numbered evs)" using stored_files(1) [OF loss none x(1)] .
  have "distinct (map fst (numbered evs))"
    by (simp add: numbered_def distinct_map inj_on_def)
  then have "distinct (map fst (of_partition pn (numbered evs)))" by (auto simp: of_partition_def distinct_map_filter)
  then have "distinct (map fst xs)" using x(2) unfolding sub [symmetric]
    by (auto simp: map_concat distinct_concat_iff)
  then have "distinct_adj (map fst xs)" by (rule distinct_neighbours)
  moreover have "\<forall>(seq, ev) \<in> set xs. storable D base ev"
  proof (intro ballI, clarify)
    fix seq ev assume "(seq, ev) \<in> set xs"
    then have "(seq, ev) \<in> set (of_partition pn (numbered evs))" using x(2) unfolding sub [symmetric] by force
    then have "ev \<in> set evs" by (auto simp: of_partition_def numbered_def dest: set_zip_rightD)
    then show "storable D base ev" using fit by blast
  qed
  moreover have "concat groups = concat (map (\<lambda>(seq, ev). flatten D ev seq base) xs)" using groups(2) by (simp add: file_rows_def)
  ultimately show ?thesis using decode_file_rows [OF law, of xs base groups batches bytes now] groups(1) by (simp add: bytes)
qed

lemma map_concat_files:
  assumes "\<And>p xs. (p, xs) \<in> set fs \<Longrightarrow> map f (F (key p)) = map g xs"
  shows "map f (concat (map F (map key (map fst fs)))) = map g (concat (map snd fs))"
  using assms
proof (induction fs)
  case (Cons x fs)
  obtain p xs where x: "x = (p, xs)" by (cases x)
  have "map f (F (key p)) = map g xs" using Cons.prems by (simp add: x)
  moreover have "map f (concat (map F (map key (map fst fs)))) = map g (concat (map snd fs))"
    using Cons.prems by (intro Cons.IH) simp
  ultimately show ?case by (simp add: x)
qed simp

lemma map_filter_commute: "(\<And>x. P (f x) = P x) \<Longrightarrow> map f (filter P xs) = filter P (map f xs)"
  by (induction xs) auto

lemma of_partition_events: "map snd (of_partition pn (numbered evs)) = filter (\<lambda>ev. partition_name (ev_symbol ev) = pn) evs"
  by (induction evs rule: rev_induct) (simp_all add: numbered_snoc of_partition_def)

lemma run_other_partitions:
  assumes loss: "lossless D batches rows_in base (numbered evs) seen G w" and none: "\<And>pn. om_get id pn (ew_open w) = None"
    and F: "\<And>pn p xs. plain_name pn \<Longrightarrow> (p, xs) \<in> set (G pn) \<Longrightarrow>
      map forget_mono (F (pos_key (ew_prefix w) pn p)) = map (recorded base \<circ> snd) xs"
    and k: "k \<in> local_archive [ew_prefix w] (ew_store w)"
      "partition_of k \<noteq> ew_prefix w @ ''/symbol='' @ partition_name (sid_symbol s)"
  shows "filter (\<lambda>e. se_stream e = s) (F k) = []"
proof -
  obtain pn p xs where x: "plain_name pn" "(p, xs) \<in> set (G pn)" "k = pos_key (ew_prefix w) pn p"
    using k(1) unfolding run_archive [OF loss none] by blast
  have ne: "pn \<noteq> partition_name (sid_symbol s)" using k(2) x by (auto simp: partition_of_key)
  have "se_stream e \<noteq> s" if "e \<in> set (F k)" for e
  proof -
    have "forget_mono e \<in> set (map (recorded base \<circ> snd) xs)" using that F [OF x(1,2)] x(3) by (metis image_eqI set_map)
    then obtain n ev where ev: "(n, ev) \<in> set xs" "forget_mono e = recorded base ev" by auto
    then have "(n, ev) \<in> set (of_partition pn (numbered evs))" using x(2) unfolding stored_files(1) [OF loss none x(1), symmetric] by force
    then have "partition_name (ev_symbol ev) = pn" by (simp add: of_partition_def)
    moreover have "se_stream e = StreamId (ev_venue ev) (ev_symbol ev)" using ev(2) by (metis forget_stream recorded_stream)
    ultimately show ?thesis using ne by auto
  qed
  then show ?thesis by (simp add: filter_empty_conv)
qed

lemma run_reads_back:
  assumes law: "d_text_law D" and loss: "lossless D batches rows_in base (numbered evs) seen G w"
    and none: "\<And>pn. om_get id pn (ew_open w) = None" and fit: "\<forall>ev \<in> set evs. storable D base ev"
  shows "\<exists>out. and_then (open_many local_ops [ew_prefix w] (ew_store w)) (\<lambda>r. collect D local_ops batches now r []) = Inr out
    \<and> (\<forall>s. map forget_mono (filter (\<lambda>e. se_stream e = s) out)
         = map (recorded base) (filter (\<lambda>ev. StreamId (ev_venue ev) (ev_symbol ev) = s) evs))"
proof -
  let ?A = "local_archive [ew_prefix w] (ew_store w)"
  define F where "F k = projr (decode_file D (now k) batches (the (local_objects (ew_store w) k)))" for k
  have st: "local_ok (ew_store w)" "st_io (ew_store w) = []" using loss by (simp_all add: lossless_def flat_store_def)
  note fin = finite_local_archive [OF st(1), of "[ew_prefix w]"]
  note decodes = run_file_decodes [OF law loss none fit]
  have F: "map forget_mono (F (pos_key (ew_prefix w) pn p)) = map (recorded base \<circ> snd) xs"
    if "plain_name pn" "(p, xs) \<in> set (G pn)" for pn p xs
    unfolding F_def decodes [OF that] sum.sel forget_stored_forms by simp
  have read: "\<forall>k \<in> ?A. decode_file D (now k) batches (the (local_objects (ew_store w) k)) = Inr (F k)"
    unfolding run_archive [OF loss none] by (auto simp: F_def decodes)
  have "map forget_mono (filter (\<lambda>e. se_stream e = s) (merge_by head_wall
        (map (\<lambda>p. concat (map F (partition_keys ?A p))) (sorted_list_of_set (partition_of ` ?A)))))
      = map (recorded base) (filter (\<lambda>ev. StreamId (ev_venue ev) (ev_symbol ev) = s) evs)" for s
  proof -
    let ?pn = "partition_name (sid_symbol s)"
    let ?p = "ew_prefix w @ ''/symbol='' @ ?pn"
    have "filter (\<lambda>e. se_stream e = s) (F k) = []" if "k \<in> ?A" "partition_of k \<noteq> ?p" for k
      by (rule run_other_partitions [OF loss none]) (use F that in simp_all)
    then have "map forget_mono (filter (\<lambda>e. se_stream e = s) (merge_by head_wall
          (map (\<lambda>p. concat (map F (partition_keys ?A p))) (sorted_list_of_set (partition_of ` ?A)))))
        = filter (\<lambda>e. se_stream e = s) (map forget_mono (concat (map F (partition_keys ?A ?p))))"
      by (subst merge_by_partition [OF fin]) (simp_all add: map_filter_commute)
    also have "map forget_mono (concat (map F (partition_keys ?A ?p))) = map (recorded base \<circ> snd) (concat (map snd (G ?pn)))"
      unfolding run_partition_keys [OF loss none partition_name_plain] by (rule map_concat_files) (rule F [OF partition_name_plain])
    also have "\<dots> = map (recorded base) (filter (\<lambda>ev. partition_name (ev_symbol ev) = ?pn) evs)"
      unfolding stored_files(1) [OF loss none partition_name_plain] map_map [symmetric] of_partition_events ..
    also have "filter (\<lambda>e. se_stream e = s) \<dots> = map (recorded base) (filter (\<lambda>ev. StreamId (ev_venue ev) (ev_symbol ev) = s) evs)"
      by (induction evs) auto
    finally show ?thesis .
  qed
  then show ?thesis using local_reading [OF st read] by blast
qed

section \<open>Properties\<close>

lemma fresh_writer_well:
  assumes "normal_path (split_on (CHR ''/'') (into_prefix prefix))"
    and w: "w = with_config (event_writer_new local_store_new prefix) config"
  shows "running_well D batches rows_in base (into_prefix prefix) [] w"
proof -
  have "local_objects (ew_store w) k = None" for k
    by (simp add: w with_config_def event_writer_new_def local_objects_def local_store_new_def)
  moreover have "flat_store n (ew_store w)" for n
    by (simp add: w with_config_def event_writer_new_def flat_store_def local_ok_def local_store_new_def)
  ultimately have "lossless D batches rows_in base (numbered []) [] (\<lambda>_. []) w"
    using assms(1) by (simp add: lossless_def partition_lossless_def w with_config_def event_writer_new_def of_partition_def)
  then show ?thesis by (auto simp: running_well_def w with_config_def event_writer_new_def)
qed

text \<open>
  C39. What is archived can be replayed. Let a run write any events to a fresh directory in which
  nothing fails, over any number of symbols, rolls and row groups, and close. Reading the directory
  back then gives, for every stream, exactly its events in the order they were written, with every
  digit, level, venue time, checksum and heartbeat, and the time each came after the run's first;
  only monotonic readings are gone. No event is lost, repeated, moved to another stream or
  reordered within its own. The hours of a symbol must not step back, no directory may get more
  than 100000 parts, and times must fit the columns and a four-digit year.
\<close>

theorem archive_round_trip:
  assumes "d_text_law D" and "parquet_law P batches rows_in"
    and "normal_path (split_on (CHR ''/'') (into_prefix prefix))"
    and "\<forall>ev \<in> set evs. storable D (ev_ingest_ts (hd evs)) ev" and "hours_in_order evs"
    and "w = with_config (event_writer_new local_store_new prefix) config"
    and "\<forall>n \<le> length evs. parts_fit (foldl (write_event D local_ops P) w (take n evs))"
  shows "\<exists>out. and_then (open_many local_ops [into_prefix prefix] (ew_store (run_writer D local_ops P evs w)))
        (\<lambda>r. collect D local_ops batches now r []) = Inr out
    \<and> (\<forall>s. map forget_mono (filter (\<lambda>e. se_stream e = s) out)
         = map (recorded (ev_ingest_ts (hd evs))) (filter (\<lambda>ev. StreamId (ev_venue ev) (ev_symbol ev) = s) evs))"
proof -
  have "running_well D batches rows_in (ev_ingest_ts (hd evs)) (into_prefix prefix) [] w"
    by (rule fresh_writer_well [OF assms(3,6)])
  from run_well [OF assms(2) this _ assms(5,7)] obtain G where
    loss: "lossless D batches rows_in (ev_ingest_ts (hd evs)) (numbered evs) evs G (run_writer D local_ops P evs w)"
    and pre: "ew_prefix (run_writer D local_ops P evs w) = into_prefix prefix"
    and none: "\<And>pn. om_get id pn (ew_open (run_writer D local_ops P evs w)) = None"
    by blast
  from run_reads_back [OF assms(1) loss none assms(4), of now] show ?thesis unfolding pre .
qed

text \<open>Up to 100000 events fit whatever they are, since each opens one file at most.\<close>

lemma few_events_fit:
  assumes prefix: "normal_path (split_on (CHR ''/'') (into_prefix prefix))"
    and w: "w = with_config (event_writer_new local_store_new prefix) config" and few: "length evs \<le> 100000"
  shows "\<forall>n \<le> length evs. parts_fit (foldl (write_event D local_ops P) w (take n evs))"
proof (intro allI impI)
  fix n assume n: "n \<le> length evs"
  have "writer_inv local_objects local_ok 0 w"
    unfolding w by (rule local.writer_new_inv) (auto simp: local_ok_def local_objects_def local_store_new_def split: if_splits)
  moreover have "good_key (dir_name (ew_prefix w) pn h @ file_name m)" if "plain_name pn" for pn h m
    using good_file_key [OF prefix that] by (simp add: w with_config_def event_writer_new_def)
  moreover have "0 + length (take n evs) \<le> u64_max" using n few by (simp add: u64_max_def)
  ultimately have "writer_inv local_objects local_ok (0 + length (take n evs)) (foldl (write_event D local_ops P) w (take n evs))"
    using local.write_events_inv by blast
  then show "parts_fit (foldl (write_event D local_ops P) w (take n evs))"
    using n few by (fastforce simp: writer_inv_def parts_fit_def)
qed

text \<open>A file format that keeps the row groups; and a run over two symbols in which one rolls.\<close>

definition group_parquet :: "(row list list, row list list) parquet_ops" where
  "group_parquet = \<lparr> pq_new = Inr [],
     pq_write = (\<lambda>b groups. case batch_rows b of Inr rs \<Rightarrow> (Inr (), groups @ [rs]) | Inl _ \<Rightarrow> (Inl (ArrowWriteError ''''), groups)),
     pq_into_inner = Inr, pq_size = length \<rparr>"

definition group_batches :: "row list list \<Rightarrow> read_error + (read_error + record_batch) list" where
  "group_batches groups = Inr (map (\<lambda>g. Inr (to_batch g)) groups)"

lemma group_parquet_law: "parquet_law group_parquet group_batches concat"
  by (auto simp: parquet_law_def group_parquet_def group_batches_def holds_rows_def)

definition timed_event :: "symbol \<Rightarrow> nat \<Rightarrow> nat event_kind \<Rightarrow> nat market_event" where
  "timed_event symbol t kind = \<lparr> ev_venue = Kraken, ev_symbol = symbol, ev_venue_ts = None,
     ev_ingest_ts = \<lparr> mono_t = t, wall_t = int t \<rparr>, ev_kind = kind \<rparr>"

definition rolled_events :: "nat market_event list" where
  "rolled_events = [timed_event ''BTC/USD'' 0 (Snapshot [level_of 101 2] [level_of 102 3]),
     timed_event ''ETH/USD'' 7 (Trade 5 6 (Some Ask)), timed_event ''BTC/USD'' 3600000000000 (Delta [level_of 101 0] [])]"

lemma archive_round_trip_witness:
  "\<exists>out. and_then (open_many local_ops [into_prefix ''events''] (ew_store (run_writer nat_decimals local_ops group_parquet
        rolled_events (with_config (event_writer_new local_store_new ''events'') writer_config_default))))
      (\<lambda>r. collect nat_decimals local_ops group_batches (\<lambda>_ k. k) r []) = Inr out
    \<and> (\<forall>s. map forget_mono (filter (\<lambda>e. se_stream e = s) out)
         = map (recorded (ev_ingest_ts (hd rolled_events)))
             (filter (\<lambda>ev. StreamId (ev_venue ev) (ev_symbol ev) = s) rolled_events))"
proof -
  let ?w = "with_config (event_writer_new local_store_new ''events'') writer_config_default
    :: (row list list local_store, row list list) event_writer"
  have "into_prefix ''events'' = ''events''" by (simp add: into_prefix_def trim_char_def)
  then have prefix: "normal_path (split_on (CHR ''/'') (into_prefix ''events''))"
    by (simp add: normal_path_def normal_name_def)
  have stored: "\<forall>ev \<in> set rolled_events. storable nat_decimals (ev_ingest_ts (hd rolled_events)) ev"
    by (simp add: rolled_events_def timed_event_def storable_def i64_max_def since_def)
  have hours: "hours_in_order rolled_events"
    by (simp add: rolled_events_def timed_event_def hours_in_order_def epoch_hour_def epoch_secs_def
        system_time_since_def nanos_per_sec_def hour_limit_def)
  have "length rolled_events \<le> 100000" by (simp add: rolled_events_def)
  note fit = few_events_fit [OF prefix refl this, of nat_decimals group_parquet writer_config_default]
  from archive_round_trip [OF nat_decimals_text group_parquet_law prefix stored hours refl fit]
  show ?thesis .
qed

end
