(* ===== verification/Spec2Isabelle.thy ===== *)
theory Spec2Isabelle
  imports Auditing Cross_Windows Cluster Channel Backoff Venues Running Ingest Gateway Archive_Round_Trip
begin

section \<open>Market aggregator: a verification development\<close>

text \<open>
  The program keeps order books of several exchanges (venues) for several symbols, decides for
  every book whether it may be trusted, and publishes one consolidated view. A node runs, per
  stream (a venue and a symbol), an ingest task; every ingest task sends into one bounded channel;
  one aggregator task owns the books, applies what arrives, publishes a snapshot each tick and tees
  the normalised events to an archive. Nodes share the streams by rendezvous hashing over the
  members whose leases they can read, and a gateway merges the snapshots of all nodes. The sources
  are under \<open>src/crates/\<close>, the crates \<open>ma-core\<close>, \<open>ma-venues\<close>, \<open>ma-pipeline\<close>, \<open>ma-coord\<close>,
  \<open>ma-persist\<close> and \<open>ma-server\<close>.

  \<^bold>\<open>Conventions.\<close> A struct is a record, an enum a datatype, a \<open>Result\<close> a sum with the error on the
  left, a call that may panic has type \<open>'a rust\<close>. Integers that wrap are words; integers that
  only saturate are \<open>nat\<close> with the saturation written out. A \<open>BTreeMap\<close> is an association list
  sorted by its keys. Text is the list of its UTF-8 bytes. Prices and quantities are the
  third-party \<open>rust_decimal\<close>: a type parameter and a record of its operations, of which the
  properties assume only the documented laws they name (order by value, exact text); JSON and CRC32
  decoders, floats and the Parquet container are parameters in the same way. Times are
  nanoseconds, monotonic and wall separately, as \<open>IngestTime\<close> has them.
\<close>

text \<open>
  \<^bold>\<open>The theories and the code.\<close>

  \<^item> \<open>Prelude\<close>, \<open>Ordered_Map\<close>: words, results of panicking calls, extrema of iterators; sorted
    maps with the interface \<open>keyed_map\<close>.
  \<^item> \<open>Price\<close>, \<open>Times\<close>, \<open>Events\<close> (\<open>ma-core/src/price.rs\<close>, \<open>time.rs\<close>, \<open>event.rs\<close>, \<open>stream.rs\<close>): the
    data every component shares.
  \<^item> \<open>Book\<close> (\<open>book.rs\<close>): snapshots, deltas, the crossing guard, pruning, verification. A book is a
    sorted list per side and a state; a delta is proved to be the update of the map it denotes.
  \<^item> \<open>Auditing\<close> (\<open>audit.rs\<close>): comparing a book with a polled snapshot, and the trail that decides.
  \<^item> \<open>Window\<close>, \<open>Cross\<close>, \<open>Cross_Windows\<close> (\<open>window.rs\<close>, \<open>cross.rs\<close>, \<open>cross_windows.rs\<close>): the ring of
    buckets with its account of trusted time, the consolidated touch and the consolidated windows.
  \<^item> \<open>Assign\<close>, \<open>Lease\<close>, \<open>Cluster\<close> (\<open>ma-coord/src/assign.rs\<close>, \<open>lease.rs\<close>, \<open>registry.rs\<close>): the owner of a
    stream, one pass of a coordinator with the interface \<open>lease_store\<close> of a registry, and whole
    clusters as a transition system whose invariant bounds how stale every decision can be.
  \<^item> \<open>Channel\<close>, \<open>Backoff\<close>, \<open>Metrics\<close> (\<open>ma-pipeline/src/channel.rs\<close>, \<open>backoff.rs\<close>, \<open>resync.rs\<close>,
    \<open>metrics.rs\<close>): the drop-oldest channel under interleaved senders, the reconnect schedule over
    the interface \<open>jitter\<close>, and the counters.
  \<^item> \<open>Sync\<close>, \<open>Wire\<close>, \<open>Coinbase_Venue\<close>, \<open>Kraken_Venue\<close>, \<open>Bitstamp_Venue\<close>, \<open>Endpoint\<close>,
    \<open>Fake_Venue\<close>, \<open>Venues\<close> (\<open>ma-venues/src/\<close>): the boundary between a venue's state machine and its
    book. \<open>VenueSync\<close> is the record \<open>venue_ops\<close> with the contract \<open>venue_sync\<close>, interpreted on every
    venue; \<open>Venues\<close> proves what holds of a venue's book whatever the venue.
  \<^item> \<open>Aggregator\<close>, \<open>Aggregating\<close>, \<open>Publishing\<close>, \<open>Running\<close> (\<open>ma-pipeline/src/aggregator.rs\<close>): one
    message applied, what that guarantees, the published views, and the loop against every
    behaviour of its environment.
  \<^item> \<open>Ingest\<close> (\<open>ma-pipeline/src/ingest.rs\<close>): sessions over the events the task wakes on, reconnects.
  \<^item> \<open>Gateway\<close> (\<open>ma-server/src/gateway/mod.rs\<close>): the merge of node snapshots.
  \<^item> \<open>Digits\<close>, \<open>Archive_Store\<close>, \<open>Archive_Rows\<close>, \<open>Archive_Calendar\<close>, \<open>Archive_Writer\<close>,
    \<open>Archive_Writing\<close>, \<open>Archive_Reader\<close>, \<open>Archive_Reading\<close>, \<open>Archive_Round_Trip\<close>
    (\<open>ma-persist/src/store.rs\<close>, \<open>schema.rs\<close>, \<open>writer.rs\<close>, \<open>reader.rs\<close>, \<open>counters.rs\<close>): the archive. The interface \<open>object_store\<close> is what the
    writer and the reader rely on; the local directory, with the I/O errors its calls will meet as
    part of its state, provides it.
\<close>

text \<open>
  \<^bold>\<open>What the groups of lemmas show.\<close> Books stay well formed under every operation, are never live
  while crossed, and hold what their updates say (\<open>Book\<close>, \<open>Venues\<close>). Audits accuse only of real and
  recurring disagreements (\<open>Auditing\<close>). Windows report what they saw, and trusted time is exact
  (\<open>Window\<close>). Every stream has one owner given a view of the members, and at most one node runs it in
  every interleaving under the stated timing condition, which the defaults do not meet (\<open>Cluster\<close>).
  Nothing is lost from the channel without being counted (\<open>Channel\<close>). Every snapshot of every
  reachable state of the aggregator is honest, the loop's batches end, and desynced time and resync
  requests are exact (\<open>Running\<close>, \<open>Aggregating\<close>). A recorded history replays into the same book
  (\<open>Venues\<close>, \<open>Aggregating\<close>). Sessions do not blur (\<open>Ingest\<close>). The merged view shows the freshest claim
  and stale legs are left out (\<open>Gateway\<close>). The archive never overwrites a file, its reader hands out every
  event once, each partition in order, and what a run without failures writes reads back as exactly
  the events of every stream in order (\<open>Archive_Writing\<close>, \<open>Archive_Reading\<close>, \<open>Archive_Round_Trip\<close>).

  \<^bold>\<open>Loops and bounds.\<close> Most loops of the source run over a list and are structural recursions. The
  reader's loop is a function whose measure is the files not opened, then the events not handed out.
  The endless loops (aggregator, ingest, coordinator) are step relations or runs over the list of
  what they wake on; where they must finish something, a theorem says so. No definition uses fuel.
  Bounds that a hypothesis names are far away: part numbers and counters below \<open>2 ^ 64\<close>, times within
  the clocks of the platform, a five-digit part number and a four-digit year where keys are compared
  as text.

  \<^bold>\<open>Not modelled.\<close> Sockets, HTTP, TLS and the AWS clients (I/O); JSON, CRC32 and Parquet decoding
  (third-party, parameters); the tape file format, the HTTP pages and the wiring of tasks in
  \<open>ma-server\<close>; logging and \<open>Display\<close> texts other than those that reach a key or a snapshot. Atomics
  are sequentially consistent here; the source uses them for counting only.
\<close>

end
